(* ===== verification/Prelude.thy ===== *)
theory Prelude
  imports Main "HOL-Library.Word" "HOL-Library.List_Lexorder" "HOL-Library.Product_Lexorder"
begin

unbundle bit_operations_syntax

text \<open>
  Shared vocabulary of the development.

  \<^item> Go's \<^verbatim>\<open>[]byte\<close> is \<open>bytes\<close>, a list of 8-bit words.  Where the program
    distinguishes the \<^verbatim>\<open>nil\<close> gslice from an empty one (values of the store, where nil is
    a tombstone) the type is \<open>bytes option\<close>.
  \<^item> \<open>gslice a b xs\<close> is Go's \<^verbatim>\<open>xs[a:b]\<close> for \<open>a \<le> b \<le> length xs\<close>.
  \<^item> \<open>put_le\<close>, \<open>get_le\<close>, \<open>put_be\<close>, \<open>get_be\<close> are the little- and big-endian
    accessors of the standard package \<^verbatim>\<open>encoding/binary\<close> at any width.
  \<^item> \<open>bytes_compare\<close> is \<^verbatim>\<open>bytes.Compare\<close>.
  \<^item> \<open>osfile\<close> is an append-only \<^verbatim>\<open>*os.File\<close> whose system calls may fail: each
    \<^verbatim>\<open>Write\<close> or \<^verbatim>\<open>Sync\<close> consumes one entry of a script of outcomes.
  \<^item> the locale \<open>total_cmp\<close> is the contract of a three-way comparison function, with
    the lemmas on sorted lists that its clients share.
\<close>

named_theorems codec_simps \<open>round trips of the fixed-width encoders\<close>
named_theorems length_simps \<open>lengths of encoded data\<close>

type_synonym byte = "8 word"
type_synonym bytes = "8 word list"
type_synonym u16 = "16 word"
type_synonym u32 = "32 word"
type_synonym u64 = "64 word"
type_synonym i64 = "64 word"

section \<open>Slices and the encoding/binary accessors\<close>

definition gslice :: "nat \<Rightarrow> nat \<Rightarrow> 'a list \<Rightarrow> 'a list" where
  "gslice a b xs = take (b - a) (drop a xs)"

fun put_le :: "nat \<Rightarrow> 'a::len word \<Rightarrow> bytes" where
  "put_le 0 w = []"
| "put_le (Suc n) w = ucast w # put_le n (drop_bit 8 w)"

fun get_le :: "bytes \<Rightarrow> 'a::len word" where
  "get_le [] = 0"
| "get_le (b # bs) = ucast b OR push_bit 8 (get_le bs)"

definition put_be :: "nat \<Rightarrow> 'a::len word \<Rightarrow> bytes" where
  "put_be n w = rev (put_le n w)"

definition get_be :: "bytes \<Rightarrow> 'a::len word" where
  "get_be bs = get_le (rev bs)"

section \<open>bytes.Compare\<close>

fun bytes_compare :: "bytes \<Rightarrow> bytes \<Rightarrow> int" where
  "bytes_compare [] [] = 0"
| "bytes_compare [] (b # bs) = -1"
| "bytes_compare (a # as) [] = 1"
| "bytes_compare (a # as) (b # bs) =
     (if a < b then -1 else if b < a then 1 else bytes_compare as bs)"

section \<open>Sorted association lists\<close>

text \<open>
  The reference data structure of every ordered table of the store (skip list, data block,
  merged stream): an association list strictly ascending in a comparison function.
\<close>

definition asc_by :: "('k \<Rightarrow> 'k \<Rightarrow> int) \<Rightarrow> ('k \<times> 'v) list \<Rightarrow> bool" where
  "asc_by cmp kvs = sorted_wrt (\<lambda>p q. cmp (fst p) (fst q) < 0) kvs"

fun upd_by :: "('k \<Rightarrow> 'k \<Rightarrow> int) \<Rightarrow> 'k \<Rightarrow> 'v \<Rightarrow> ('k \<times> 'v) list \<Rightarrow> ('k \<times> 'v) list" where
  "upd_by cmp k v [] = [(k, v)]"
| "upd_by cmp k v (p # ps) =
     (if cmp (fst p) k < 0 then p # upd_by cmp k v ps
      else if fst p = k then (k, v) # ps
      else (k, v) # p # ps)"

section \<open>Files whose system calls may fail\<close>

datatype io_outcome = IoOk | IoFail nat

record osfile =
  f_data :: bytes
  f_script :: "io_outcome list"

text \<open>
  The next outcome of the script, and the rest of it.  An exhausted script means that every
  further call succeeds.
\<close>

fun io_next :: "io_outcome list \<Rightarrow> io_outcome \<times> io_outcome list" where
  "io_next [] = (IoOk, [])"
| "io_next (x # xs) = (x, xs)"

text \<open>
  \<^verbatim>\<open>File.Write\<close>: all of \<open>bs\<close> is appended, or, on failure, only the first \<open>n\<close> bytes
  of it.  The boolean says whether the call returned a nil error.
\<close>

definition file_write :: "osfile \<Rightarrow> bytes \<Rightarrow> bool \<times> osfile" where
  "file_write f bs =
     (case io_next (f_script f) of
        (IoOk, s) \<Rightarrow> (True, f\<lparr>f_data := f_data f @ bs, f_script := s\<rparr>)
      | (IoFail n, s) \<Rightarrow> (False, f\<lparr>f_data := f_data f @ take n bs, f_script := s\<rparr>))"

text \<open>\<^verbatim>\<open>File.Sync\<close> and \<^verbatim>\<open>File.Close\<close>: no data moves, only the error is modelled.\<close>

definition file_sync :: "osfile \<Rightarrow> bool \<times> osfile" where
  "file_sync f =
     (case io_next (f_script f) of
        (IoOk, s) \<Rightarrow> (True, f\<lparr>f_script := s\<rparr>)
      | (IoFail n, s) \<Rightarrow> (False, f\<lparr>f_script := s\<rparr>))"

definition file_close :: "osfile \<Rightarrow> bool \<times> osfile" where
  "file_close f = file_sync f"

definition good_file :: "bytes \<Rightarrow> osfile" where
  "good_file bs = \<lparr>f_data = bs, f_script = []\<rparr>"

section \<open>Lemmas on files\<close>

lemma file_write_good [simp]: "f_script f = [] \<Longrightarrow> file_write f bs = (True, f\<lparr>f_data := f_data f @ bs\<rparr>)"
  by (simp add: file_write_def)

lemma file_sync_good [simp]: "f_script f = [] \<Longrightarrow> file_sync f = (True, f)"
  by (simp add: file_sync_def)

lemma file_close_good [simp]: "f_script f = [] \<Longrightarrow> file_close f = (True, f)"
  by (simp add: file_close_def)

lemma f_data_good_file [simp]: "f_data (good_file bs) = bs"
  and f_script_good_file [simp]: "f_script (good_file bs) = []"
  by (simp_all add: good_file_def)

lemma file_write_True:
  "file_write f bs = (True, f') \<Longrightarrow> f_data f' = f_data f @ bs"
  by (auto simp: file_write_def split: prod.splits io_outcome.splits)

lemma file_write_False:
  "file_write f bs = (False, f') \<Longrightarrow> \<exists>n. f_data f' = f_data f @ take n bs"
  by (auto simp: file_write_def split: prod.splits io_outcome.splits)

lemma file_sync_data: "file_sync f = (b, f') \<Longrightarrow> f_data f' = f_data f"
  by (auto simp: file_sync_def split: prod.splits io_outcome.splits)

section \<open>Lemmas on slices\<close>

lemma length_gslice [simp]: "length (gslice a b xs) = min (b - a) (length xs - a)"
  by (simp add: gslice_def)

lemma gslice_0 [simp]: "gslice 0 b xs = take b xs"
  by (simp add: gslice_def)

lemma gslice_append_left: "b \<le> length xs \<Longrightarrow> gslice a b (xs @ ys) = gslice a b xs"
  by (simp add: gslice_def)

lemma gslice_append_right:
  "length xs \<le> a \<Longrightarrow> gslice a b (xs @ ys) = gslice (a - length xs) (b - length xs) ys"
  by (cases "a \<le> b") (simp_all add: gslice_def)

lemma gslice_mid: "a = length xs \<Longrightarrow> b = a + length ys \<Longrightarrow> gslice a b (xs @ ys @ zs) = ys"
  by (simp add: gslice_def)

lemma gslice_drop: "gslice a b (drop n xs) = gslice (n + a) (n + b) xs"
  by (simp add: gslice_def add.commute)

text \<open>
  Parsing at an offset: when the bytes from \<open>off\<close> on start with a field \<open>x\<close>, the bounds
  check of the source passes, the slice is the field, and parsing continues after it.
\<close>

lemma field_at:
  assumes "drop off data = x @ rest" "off \<le> length data" "length x = n"
  shows "gslice off (off + n) data = x" "drop (off + n) data = rest" "off + n \<le> length data"
proof -
  show "gslice off (off + n) data = x" using assms by (simp add: gslice_def)
  have "drop (off + n) data = drop n (drop off data)" by (simp add: add.commute)
  with assms show "drop (off + n) data = rest" by simp
  have "length data - off = n + length rest" using assms by (metis length_append length_drop)
  with assms(2) show "off + n \<le> length data" by linarith
qed

lemma field_split:
  assumes "off + n \<le> length data"
  shows "drop off data = gslice off (off + n) data @ drop (off + n) data"
    and "length (gslice off (off + n) data) = n"
  using assms by (simp_all add: gslice_def add.commute flip: drop_drop)

section \<open>Lemmas on the byte encoders\<close>

lemma length_put_le [simp, length_simps]: "length (put_le n w) = n"
  by (induction n arbitrary: w) auto

lemma length_put_be [simp, length_simps]: "length (put_be n w) = n"
  by (simp add: put_be_def)

lemma get_le_put_le_take_bit:
  "get_le (put_le n w) = take_bit (8 * n) (w :: 'a::len word)"
proof (induction n arbitrary: w)
  case 0
  then show ?case by simp
next
  case (Suc n)
  have "ucast (ucast w :: byte) OR push_bit 8 (take_bit (8 * n) (drop_bit 8 w)) =
        take_bit (8 * Suc n) w"
    by (rule bit_eqI) (auto simp: bit_simps)
  with Suc.IH show ?case by simp
qed

lemma get_le_put_le [simp, codec_simps]:
  "LENGTH('a) \<le> 8 * n \<Longrightarrow> get_le (put_le n w) = (w :: 'a::len word)"
  by (simp add: get_le_put_le_take_bit take_bit_word_eq_self)

lemma get_be_put_be [simp, codec_simps]:
  "LENGTH('a) \<le> 8 * n \<Longrightarrow> get_be (put_be n w) = (w :: 'a::len word)"
  by (simp add: get_be_def put_be_def)

lemma get_le_take_bit:
  "take_bit (8 * length bs) (get_le bs :: 'a::len word) = get_le bs"
proof (induction bs)
  case Nil
  then show ?case by simp
next
  case (Cons b bs)
  let ?g = "get_le bs :: 'a word"
  have "take_bit (8 * length (b # bs)) (ucast b OR push_bit 8 (take_bit (8 * length bs) ?g)) =
        ucast b OR push_bit 8 (take_bit (8 * length bs) ?g)"
    by (rule bit_eqI) (auto simp: bit_simps dest: bit_imp_le_length)
  then show ?case by (simp add: Cons.IH)
qed

lemma put_le_get_le:
  "8 * length bs \<le> LENGTH('a) \<Longrightarrow> put_le (length bs) (get_le bs :: 'a::len word) = bs"
proof (induction bs)
  case Nil
  then show ?case by simp
next
  case (Cons b bs)
  let ?g = "get_le bs :: 'a word"
  have lo: "ucast (ucast b OR push_bit 8 ?g) = b"
    using Cons.prems by (intro bit_eqI) (auto simp: bit_simps dest: bit_imp_le_length)
  have "drop_bit 8 (ucast b OR push_bit 8 (take_bit (8 * length bs) ?g)) =
        take_bit (8 * length bs) ?g"
    using Cons.prems by (intro bit_eqI) (auto simp: bit_simps dest: bit_imp_le_length)
  then have hi: "drop_bit 8 (ucast b OR push_bit 8 ?g) = ?g"
    by (simp add: get_le_take_bit)
  from Cons lo hi show ?case by simp
qed

lemma unat_u32_less: "unat (w :: u32) < 2 ^ 32"
  using unsigned_less [of w] by simp

lemma unat_of_nat_u32 [simp]: "n < 2 ^ 32 \<Longrightarrow> unat (of_nat n :: u32) = n"
  by (simp add: unat_of_nat)

lemma unat_of_nat_u16 [simp]: "n < 2 ^ 16 \<Longrightarrow> unat (of_nat n :: u16) = n"
  by (simp add: unat_of_nat)

lemma unat_of_nat_u64 [simp]: "n < 2 ^ 64 \<Longrightarrow> unat (of_nat n :: u64) = n"
  by (simp add: unat_of_nat)

section \<open>bytes.Compare is the lexicographic order\<close>

lemma bytes_compare_linorder:
  "bytes_compare a b = (if a < b then -1 else if a = b then 0 else 1)"
  by (induction a b rule: bytes_compare.induct) auto

lemma bytes_compare_less: "bytes_compare a b < 0 \<longleftrightarrow> a < b"
  and bytes_compare_eq: "bytes_compare a b = 0 \<longleftrightarrow> a = b"
  and bytes_compare_greater: "0 < bytes_compare a b \<longleftrightarrow> b < a"
  by (auto simp: bytes_compare_linorder)

text \<open>Big-endian encodings of equal width compare as the numbers they encode.\<close>

lemma put_le_Suc_snoc: "put_le (Suc n) w = put_le n w @ [ucast (drop_bit (8 * n) w)]"
proof (induction n arbitrary: w)
  case 0
  then show ?case by simp
next
  case (Suc n)
  have "put_le (Suc (Suc n)) w = ucast w # put_le (Suc n) (drop_bit 8 w)" by simp
  also have "\<dots> = ucast w # put_le n (drop_bit 8 w) @ [ucast (drop_bit (8 * n) (drop_bit 8 w))]"
    by (simp only: Suc.IH)
  finally show ?case by (simp add: add.commute)
qed

lemma put_be_Suc: "put_be (Suc n) w = ucast (drop_bit (8 * n) w) # put_be n w"
  by (simp add: put_be_def put_le_Suc_snoc del: put_le.simps(2))

lemma put_le_take_bit: "put_le n (take_bit (8 * n) w) = put_le n (w :: 'a::len word)"
proof (induction n arbitrary: w)
  case 0
  then show ?case by simp
next
  case (Suc n)
  have "ucast (take_bit (8 * Suc n) w) = (ucast w :: byte)"
    by (rule bit_eqI) (auto simp: bit_simps)
  moreover have "drop_bit 8 (take_bit (8 * Suc n) w) = take_bit (8 * n) (drop_bit 8 w)"
    by (rule bit_eqI) (auto simp: bit_simps)
  ultimately show ?case by (simp add: Suc.IH)
qed

lemma put_be_less_iff_unat:
  "put_be n (v :: 'a::len word) < put_be n (w :: 'a word) \<longleftrightarrow>
     unat v mod 2 ^ (8 * n) < unat w mod 2 ^ (8 * n)"
proof (induction n)
  case 0
  then show ?case by (simp add: put_be_def)
next
  case (Suc n)
  have split: "unat x mod 2 ^ (8 * Suc n) =
      unat (ucast (drop_bit (8 * n) x) :: byte) * 2 ^ (8 * n) + unat x mod 2 ^ (8 * n)"
    for x :: "'a word"
  proof -
    have "unat (drop_bit (8 * n) x) = unat x div 2 ^ (8 * n)"
      unfolding unat_drop_bit_eq by (simp add: drop_bit_eq_div)
    then have "unat (ucast (drop_bit (8 * n) x) :: byte) = unat x div 2 ^ (8 * n) mod 2 ^ 8"
      by (simp only: unsigned_ucast_eq take_bit_eq_mod) simp
    then show ?thesis
      using mod_mult2_eq [of "unat x" "2 ^ (8 * n)" "2 ^ 8"]
      by (simp add: power_add mult.commute add.commute)
  qed
  have lt: "unat x mod 2 ^ (8 * n) < 2 ^ (8 * n)" for x :: "'a word" by simp
  have key: "(p * 2 ^ (8 * n) + r < q * 2 ^ (8 * n) + s) \<longleftrightarrow> p < q \<or> (p = q \<and> r < s)"
    if "r < 2 ^ (8 * n)" "s < 2 ^ (8 * n)" for p q r s :: nat
  proof -
    consider "p < q" | "p = q" | "q < p" by linarith
    then show ?thesis
    proof cases
      case 1
      then have "Suc p * 2 ^ (8 * n) \<le> q * 2 ^ (8 * n)" by (intro mult_le_mono1) simp
      with that 1 show ?thesis by simp
    next
      case 3
      then have "Suc q * 2 ^ (8 * n) \<le> p * 2 ^ (8 * n)" by (intro mult_le_mono1) simp
      with that 3 show ?thesis by simp
    qed simp
  qed
  show ?case
    unfolding put_be_Suc split [of v] split [of w] key [OF lt lt]
    by (auto simp: Suc.IH word_less_nat_alt word_unat_eq_iff)
qed

lemma put_be_less_iff:
  "LENGTH('a) \<le> 8 * n \<Longrightarrow> put_be n (v :: 'a::len word) < put_be n (w :: 'a word) \<longleftrightarrow> v < w"
proof -
  assume le: "LENGTH('a) \<le> 8 * n"
  have "unat x < 2 ^ (8 * n)" for x :: "'a word"
    by (rule less_le_trans [OF unsigned_less]) (simp add: le)
  then show ?thesis by (simp add: put_be_less_iff_unat word_less_nat_alt)
qed

section \<open>The contract of a comparison function\<close>

locale total_cmp =
  fixes cmp :: "'k \<Rightarrow> 'k \<Rightarrow> int"
  assumes cmp_eq: "cmp a b = 0 \<longleftrightarrow> a = b"
    and cmp_flip: "cmp a b < 0 \<longleftrightarrow> 0 < cmp b a"
    and cmp_trans: "cmp a b < 0 \<Longrightarrow> cmp b c < 0 \<Longrightarrow> cmp a c < 0"
begin

lemma cmp_refl: "cmp a a = 0"
  by (simp add: cmp_eq)

lemma cmp_total: "cmp a b < 0 \<or> a = b \<or> cmp b a < 0"
  using cmp_eq [of a b] cmp_flip [of b a] by linarith

lemma cmp_asym: "cmp a b < 0 \<Longrightarrow> \<not> cmp b a < 0"
  using cmp_flip [of a b] by linarith

lemma cmp_irrefl: "\<not> cmp a a < 0"
  by (simp add: cmp_refl)

lemma cmp_not_less: "\<not> cmp a b < 0 \<longleftrightarrow> a = b \<or> cmp b a < 0"
  using cmp_total [of a b] cmp_asym cmp_irrefl by blast

lemma cmp_le_less_trans: "cmp a b \<le> 0 \<Longrightarrow> cmp b c < 0 \<Longrightarrow> cmp a c < 0"
  using cmp_eq [of a b] cmp_trans [of a b c] by (cases "cmp a b = 0") auto

lemma cmp_less_le_trans: "cmp a b < 0 \<Longrightarrow> cmp b c \<le> 0 \<Longrightarrow> cmp a c < 0"
  using cmp_eq [of b c] cmp_trans [of a b c] by (cases "cmp b c = 0") auto

lemma cmp_le_trans: "cmp a b \<le> 0 \<Longrightarrow> cmp b c \<le> 0 \<Longrightarrow> cmp a c \<le> 0"
  using cmp_eq [of a b] cmp_less_le_trans [of a b c] by (cases "cmp a b = 0") auto

lemma cmp_ge_iff: "0 \<le> cmp a b \<longleftrightarrow> cmp b a \<le> 0"
  using cmp_flip [of a b] by linarith

lemma asc_by_distinct: "asc_by cmp kvs \<Longrightarrow> distinct (map fst kvs)"
  unfolding asc_by_def
  by (induction kvs) (auto simp: cmp_irrefl)

lemma asc_by_append:
  "asc_by cmp (xs @ ys) \<longleftrightarrow>
     asc_by cmp xs \<and> asc_by cmp ys \<and> (\<forall>p \<in> set xs. \<forall>q \<in> set ys. cmp (fst p) (fst q) < 0)"
  by (simp add: asc_by_def sorted_wrt_append)

lemma asc_by_Cons:
  "asc_by cmp (p # ps) \<longleftrightarrow> (\<forall>q \<in> set ps. cmp (fst p) (fst q) < 0) \<and> asc_by cmp ps"
  by (simp add: asc_by_def)

lemma set_upd_by:
  "asc_by cmp kvs \<Longrightarrow> set (upd_by cmp k v kvs) = {p \<in> set kvs. fst p \<noteq> k} \<union> {(k, v)}"
  by (induction kvs) (auto simp: asc_by_Cons cmp_irrefl cmp_not_less dest: cmp_trans)

lemma asc_by_upd_by: "asc_by cmp kvs \<Longrightarrow> asc_by cmp (upd_by cmp k v kvs)"
proof (induction kvs)
  case Nil
  then show ?case by (simp add: asc_by_def)
next
  case (Cons p ps)
  then show ?case
    by (auto simp: asc_by_Cons set_upd_by cmp_not_less dest: cmp_trans)
qed

lemma upd_by_append:
  "(\<forall>p \<in> set xs. cmp (fst p) k < 0) \<Longrightarrow> upd_by cmp k v (xs @ ys) = xs @ upd_by cmp k v ys"
  by (induction xs) (auto dest: cmp_asym simp: cmp_irrefl)

lemma map_of_upd_by: "asc_by cmp kvs \<Longrightarrow> map_of (upd_by cmp k v kvs) = (map_of kvs)(k \<mapsto> v)"
  by (induction kvs) (auto simp: asc_by_Cons fun_eq_iff cmp_irrefl)

lemma map_of_asc_lt:
  "asc_by cmp kvs \<Longrightarrow> (\<forall>p \<in> set kvs. cmp k (fst p) < 0) \<Longrightarrow> map_of kvs k = None"
  by (induction kvs) (auto simp: asc_by_Cons cmp_irrefl)

lemma map_of_dropWhile:
  "asc_by cmp kvs \<Longrightarrow>
     map_of kvs k =
       (case dropWhile (\<lambda>p. cmp (fst p) k < 0) kvs of
          [] \<Rightarrow> None | p # _ \<Rightarrow> if fst p = k then Some (snd p) else None)"
proof (induction kvs)
  case Nil
  then show ?case by simp
next
  case (Cons p ps)
  then have "cmp k (fst p) < 0 \<Longrightarrow> map_of ps k = None"
    by (intro map_of_asc_lt) (auto simp: asc_by_Cons dest: cmp_trans)
  with Cons show ?case
    by (cases p) (auto simp: asc_by_Cons cmp_irrefl cmp_not_less)
qed

lemma fold_upd_by:
  "asc_by cmp xs \<Longrightarrow> asc_by cmp (fold (\<lambda>(k, v). upd_by cmp k v) ps xs) \<and>
     map_of (fold (\<lambda>(k, v). upd_by cmp k v) ps xs) k = (map_of xs ++ map_of (rev ps)) k"
proof (induction ps arbitrary: xs)
  case (Cons p ps)
  then show ?case
    using Cons.IH [of "upd_by cmp (fst p) (snd p) xs"]
    by (auto simp: asc_by_upd_by map_of_upd_by split_beta map_add_def split: option.splits)
qed simp

end

interpretation bc: total_cmp bytes_compare
  by unfold_locales (auto simp: bytes_compare_less bytes_compare_eq bytes_compare_greater)

section \<open>Sorted tables\<close>

text \<open>
  The contract of an ordered key-value table: a concrete state represents an ascending association
  list, writing updates it, reading looks it up.  Operations may get stuck (\<^term>\<open>None\<close>); the laws say
  they do not.
\<close>

fun run_opt :: "('a \<Rightarrow> 's \<Rightarrow> 's option) \<Rightarrow> 'a list \<Rightarrow> 's \<Rightarrow> 's option" where
  "run_opt f [] s = Some s"
| "run_opt f (x # xs) s = (case f x s of None \<Rightarrow> None | Some s' \<Rightarrow> run_opt f xs s')"

locale sorted_table = total_cmp cmp
  for cmp :: "'k \<Rightarrow> 'k \<Rightarrow> int" +
  fixes rep :: "'s \<Rightarrow> ('k \<times> 'v) list \<Rightarrow> bool"
    and put :: "'k \<Rightarrow> 'v \<Rightarrow> 's \<Rightarrow> 's option"
    and get :: "'k \<Rightarrow> 's \<Rightarrow> 'v option option"
    and scan :: "'s \<Rightarrow> ('k \<times> 'v) list option"
  assumes rep_asc: "rep s xs \<Longrightarrow> asc_by cmp xs"
    and put_rep: "rep s xs \<Longrightarrow> \<exists>s'. put k v s = Some s' \<and> rep s' (upd_by cmp k v xs)"
    and get_rep: "rep s xs \<Longrightarrow> get k s = Some (map_of xs k)"
    and scan_rep: "rep s xs \<Longrightarrow> scan s = Some xs"
begin

lemma run_rep:
  "rep s xs \<Longrightarrow> \<exists>s'. run_opt (\<lambda>(k, v). put k v) ps s = Some s' \<and>
     rep s' (fold (\<lambda>(k, v). upd_by cmp k v) ps xs)"
proof (induction ps arbitrary: s xs)
  case (Cons p ps)
  obtain k v where p: "p = (k, v)" by (cases p)
  obtain s1 where s1: "put k v s = Some s1" "rep s1 (upd_by cmp k v xs)"
    using put_rep [OF Cons.prems] by blast
  with Cons.IH [OF s1(2)] p show ?case by simp
qed simp

lemma run_spec:
  assumes "rep s []"
  shows "\<exists>s' ys. run_opt (\<lambda>(k, v). put k v) ps s = Some s' \<and> scan s' = Some ys \<and> asc_by cmp ys \<and>
    (\<forall>k. map_of ys k = map_of (rev ps) k) \<and> (\<forall>k. get k s' = Some (map_of (rev ps) k))"
proof -
  have asc: "asc_by cmp []" by (simp add: asc_by_def)
  obtain s' where s': "run_opt (\<lambda>(k, v). put k v) ps s = Some s'"
    "rep s' (fold (\<lambda>(k, v). upd_by cmp k v) ps [])"
    using run_rep [OF assms] by blast
  then show ?thesis
    using fold_upd_by [OF asc, of ps] get_rep [OF s'(2)] scan_rep [OF s'(2)] by simp
qed

end

end
