(* ===== verification/WalBatch.thy ===== *)
theory WalBatch
  imports Prelude
begin

text \<open>
  Write batches and their binary form (\<^verbatim>\<open>src/internal/wal/batch.go\<close>,
  \<^verbatim>\<open>src/internal/wal/errors.go\<close>): a batch is the unit of one log record.

  The value of an entry is \<open>None\<close> where the Go slice is nil.  The encoder writes the length of
  the value only, so a nil value and an empty value have the same image, and \<open>DecodeBatch\<close>
  turns both into nil.
\<close>

datatype wal_error =
    ErrCorruptRecord
  | ErrShortRecord
  | ErrClosed
  | ErrInvalidBatch
  | EOF
  | ErrIO

definition OpPut :: byte where "OpPut = 1"
definition OpDelete :: byte where "OpDelete = 2"

record BatchEntry =
  Op :: byte
  Key :: bytes
  Value :: "bytes option"

type_synonym Batch = "BatchEntry list"

definition emptyBatch :: Batch where
  "emptyBatch = []"

definition batch_Put :: "Batch \<Rightarrow> bytes \<Rightarrow> bytes option \<Rightarrow> Batch" where
  "batch_Put b key val = b @ [\<lparr>Op = OpPut, Key = key, Value = val\<rparr>]"

definition batch_Delete :: "Batch \<Rightarrow> bytes \<Rightarrow> Batch" where
  "batch_Delete b key = b @ [\<lparr>Op = OpDelete, Key = key, Value = None\<rparr>]"

text \<open>The bytes of a possibly nil slice, as \<^verbatim>\<open>len\<close> and \<^verbatim>\<open>copy\<close> see them.\<close>

definition nil_bytes :: "bytes option \<Rightarrow> bytes" where
  "nil_bytes v = (case v of None \<Rightarrow> [] | Some bs \<Rightarrow> bs)"

definition encode_entry :: "BatchEntry \<Rightarrow> bytes" where
  "encode_entry e =
     [Op e] @
     put_le 4 (of_nat (length (Key e)) :: u32) @ Key e @
     put_le 4 (of_nat (length (nil_bytes (Value e))) :: u32) @ nil_bytes (Value e)"

definition batch_Encode :: "Batch \<Rightarrow> bytes" where
  "batch_Encode b = put_le 4 (of_nat (length b) :: u32) @ concat (map encode_entry b)"

text \<open>The loop of \<^verbatim>\<open>DecodeBatch\<close>: \<open>n\<close> entries left, reading at \<open>off\<close>.\<close>

fun decode_entries :: "nat \<Rightarrow> nat \<Rightarrow> bytes \<Rightarrow> wal_error + Batch" where
  "decode_entries 0 off data = Inr []"
| "decode_entries (Suc n) off data =
     (if length data < off + 1 then Inl ErrInvalidBatch
      else let op = data ! off; off = off + 1 in
      if length data < off + 4 then Inl ErrInvalidBatch
      else let kLen = unat (get_le (gslice off (off + 4) data) :: u32); off = off + 4 in
      if length data < off + kLen then Inl ErrInvalidBatch
      else let key = gslice off (off + kLen) data; off = off + kLen in
      if length data < off + 4 then Inl ErrInvalidBatch
      else let vLen = unat (get_le (gslice off (off + 4) data) :: u32); off = off + 4 in
      if length data < off + vLen then Inl ErrInvalidBatch
      else let val = (if 0 < vLen then Some (gslice off (off + vLen) data) else None);
               off = off + vLen in
      case decode_entries n off data of
        Inl e \<Rightarrow> Inl e
      | Inr es \<Rightarrow> Inr (\<lparr>Op = op, Key = key, Value = val\<rparr> # es))"

definition DecodeBatch :: "bytes \<Rightarrow> wal_error + Batch" where
  "DecodeBatch data =
     (if length data < 4 then Inl ErrInvalidBatch
      else decode_entries (unat (get_le (gslice 0 4 data) :: u32)) 4 data)"

section \<open>What survives an encoding\<close>

text \<open>
  A batch fits when its counts and lengths are below \<open>2 ^ 32\<close>, the range of the length fields.
  \<open>norm_entry\<close> is the identification the format makes: an empty value becomes nil.
\<close>

definition entry_fits :: "BatchEntry \<Rightarrow> bool" where
  "entry_fits e \<longleftrightarrow> length (Key e) < 2 ^ 32 \<and> length (nil_bytes (Value e)) < 2 ^ 32"

definition batch_fits :: "Batch \<Rightarrow> bool" where
  "batch_fits b \<longleftrightarrow> length b < 2 ^ 32 \<and> list_all entry_fits b"

definition norm_entry :: "BatchEntry \<Rightarrow> BatchEntry" where
  "norm_entry e = (if Value e = Some [] then e\<lparr>Value := None\<rparr> else e)"

lemma nil_bytes_simps [simp]: "nil_bytes None = []" "nil_bytes (Some bs) = bs"
  by (simp_all add: nil_bytes_def)

lemma encode_norm_entry [simp]: "encode_entry (norm_entry e) = encode_entry e"
  by (simp add: encode_entry_def norm_entry_def)

lemma batch_Encode_norm: "batch_Encode (map norm_entry b) = batch_Encode b"
  by (simp add: batch_Encode_def comp_def)

lemma decode_entries_encode:
  assumes "list_all entry_fits b" "off \<le> length data"
    and "drop off data = concat (map encode_entry b) @ rest"
  shows "decode_entries (length b) off data = Inr (map norm_entry b)"
  using assms
proof (induction b arbitrary: off)
  case Nil
  then show ?case by simp
next
  case (Cons e b)
  let ?k = "Key e" and ?v = "nil_bytes (Value e)"
  let ?tail = "concat (map encode_entry b) @ rest"
  have fits: "length ?k < 2 ^ 32" "length ?v < 2 ^ 32" and b: "list_all entry_fits b"
    using Cons.prems(1) by (simp_all add: entry_fits_def [of e])
  have d0: "drop off data = [Op e] @ put_le 4 (of_nat (length ?k) :: u32) @ ?k @
      put_le 4 (of_nat (length ?v) :: u32) @ ?v @ ?tail"
    using Cons.prems(3) by (simp add: encode_entry_def [of e])
  note f1 = field_at [OF d0 Cons.prems(2), of 1, simplified]
  note f2 = field_at [OF f1(2) f1(3) length_put_le]
  note f3 = field_at [OF f2(2,3) refl]
  note f4 = field_at [OF f3(2,3) length_put_le]
  note f5 = field_at [OF f4(2,3) refl]
  have op: "data ! off = Op e"
    using nth_via_drop [of off data "Op e"] d0 by simp
  have IH: "decode_entries (length b) (Suc off + 4 + length ?k + 4 + length ?v) data =
      Inr (map norm_entry b)"
    by (rule Cons.IH [OF b f5(3,2)])
  have ent: "?v \<noteq> [] \<Longrightarrow> \<lparr>Op = Op e, Key = ?k, Value = Some ?v\<rparr> = norm_entry e"
    "?v = [] \<Longrightarrow> \<lparr>Op = Op e, Key = ?k, Value = None\<rparr> = norm_entry e"
    by (cases "Value e"; simp add: norm_entry_def)+
  then show ?case
    using f1(3) f2(1,3) f3(1,3) f4(1,3) f5(1,3) fits op IH
    by (simp add: Let_def not_less)
qed

lemma decode_encoded:
  assumes "batch_fits b"
  shows "DecodeBatch (batch_Encode b @ rest) = Inr (map norm_entry b)"
proof -
  let ?data = "batch_Encode b @ rest"
  have cnt: "gslice 0 4 ?data = put_le 4 (of_nat (length b) :: u32)"
    by (simp add: batch_Encode_def)
  have tail: "drop 4 ?data = concat (map encode_entry b) @ rest"
    by (simp add: batch_Encode_def)
  have len: "4 \<le> length ?data" by (simp add: batch_Encode_def)
  have "decode_entries (length b) 4 ?data = Inr (map norm_entry b)"
    using assms len tail by (intro decode_entries_encode) (auto simp: batch_fits_def)
  with assms cnt len show ?thesis by (simp add: DecodeBatch_def batch_fits_def not_less)
qed

text \<open>
  C28. Decoding an encoded batch gives the batch back, in order and whole, except that an empty
  value comes back as nil.  (The engine stores nil as a tombstone, so a batch that puts an empty
  value is replayed as a deletion.)
\<close>

theorem DecodeBatch_Encode:
  assumes "batch_fits b"
  shows "DecodeBatch (batch_Encode b @ rest) = Inr (map norm_entry b)"
  using assms by (rule decode_encoded)

theorem DecodeBatch_Encode_witness:
  "batch_fits [\<lparr>Op = OpPut, Key = [1], Value = Some [2, 3]\<rparr>] \<and>
   DecodeBatch (batch_Encode [\<lparr>Op = OpPut, Key = [1], Value = Some [2, 3]\<rparr>] @ []) =
     Inr [\<lparr>Op = OpPut, Key = [1], Value = Some [2, 3]\<rparr>]"
proof -
  let ?b = "[\<lparr>Op = OpPut, Key = [1], Value = Some [2, 3]\<rparr>]"
  have h: "batch_fits ?b" by (simp add: batch_fits_def entry_fits_def)
  show ?thesis using h DecodeBatch_Encode [OF h, of "[]"] by (simp add: norm_entry_def)
qed

section \<open>What a decoded batch looks like\<close>

lemma encode_entry_of_fields:
  assumes "off + 1 \<le> length data" "off + 1 + 4 \<le> length data"
    and k: "kLen = unat (get_le (gslice (off + 1) (off + 1 + 4) data) :: u32)"
    and "off + 1 + 4 + kLen \<le> length data" "off + 1 + 4 + kLen + 4 \<le> length data"
    and v: "vLen = unat (get_le (gslice (off + 1 + 4 + kLen) (off + 1 + 4 + kLen + 4) data) :: u32)"
    and "off + 1 + 4 + kLen + 4 + vLen \<le> length data"
    and e: "e = \<lparr>Op = data ! off, Key = gslice (off + 1 + 4) (off + 1 + 4 + kLen) data,
      Value = (if 0 < vLen then Some (gslice (off + 1 + 4 + kLen + 4) (off + 1 + 4 + kLen + 4 + vLen) data)
               else None)\<rparr>"
  shows "drop off data = encode_entry e @ drop (off + 1 + 4 + kLen + 4 + vLen) data"
    and "entry_fits e" and "norm_entry e = e"
proof -
  have put4: "put_le 4 (get_le x :: u32) = x" if "length x = 4" for x
    using put_le_get_le [of x, where 'a = 32] that by simp
  have kl: "length (Key e) = kLen" using assms by (simp add: e)
  have vl: "length (nil_bytes (Value e)) = vLen" using assms by (simp add: e)
  have fk: "put_le 4 (of_nat kLen :: u32) = gslice (off + 1) (off + 1 + 4) data"
    using field_split(2) [of "off + 1" 4 data] assms(2) by (simp add: k put4)
  have fv: "put_le 4 (of_nat vLen :: u32) = gslice (off + 1 + 4 + kLen) (off + 1 + 4 + kLen + 4) data"
    using field_split(2) [of "off + 1 + 4 + kLen" 4 data] assms(5) by (simp add: v put4)
  have vb: "nil_bytes (Value e) = gslice (off + 1 + 4 + kLen + 4) (off + 1 + 4 + kLen + 4 + vLen) data"
    by (simp add: e gslice_def)
  have "drop off data = [data ! off] @ drop (off + 1) data"
    using assms(1) by (simp add: Cons_nth_drop_Suc)
  also have "drop (off + 1) data = gslice (off + 1) (off + 1 + 4) data @ drop (off + 1 + 4) data"
    using assms(2) by (rule field_split)
  also have "drop (off + 1 + 4) data = Key e @ drop (off + 1 + 4 + kLen) data"
    using field_split(1) [OF assms(4)] by (simp add: e)
  also have "drop (off + 1 + 4 + kLen) data =
      gslice (off + 1 + 4 + kLen) (off + 1 + 4 + kLen + 4) data @ drop (off + 1 + 4 + kLen + 4) data"
    using assms(5) by (rule field_split)
  also have "drop (off + 1 + 4 + kLen + 4) data =
      nil_bytes (Value e) @ drop (off + 1 + 4 + kLen + 4 + vLen) data"
    unfolding vb using assms(7) by (rule field_split)
  finally show "drop off data = encode_entry e @ drop (off + 1 + 4 + kLen + 4 + vLen) data"
    unfolding encode_entry_def [of e] kl vl fk fv by (simp add: e)
  have "kLen < 2 ^ 32" "vLen < 2 ^ 32"
    unfolding k v by (rule unat_u32_less)+
  with kl vl show "entry_fits e" by (simp add: entry_fits_def)
  show "norm_entry e = e" using vl by (auto simp: norm_entry_def e)
qed

lemma decode_entries_sound:
  "decode_entries n off data = Inr es \<Longrightarrow>
     length es = n \<and> list_all entry_fits es \<and> map norm_entry es = es \<and>
     (\<exists>rest. drop off data = concat (map encode_entry es) @ rest)"
proof (induction n arbitrary: off es)
  case 0
  then show ?case by simp
next
  case (Suc n)
  define kLen where "kLen = unat (get_le (gslice (off + 1) (off + 1 + 4) data) :: u32)"
  define vLen where "vLen = unat (get_le (gslice (off + 1 + 4 + kLen) (off + 1 + 4 + kLen + 4) data) :: u32)"
  define e where "e = \<lparr>Op = data ! off, Key = gslice (off + 1 + 4) (off + 1 + 4 + kLen) data,
      Value = (if 0 < vLen then Some (gslice (off + 1 + 4 + kLen + 4) (off + 1 + 4 + kLen + 4 + vLen) data)
               else None)\<rparr>"
  from Suc.prems obtain es' where es: "es = e # es'"
    and rec: "decode_entries n (off + 1 + 4 + kLen + 4 + vLen) data = Inr es'"
    and le: "off + 1 \<le> length data" "off + 1 + 4 \<le> length data" "off + 1 + 4 + kLen \<le> length data"
      "off + 1 + 4 + kLen + 4 \<le> length data" "off + 1 + 4 + kLen + 4 + vLen \<le> length data"
    unfolding decode_entries.simps Let_def kLen_def [symmetric] vLen_def [symmetric] e_def [symmetric]
    by (auto simp: not_less split: if_splits sum.splits)
  note f = encode_entry_of_fields [OF le(1,2) kLen_def le(3,4) vLen_def le(5) e_def]
  from Suc.IH [OF rec] f show ?case by (auto simp: es)
qed

lemma DecodeBatch_sound:
  assumes "DecodeBatch data = Inr b"
  shows "batch_fits b" "map norm_entry b = b" "\<exists>rest. data = batch_Encode b @ rest"
proof -
  let ?n = "unat (get_le (gslice 0 4 data) :: u32)"
  from assms have len: "4 \<le> length data" and dec: "decode_entries ?n 4 data = Inr b"
    by (auto simp: DecodeBatch_def split: if_splits)
  note s = decode_entries_sound [OF dec]
  have "?n < 2 ^ 32" by (rule unat_u32_less)
  with s show "batch_fits b" "map norm_entry b = b" by (auto simp: batch_fits_def)
  from s obtain rest where "drop 4 data = concat (map encode_entry b) @ rest" by blast
  moreover have "data = gslice 0 4 data @ drop 4 data" by simp
  moreover have "put_le 4 (of_nat (length b) :: u32) = gslice 0 4 data"
    using s len put_le_get_le [of "gslice 0 4 data", where 'a = 32] by simp
  ultimately have "data = batch_Encode b @ rest" by (simp add: batch_Encode_def)
  then show "\<exists>rest. data = batch_Encode b @ rest" ..
qed

text \<open>A batch that was once decoded survives any further encoding unchanged.\<close>

lemma DecodeBatch_stable:
  "DecodeBatch data = Inr b \<Longrightarrow> DecodeBatch (batch_Encode b) = Inr b"
  using DecodeBatch_sound(1,2) [of data b] decode_encoded [of b "[]"] by simp

end
