(* ===== verification/Crc.thy ===== *)
theory Crc
  imports Prelude
begin

unbundle bit_operations_syntax

text \<open>
  The Castagnoli CRC-32 of \<^verbatim>\<open>hash/crc32\<close>, as the log uses it
  (\<^verbatim>\<open>castagnoliTable\<close> in \<^verbatim>\<open>src/internal/wal/writer.go\<close>): a table of 256 entries made by
  eight shift steps each, and a byte-at-a-time update with complement on entry and exit.
  The lemmas show that the table step is eight shift steps of the xor-ed register, that a step is
  injective, and so that changing one byte of the input always changes the checksum.
\<close>

definition castagnoli :: u32 where
  "castagnoli = 0x82f63b78"

definition crc_shift :: "u32 \<Rightarrow> u32" where
  "crc_shift c = (if bit c 0 then drop_bit 1 c XOR castagnoli else drop_bit 1 c)"

definition castagnoliTable :: "byte \<Rightarrow> u32" where
  "castagnoliTable i = (crc_shift ^^ 8) (ucast i)"

fun crc_loop :: "u32 \<Rightarrow> bytes \<Rightarrow> u32" where
  "crc_loop crc [] = crc"
| "crc_loop crc (v # vs) = crc_loop (castagnoliTable (ucast crc XOR v) XOR drop_bit 8 crc) vs"

definition crc_Update :: "u32 \<Rightarrow> bytes \<Rightarrow> u32" where
  "crc_Update crc p = NOT (crc_loop (NOT crc) p)"

section \<open>One changed byte changes the checksum\<close>

lemma xor_cancel_right: "a XOR c = b XOR c \<longleftrightarrow> a = (b :: 'a::len word)"
  by (metis xor.assoc xor.right_neutral xor_self_eq)

lemma xor_cancel_left: "c XOR a = c XOR b \<longleftrightarrow> a = (b :: 'a::len word)"
  by (metis xor.commute xor_cancel_right)

lemma crc_shift_xor: "crc_shift (a XOR b) = crc_shift a XOR crc_shift b"
  by (rule bit_eqI) (auto simp: crc_shift_def bit_simps)

lemma crc_shifts_xor: "(crc_shift ^^ n) (a XOR b) = (crc_shift ^^ n) a XOR (crc_shift ^^ n) b"
  by (induction n) (simp_all add: crc_shift_xor)

lemma crc_shifts_low_zero:
  "(\<forall>i < n. \<not> bit x i) \<Longrightarrow> (crc_shift ^^ n) x = drop_bit n x"
proof (induction n)
  case 0
  then show ?case by simp
next
  case (Suc n)
  then have "(crc_shift ^^ n) x = drop_bit n x" and "\<not> bit x n" by simp_all
  then have "(crc_shift ^^ Suc n) x = crc_shift (drop_bit n x)" by simp
  also have "\<dots> = drop_bit (Suc n) x"
    using \<open>\<not> bit x n\<close> by (simp add: crc_shift_def bit_drop_bit_eq)
  finally show ?case .
qed

lemma crc_shift_inj: "crc_shift a = crc_shift b \<Longrightarrow> a = b"
proof -
  assume eq: "crc_shift a = crc_shift b"
  have top: "bit (crc_shift c) 31 \<longleftrightarrow> bit c 0" for c
    by (auto simp: crc_shift_def castagnoli_def bit_simps dest: bit_imp_le_length)
  from eq top have low: "bit a 0 \<longleftrightarrow> bit b 0" by metis
  have "drop_bit 1 a = drop_bit 1 b"
    using eq low by (simp add: crc_shift_def xor_cancel_right split: if_splits)
  then have hi: "bit a (Suc n) \<longleftrightarrow> bit b (Suc n)" for n
    by (metis bit_drop_bit_eq comp_apply plus_1_eq_Suc)
  show "a = b"
  proof (rule bit_eqI)
    fix n show "bit a n \<longleftrightarrow> bit b n" using low hi by (cases n) auto
  qed
qed

lemma crc_shifts_inj: "(crc_shift ^^ n) a = (crc_shift ^^ n) b \<Longrightarrow> a = b"
  by (induction n) (auto dest: crc_shift_inj)

lemma table_step:
  "castagnoliTable (ucast c XOR v) XOR drop_bit 8 c = (crc_shift ^^ 8) (c XOR ucast v)"
proof -
  have "c XOR ucast v = ucast (ucast c XOR v) XOR push_bit 8 (drop_bit 8 c)"
    by (rule bit_eqI) (auto simp: bit_simps)
  moreover have "(crc_shift ^^ 8) (push_bit 8 (drop_bit 8 c)) = drop_bit 8 (push_bit 8 (drop_bit 8 c))"
    by (rule crc_shifts_low_zero) (simp add: bit_push_bit_iff)
  moreover have "drop_bit 8 (push_bit 8 (drop_bit 8 c)) = drop_bit 8 c"
    by (rule bit_eqI) (auto simp: bit_simps dest: bit_imp_le_length)
  ultimately show ?thesis by (simp add: crc_shifts_xor castagnoliTable_def)
qed

lemma crc_loop_inj: "crc_loop a vs = crc_loop b vs \<Longrightarrow> a = b"
proof (induction vs arbitrary: a b)
  case Nil
  then show ?case by simp
next
  case (Cons v vs)
  then have "(crc_shift ^^ 8) (a XOR ucast v) = (crc_shift ^^ 8) (b XOR ucast v)"
    by (simp only: crc_loop.simps table_step)
  then show ?case by (auto dest: crc_shifts_inj simp: xor_cancel_right)
qed

lemma crc_loop_append: "crc_loop c (xs @ ys) = crc_loop (crc_loop c xs) ys"
  by (induction xs arbitrary: c) auto

lemma ucast_byte_u32_inj:
  assumes "(ucast (x :: byte) :: u32) = ucast y" shows "x = y"
proof (rule bit_eqI)
  fix n assume "possible_bit TYPE(byte) n"
  moreover from assms have "bit (ucast x :: u32) n \<longleftrightarrow> bit (ucast y :: u32) n" by simp
  ultimately show "bit x n \<longleftrightarrow> bit y n" by (simp add: bit_simps)
qed

lemma crc_Update_byte:
  assumes "crc_Update c (xs @ x # ys) = crc_Update c (xs @ y # ys)"
  shows "x = y"
proof -
  let ?c = "crc_loop (NOT c) xs"
  from assms have "crc_loop ?c (x # ys) = crc_loop ?c (y # ys)"
    by (simp add: crc_Update_def crc_loop_append del: crc_loop.simps)
  then have "(crc_shift ^^ 8) (?c XOR ucast x) = (crc_shift ^^ 8) (?c XOR ucast y)"
    by (simp only: crc_loop.simps table_step) (rule crc_loop_inj)
  then have "?c XOR ucast x = ?c XOR ucast y" by (rule crc_shifts_inj)
  then show ?thesis by (simp add: xor_cancel_left ucast_byte_u32_inj)
qed

lemma crc_Update_append: "crc_Update (crc_Update c xs) ys = crc_Update c (xs @ ys)"
  by (simp add: crc_Update_def crc_loop_append)

end
