(* ===== verification/WalLog.thy ===== *)
theory WalLog
  imports WalBatch Crc
begin

text \<open>
  The write-ahead log (\<^verbatim>\<open>src/internal/wal/format.go\<close>, \<^verbatim>\<open>writer.go\<close>, \<^verbatim>\<open>reader.go\<close>):
  logical records cut into checksummed physical records inside 32 KB blocks.

  \<^item> A \<open>wal_writer\<close> is the Go \<^verbatim>\<open>Writer\<close>: \<open>w_buf\<close> is \<^verbatim>\<open>blockBuf[:blockUsed]\<close>, the only part
    of the buffer that is ever written out.
  \<^item> A \<open>wal_reader\<close> is the Go \<^verbatim>\<open>Reader\<close>: \<open>r_block\<close> is \<^verbatim>\<open>blockBuf[:blockUsed]\<close>, \<open>r_rest\<close>
    the part of the file not yet read.
  \<^item> The lock of the writer is not modelled: each operation runs under it from start to end.
\<close>

definition BlockSize :: nat where "BlockSize = 32 * 1024"
definition HeaderSize :: nat where "HeaderSize = 7"

definition RecordFull :: byte where "RecordFull = 1"
definition RecordFirst :: byte where "RecordFirst = 2"
definition RecordMiddle :: byte where "RecordMiddle = 3"
definition RecordLast :: byte where "RecordLast = 4"

section \<open>Writer\<close>

record wal_writer =
  w_file :: osfile
  w_buf :: bytes
  w_closed :: bool

definition NewWriter :: "osfile \<Rightarrow> wal_writer" where
  "NewWriter f = \<lparr>w_file = f, w_buf = [], w_closed = False\<rparr>"

definition record_crc :: "byte \<Rightarrow> bytes \<Rightarrow> u32" where
  "record_crc typ payload = crc_Update (crc_Update 0 [typ]) payload"

definition phys_record :: "byte \<Rightarrow> bytes \<Rightarrow> bytes" where
  "phys_record typ payload =
     put_le 4 (record_crc typ payload) @ put_le 2 (of_nat (length payload) :: u16) @ [typ] @ payload"

definition emitPhysicalRecord :: "wal_writer \<Rightarrow> byte \<Rightarrow> bytes \<Rightarrow> wal_writer" where
  "emitPhysicalRecord w typ payload = w\<lparr>w_buf := w_buf w @ phys_record typ payload\<rparr>"

definition flushBlock :: "wal_writer \<Rightarrow> wal_error option \<times> wal_writer" where
  "flushBlock w =
     (if w_buf w = [] then (None, w)
      else case file_write (w_file w) (w_buf w) of
             (True, f) \<Rightarrow> (None, w\<lparr>w_file := f, w_buf := []\<rparr>)
           | (False, f) \<Rightarrow> (Some ErrIO, w\<lparr>w_file := f\<rparr>))"

definition record_type :: "bool \<Rightarrow> bool \<Rightarrow> byte" where
  "record_type first whole =
     (if first \<and> whole then RecordFull
      else if first then RecordFirst
      else if whole then RecordLast
      else RecordMiddle)"

text \<open>
  The start of one turn of the loop of \<^verbatim>\<open>Append\<close>: a block with no room for a header is padded
  with zeros and flushed.
\<close>

definition make_room :: "wal_writer \<Rightarrow> wal_error option \<times> wal_writer" where
  "make_room w =
     (let rem = BlockSize - length (w_buf w)
      in if rem < HeaderSize
         then flushBlock (w\<lparr>w_buf := w_buf w @ replicate rem 0\<rparr>)
         else (None, w))"

lemma make_room_buf:
  "make_room w = (None, w') \<Longrightarrow>
     w_buf w' = (if BlockSize - length (w_buf w) < HeaderSize then [] else w_buf w)"
  by (auto simp: make_room_def flushBlock_def Let_def split: if_splits prod.splits bool.splits)

lemma length_phys_record [simp, length_simps]: "length (phys_record t p) = HeaderSize + length p"
  by (simp add: phys_record_def HeaderSize_def)

function append_loop :: "wal_writer \<Rightarrow> bytes \<Rightarrow> bool \<Rightarrow> wal_error option \<times> wal_writer" where
  "append_loop w record first =
     (case make_room w of
        (Some e, w1) \<Rightarrow> (Some e, w1)
      | (None, w1) \<Rightarrow>
          let avail = BlockSize - length (w_buf w1) - HeaderSize;
              left = length record;
              frag = (if avail < left then avail else left);
              w2 = emitPhysicalRecord w1 (record_type first (frag = left)) (take frag record)
          in if left \<le> frag then (None, w2)
             else append_loop w2 (drop frag record) False)"
  by pat_completeness auto
termination
proof (relation "measures [\<lambda>(w, r, f). length r, \<lambda>(w, r, f). BlockSize - length (w_buf w)]",
    goal_cases)
  case 1
  then show ?case by simp
next
  case (2 w rec fst1 x w1)
  then have buf: "w_buf w1 = (if BlockSize - length (w_buf w) < HeaderSize then [] else w_buf w)"
    by (metis make_room_buf)
  have "HeaderSize < BlockSize" "0 < HeaderSize" by (simp_all add: BlockSize_def HeaderSize_def)
  with 2 buf show ?case
    by (auto simp: emitPhysicalRecord_def split: if_splits)
qed

declare append_loop.simps [simp del]

definition wal_Append :: "wal_writer \<Rightarrow> bytes \<Rightarrow> wal_error option \<times> wal_writer" where
  "wal_Append w record =
     (if w_closed w then (Some ErrClosed, w) else append_loop w record True)"

definition wal_Sync :: "wal_writer \<Rightarrow> wal_error option \<times> wal_writer" where
  "wal_Sync w =
     (if w_closed w then (Some ErrClosed, w)
      else case flushBlock w of
             (Some e, w1) \<Rightarrow> (Some e, w1)
           | (None, w1) \<Rightarrow>
               (case file_sync (w_file w1) of
                  (ok, f) \<Rightarrow> (if ok then None else Some ErrIO, w1\<lparr>w_file := f\<rparr>)))"

definition wal_Close :: "wal_writer \<Rightarrow> wal_error option \<times> wal_writer" where
  "wal_Close w =
     (if w_closed w then (None, w)
      else case flushBlock (w\<lparr>w_closed := True\<rparr>) of
             (Some e, w1) \<Rightarrow> (Some e, w1\<lparr>w_file := snd (file_close (w_file w1))\<rparr>)
           | (None, w1) \<Rightarrow>
               (case file_close (w_file w1) of
                  (ok, f) \<Rightarrow> (if ok then None else Some ErrIO, w1\<lparr>w_file := f\<rparr>)))"

section \<open>Reader\<close>

record wal_reader =
  r_rest :: bytes
  r_block :: bytes
  r_off :: nat
  r_eof :: bool

definition NewReader :: "bytes \<Rightarrow> wal_reader" where
  "NewReader file = \<lparr>r_rest = file, r_block = [], r_off = 0, r_eof = False\<rparr>"

text \<open>
  \<^verbatim>\<open>readBlock\<close> over \<^verbatim>\<open>io.ReadFull\<close>: the first component is false when the file is exhausted
  (\<^verbatim>\<open>io.EOF\<close>); a partial block sets \<open>r_eof\<close>.
\<close>

definition readBlock :: "wal_reader \<Rightarrow> bool \<times> wal_reader" where
  "readBlock r =
     (if r_rest r = [] then (False, r\<lparr>r_eof := True\<rparr>)
      else if length (r_rest r) < BlockSize
      then (True, r\<lparr>r_eof := True, r_block := r_rest r, r_off := 0, r_rest := []\<rparr>)
      else (True, r\<lparr>r_block := take BlockSize (r_rest r), r_off := 0,
                    r_rest := drop BlockSize (r_rest r)\<rparr>))"

function read_loop :: "wal_reader \<Rightarrow> bytes \<Rightarrow> bool \<Rightarrow> (wal_error + bytes) \<times> wal_reader" where
  "read_loop r record inFragmentedRecord =
     (if length (r_block r) < r_off r + HeaderSize then
        (if \<not> r_eof r then
           (case readBlock r of
              (False, r1) \<Rightarrow> (Inl (if inFragmentedRecord then ErrShortRecord else EOF), r1)
            | (True, r1) \<Rightarrow> read_loop r1 record inFragmentedRecord)
         else (Inl (if inFragmentedRecord then ErrShortRecord else EOF), r))
      else
        let off = r_off r; block = r_block r;
            crcExpected = (get_le (gslice off (off + 4) block) :: u32);
            len = unat (get_le (gslice (off + 4) (off + 6) block) :: u16);
            typ = block ! (off + 6)
        in
        if len = 0 \<and> typ = 0
        then read_loop (r\<lparr>r_off := length block\<rparr>) record inFragmentedRecord
        else if length block < off + HeaderSize + len then (Inl ErrShortRecord, r)
        else
        let payload = gslice (off + HeaderSize) (off + HeaderSize + len) block in
        if crcExpected \<noteq> record_crc typ payload then (Inl ErrCorruptRecord, r)
        else
        let r1 = r\<lparr>r_off := off + HeaderSize + len\<rparr> in
        if \<not> inFragmentedRecord then
          (if typ = RecordFirst \<or> typ = RecordFull then
             (if typ = RecordFull then (Inr (record @ payload), r1)
              else read_loop r1 (record @ payload) True)
           else (Inl ErrCorruptRecord, r1))
        else
          (if typ = RecordMiddle \<or> typ = RecordLast then
             (if typ = RecordLast then (Inr (record @ payload), r1)
              else read_loop r1 (record @ payload) True)
           else (Inl ErrCorruptRecord, r1)))"
  by pat_completeness auto
termination
proof (relation "measures [\<lambda>(r, _). 2 * length (r_rest r) + (if r_eof r then 0 else 1),
    \<lambda>(r, _). length (r_block r) - r_off r]", goal_cases)
  case 1
  then show ?case by simp
qed (auto simp: readBlock_def HeaderSize_def BlockSize_def split: if_splits)

declare read_loop.simps [simp del]

definition ReadRecord :: "wal_reader \<Rightarrow> (wal_error + bytes) \<times> wal_reader" where
  "ReadRecord r = read_loop r [] False"

text \<open>
  Every successful read consumes at least a header, so a loop over \<open>ReadRecord\<close> ends.
  \<open>read_all\<close> is such a loop: the records up to the first error, and that error.
\<close>

definition r_left :: "wal_reader \<Rightarrow> nat" where
  "r_left r = length (r_rest r) + (length (r_block r) - r_off r)"

lemma readBlock_left: "readBlock r = (b, r') \<Longrightarrow> r_left r' \<le> r_left r"
  by (auto simp: readBlock_def r_left_def split: if_splits)

lemma read_loop_progress: "read_loop r acc fr = (Inr x, r') \<Longrightarrow> r_left r' < r_left r"
proof (induction r acc fr rule: read_loop.induct)
  case (1 r acc fr)
  let ?off = "r_off r" and ?b = "r_block r"
  let ?len = "unat (get_le (gslice (?off + 4) (?off + 6) ?b) :: u16)"
  let ?ty = "?b ! (?off + 6)"
  let ?pl = "gslice (?off + HeaderSize) (?off + HeaderSize + ?len) ?b"
  let ?r1 = "r\<lparr>r_off := ?off + HeaderSize + ?len\<rparr>"
  have h: "0 < HeaderSize" by (simp add: HeaderSize_def)
  show ?case
  proof (cases "length ?b < ?off + HeaderSize")
    case True
    then obtain r1 where ne: "\<not> r_eof r" and rb: "readBlock r = (True, r1)"
      and rec: "read_loop r1 acc fr = (Inr x, r')"
      using "1.prems" by (subst (asm) read_loop.simps) (auto split: if_splits prod.splits bool.splits)
    from "1.IH"(1) [OF True ne rb [symmetric] refl rec] readBlock_left [OF rb] show ?thesis
      by linarith
  next
    case False
    note big = False
    show ?thesis
    proof (cases "?len = 0 \<and> ?ty = 0")
      case True
      then have rec: "read_loop (r\<lparr>r_off := length ?b\<rparr>) acc fr = (Inr x, r')"
        using "1.prems" big by (subst (asm) read_loop.simps) (simp add: Let_def)
      have "r_left r' < r_left (r\<lparr>r_off := length ?b\<rparr>)"
        using "1.IH"(2) [OF big refl refl refl refl refl] True rec by simp
      then show ?thesis by (simp add: r_left_def)
    next
      case False
      then have fit: "?off + HeaderSize + ?len \<le> length ?b"
        and crc: "(get_le (gslice ?off (?off + 4) ?b) :: u32) = record_crc ?ty ?pl"
        and res: "r' = ?r1 \<or> read_loop ?r1 (acc @ ?pl) True = (Inr x, r') \<and>
          (if fr then ?ty = RecordMiddle else ?ty = RecordFirst)"
        using "1.prems" big
        by (subst (asm) read_loop.simps; simp add: Let_def not_less split: if_splits)+
      have less: "r_left ?r1 < r_left r" using fit h by (simp add: r_left_def)
      from res consider "r' = ?r1"
        | "\<not> fr" "?ty = RecordFirst" "read_loop ?r1 (acc @ ?pl) True = (Inr x, r')"
        | "fr" "?ty = RecordMiddle" "read_loop ?r1 (acc @ ?pl) True = (Inr x, r')"
        by (auto split: if_splits)
      then have "r_left r' \<le> r_left ?r1"
      proof cases
        case 2
        with "1.IH"(3) [OF big refl refl refl refl refl] False fit crc show ?thesis
          by (auto simp: RecordFirst_def RecordFull_def intro: less_imp_le)
      next
        case 3
        with "1.IH"(4) [OF big refl refl refl refl refl] False fit crc show ?thesis
          by (auto simp: RecordMiddle_def RecordLast_def intro: less_imp_le)
      qed simp
      with less show ?thesis by linarith
    qed
  qed
qed

function read_all :: "wal_reader \<Rightarrow> bytes list \<times> wal_error" where
  "read_all r =
     (case ReadRecord r of
        (Inl e, r1) \<Rightarrow> ([], e)
      | (Inr rec, r1) \<Rightarrow> (case read_all r1 of (rs, e) \<Rightarrow> (rec # rs, e)))"
  by pat_completeness auto
termination
  by (relation "measure r_left") (auto simp: ReadRecord_def dest: read_loop_progress [OF sym])

declare read_all.simps [simp del]

fun append_all :: "wal_writer \<Rightarrow> bytes list \<Rightarrow> wal_error option \<times> wal_writer" where
  "append_all w [] = (None, w)"
| "append_all w (r # rs) =
     (case wal_Append w r of
        (Some e, w1) \<Rightarrow> (Some e, w1)
      | (None, w1) \<Rightarrow> append_all w1 rs)"

text \<open>The file left by a writer that appends \<open>rs\<close> to an empty log and closes it.\<close>

definition log_file :: "bytes list \<Rightarrow> bytes" where
  "log_file rs =
     f_data (w_file (snd (wal_Close (snd (append_all (NewWriter (good_file [])) rs)))))"

text \<open>A client of the writer: appends and syncs in any order, stopping at the first error.\<close>

datatype wal_op = WAppend bytes | WSync

fun wal_run :: "wal_writer \<Rightarrow> wal_op list \<Rightarrow> wal_error option \<times> wal_writer" where
  "wal_run w [] = (None, w)"
| "wal_run w (op # ops) =
     (case (case op of WAppend r \<Rightarrow> wal_Append w r | WSync \<Rightarrow> wal_Sync w) of
        (Some e, w1) \<Rightarrow> (Some e, w1)
      | (None, w1) \<Rightarrow> wal_run w1 ops)"

fun appended :: "wal_op list \<Rightarrow> bytes list" where
  "appended [] = []"
| "appended (WAppend r # ops) = r # appended ops"
| "appended (WSync # ops) = appended ops"

end
