(* ===== verification/WalCorrect.thy ===== *)
theory WalCorrect
  imports WalLog
begin

text \<open>
  Correctness of the log format.  \<open>lay p first rec\<close> is the reference layout: the bytes a logical
  record occupies when its first byte falls at offset \<open>p\<close> of a block, and the offset after it.
  The writer produces exactly this layout (\<open>append_loop_lay\<close>), the reader inverts it on every
  prefix of the file (\<open>read_loop_lay\<close>, \<open>read_loop_torn\<close>).
\<close>

lemma phys_record_neq_Nil [simp]: "phys_record t p \<noteq> []"
  by (simp add: phys_record_def)

lemma block_const [simp]: "HeaderSize < BlockSize" "0 < HeaderSize" "0 < BlockSize" "BlockSize \<noteq> 0"
  by (simp_all add: HeaderSize_def BlockSize_def)

function lay :: "nat \<Rightarrow> bool \<Rightarrow> bytes \<Rightarrow> bytes \<times> nat" where
  "lay p first rec =
     (let pad = (if BlockSize - p < HeaderSize then replicate (BlockSize - p) 0 else []);
          p1 = (if BlockSize - p < HeaderSize then 0 else p);
          avail = BlockSize - p1 - HeaderSize
      in if length rec \<le> avail
         then (pad @ phys_record (record_type first True) rec, p1 + HeaderSize + length rec)
         else case lay (p1 + HeaderSize + avail) False (drop avail rec) of
                (bs, q) \<Rightarrow> (pad @ phys_record (record_type first False) (take avail rec) @ bs, q))"
  by pat_completeness auto
termination
  by (relation "measures [\<lambda>(p, f, r). length r, \<lambda>(p, f, r). BlockSize - p]")
    (auto simp: HeaderSize_def BlockSize_def)

declare lay.simps [simp del]

fun lays :: "nat \<Rightarrow> bytes list \<Rightarrow> bytes" where
  "lays p [] = []"
| "lays p (r # rs) = fst (lay p True r) @ lays (snd (lay p True r)) rs"

text \<open>What a writer has produced so far: the file and the block buffer.\<close>

definition w_stream :: "wal_writer \<Rightarrow> bytes" where
  "w_stream w = f_data (w_file w) @ w_buf w"

text \<open>A writer that has not failed: no fault is scripted and the buffer is within its block.\<close>

definition w_ok :: "wal_writer \<Rightarrow> bool" where
  "w_ok w \<longleftrightarrow> f_script (w_file w) = [] \<and> length (w_buf w) \<le> BlockSize \<and> \<not> w_closed w"

definition w_aligned :: "wal_writer \<Rightarrow> bool" where
  "w_aligned w \<longleftrightarrow> BlockSize dvd length (f_data (w_file w))"

section \<open>The writer produces the layout\<close>

lemma make_room_ok:
  assumes "w_ok w"
  shows "\<exists>w1. make_room w = (None, w1) \<and> w_ok w1 \<and> (w_aligned w \<longrightarrow> w_aligned w1) \<and>
    w_stream w1 = w_stream w @ (if BlockSize - length (w_buf w) < HeaderSize
                                then replicate (BlockSize - length (w_buf w)) 0 else []) \<and>
    length (w_buf w1) = (if BlockSize - length (w_buf w) < HeaderSize then 0 else length (w_buf w))"
proof (cases "BlockSize - length (w_buf w) < HeaderSize")
  case True
  have ne: "w_buf w @ replicate (BlockSize - length (w_buf w)) 0 \<noteq> []"
    using True by (cases "w_buf w") (auto simp: not_less_iff_gr_or_eq)
  have len: "length (w_buf w @ replicate (BlockSize - length (w_buf w)) 0) = BlockSize"
    using assms by (simp add: w_ok_def)
  show ?thesis
    using True assms ne len
    by (auto simp: make_room_def flushBlock_def w_ok_def w_stream_def w_aligned_def Let_def)
next
  case False
  with assms show ?thesis by (simp add: make_room_def w_ok_def Let_def)
qed

lemma append_loop_lay:
  assumes "w_ok w"
  shows "\<exists>w'. append_loop w rec first = (None, w') \<and> w_ok w' \<and>
    (w_aligned w \<longrightarrow> w_aligned w') \<and>
    w_stream w' = w_stream w @ fst (lay (length (w_buf w)) first rec) \<and>
    length (w_buf w') = snd (lay (length (w_buf w)) first rec)"
  using assms
proof (induction w rec first rule: append_loop.induct)
  case (1 w rec first)
  let ?p = "length (w_buf w)"
  let ?small = "BlockSize - ?p < HeaderSize"
  obtain w1 where w1: "make_room w = (None, w1)" "w_ok w1" "w_aligned w \<longrightarrow> w_aligned w1"
    and st: "w_stream w1 = w_stream w @ (if ?small then replicate (BlockSize - ?p) 0 else [])"
    and len: "length (w_buf w1) = (if ?small then 0 else ?p)"
    using make_room_ok [OF "1.prems"] by blast
  let ?avail = "BlockSize - length (w_buf w1) - HeaderSize"
  have room: "length (w_buf w1) + HeaderSize \<le> BlockSize"
    using len by (auto simp: HeaderSize_def BlockSize_def split: if_splits)
  show ?case
  proof (cases "length rec \<le> ?avail")
    case True
    with room have "length (w_buf w1) + (HeaderSize + length rec) \<le> BlockSize" by linarith
    with True show ?thesis
      using w1 st len
      by (subst append_loop.simps, subst (1 2) lay.simps)
        (auto simp: Let_def emitPhysicalRecord_def w_ok_def w_stream_def w_aligned_def)
  next
    case False
    let ?w2 = "emitPhysicalRecord w1 (record_type first False) (take ?avail rec)"
    have al2: "w_aligned ?w2 = w_aligned w1"
      by (simp add: emitPhysicalRecord_def w_aligned_def)
    have len2: "length (w_buf ?w2) = length (w_buf w1) + HeaderSize + ?avail"
      using False by (simp add: emitPhysicalRecord_def)
    then have "length (w_buf ?w2) \<le> BlockSize" using room by linarith
    then have ok2: "w_ok ?w2" using w1(2) by (simp add: w_ok_def emitPhysicalRecord_def)
    have st2: "w_stream ?w2 = w_stream w1 @ phys_record (record_type first False) (take ?avail rec)"
      by (simp add: emitPhysicalRecord_def w_stream_def)
    have step: "append_loop w rec first = append_loop ?w2 (drop ?avail rec) False"
      using w1(1) False by (subst append_loop.simps) (simp add: Let_def)
    have lay: "lay ?p first rec =
        (case lay (length (w_buf ?w2)) False (drop ?avail rec) of
           (bs, q) \<Rightarrow> ((if ?small then replicate (BlockSize - ?p) 0 else []) @
                    phys_record (record_type first False) (take ?avail rec) @ bs, q))"
      using False len len2 by (subst lay.simps) (simp add: Let_def)
    obtain w' where "append_loop ?w2 (drop ?avail rec) False = (None, w')" "w_ok w'"
      "w_aligned ?w2 \<longrightarrow> w_aligned w'"
      "w_stream w' = w_stream ?w2 @ fst (lay (length (w_buf ?w2)) False (drop ?avail rec))"
      "length (w_buf w') = snd (lay (length (w_buf ?w2)) False (drop ?avail rec))"
      using "1.IH" [OF w1(1) [symmetric] refl refl refl refl refl] False ok2 by force
    then show ?thesis
      using step lay st2 st al2 w1(3) by (auto split: prod.splits)
  qed
qed

section \<open>The reader inverts the layout\<close>

text \<open>
  \<open>r_at F k p r\<close>: the reader \<open>r\<close> of the file \<open>F\<close> has loaded block \<open>k\<close> and stands at offset \<open>p\<close>
  of it.  \<open>end_error\<close> is what it returns when the bytes run out.
\<close>

definition r_at :: "bytes \<Rightarrow> nat \<Rightarrow> nat \<Rightarrow> wal_reader \<Rightarrow> bool" where
  "r_at F k p r \<longleftrightarrow>
     r_off r = p \<and> r_block r = take BlockSize (drop (k * BlockSize) F) \<and>
     r_rest r = drop (Suc k * BlockSize) F \<and> r_eof r = (length F < Suc k * BlockSize) \<and>
     p \<le> length (r_block r) \<and> k * BlockSize \<le> length F"

definition end_error :: "bool \<Rightarrow> wal_error" where
  "end_error inFrag = (if inFrag then ErrShortRecord else EOF)"

lemma r_at_le: "r_at F k p r \<Longrightarrow> p \<le> BlockSize"
  by (auto simp: r_at_def)

lemma r_at_off: "r_at F k p r \<Longrightarrow> r_off r \<le> length (r_block r)"
  unfolding r_at_def by blast

lemma r_at_pos_le: "r_at F k p r \<Longrightarrow> k * BlockSize + p \<le> length F"
  by (auto simp: r_at_def)

lemma record_type_neq_0 [simp]: "record_type first whole \<noteq> 0"
  by (simp add: record_type_def RecordFull_def RecordFirst_def RecordMiddle_def RecordLast_def)

lemma r_at_block: "r_at F k p r \<Longrightarrow> drop p (r_block r) = take (BlockSize - p) (drop (k * BlockSize + p) F)"
  by (simp add: r_at_def drop_take add.commute)

lemma read_end:
  "length (r_block r) < r_off r + HeaderSize \<Longrightarrow> r_eof r \<Longrightarrow>
     read_loop r acc fr = (Inl (end_error fr), r)"
  by (subst read_loop.simps) (simp add: end_error_def)

lemma read_next_block:
  assumes "r_at F k p r" "BlockSize - p < HeaderSize" "Suc k * BlockSize \<le> length F"
  shows "if length F = Suc k * BlockSize
     then \<exists>r'. read_loop r acc fr = (Inl (end_error fr), r')
     else \<exists>r'. read_loop r acc fr = read_loop r' acc fr \<and> r_at F (Suc k) 0 r'"
proof -
  have small: "length (r_block r) < r_off r + HeaderSize" and ne: "\<not> r_eof r"
    using assms by (auto simp: r_at_def)
  show ?thesis
  proof (cases "length F = Suc k * BlockSize")
    case True
    then have "readBlock r = (False, r\<lparr>r_eof := True\<rparr>)"
      using assms(1) by (simp add: readBlock_def r_at_def)
    with True small ne show ?thesis
      by (subst read_loop.simps) (auto simp: end_error_def)
  next
    case False
    define r' where "r' = snd (readBlock r)"
    have rb: "readBlock r = (True, r')"
      using assms False by (auto simp: r'_def readBlock_def r_at_def)
    have at: "r_at F (Suc k) 0 r'"
      using assms False ne by (auto simp: r'_def readBlock_def r_at_def add.commute not_less)
    have "read_loop r acc fr = read_loop r' acc fr"
      using small ne rb by (subst read_loop.simps) simp
    with at False show ?thesis by auto
  qed
qed

lemma read_phys:
  assumes at: "r_at F k p r" and fit: "p + HeaderSize + length pl \<le> BlockSize"
    and F: "drop (k * BlockSize + p) F = phys_record typ pl @ T"
    and ty: "typ = record_type first whole"
  shows "\<exists>r1. r_at F k (p + HeaderSize + length pl) r1 \<and>
    read_loop r acc (\<not> first) =
      (if whole then (Inr (acc @ pl), r1) else read_loop r1 (acc @ pl) True)"
proof -
  let ?b = "r_block r" and ?r1 = "r\<lparr>r_off := p + HeaderSize + length pl\<rparr>"
  let ?T = "take (BlockSize - p - HeaderSize - length pl) T"
  have p: "r_off r = p" "p \<le> length ?b" using at by (auto simp: r_at_def)
  have "take (BlockSize - p) (phys_record typ pl @ T) = phys_record typ pl @ ?T"
    using fit by (simp add: add.assoc)
  then have d0: "drop p ?b = put_le 4 (record_crc typ pl) @
      put_le 2 (of_nat (length pl) :: u16) @ [typ] @ pl @ ?T"
    by (simp add: r_at_block [OF at] F) (simp add: phys_record_def)
  note f1 = field_at [OF d0 p(2) length_put_le]
  note f2 = field_at [OF f1(2,3) length_put_le]
  note f3 = field_at [OF f2(2,3), of 1, simplified]
  note f4 = field_at [OF f3(2,3) refl]
  have t: "?b ! (p + 6) = typ"
    using nth_via_drop [of "p + 4 + 2" ?b "typ"] f2(2) by (simp add: add.commute)
  have small: "length pl < 2 ^ 16" using fit by (simp add: BlockSize_def HeaderSize_def)
  have le: "p + HeaderSize + length pl \<le> length ?b"
    using f4(3) by (simp add: HeaderSize_def add.commute)
  have len: "unat (get_le (gslice (p + 4) (p + 6) ?b) :: u16) = length pl"
    using f2(1) small by (simp add: add.commute)
  have crc: "(get_le (gslice p (p + 4) ?b) :: u32) = record_crc typ pl"
    using f1(1) by simp
  have pay: "gslice (p + HeaderSize) (p + HeaderSize + length pl) ?b = pl"
    using f4(1) by (simp add: HeaderSize_def add.commute)
  have "r_at F k (p + HeaderSize + length pl) ?r1"
    using at le by (simp add: r_at_def)
  moreover have "read_loop r acc (\<not> first) =
      (if whole then (Inr (acc @ pl), ?r1) else read_loop ?r1 (acc @ pl) True)"
    using le t len crc pay p(1) ty
    by (subst read_loop.simps)
      (simp add: Let_def record_type_def RecordFull_def RecordFirst_def RecordMiddle_def RecordLast_def)
  ultimately show ?thesis by blast
qed

definition pad_of :: "nat \<Rightarrow> bytes" where
  "pad_of p = (if BlockSize - p < HeaderSize then replicate (BlockSize - p) 0 else [])"

definition skip_of :: "nat \<Rightarrow> nat" where
  "skip_of p = (if BlockSize - p < HeaderSize then 0 else p)"

lemma skip_of_room: "skip_of p + HeaderSize \<le> BlockSize"
  by (auto simp: skip_of_def HeaderSize_def BlockSize_def)

lemma lay_unfold:
  "lay p first rec =
     (let p1 = skip_of p; avail = BlockSize - p1 - HeaderSize
      in if length rec \<le> avail
         then (pad_of p @ phys_record (record_type first True) rec, p1 + HeaderSize + length rec)
         else case lay BlockSize False (drop avail rec) of
                (bs, q) \<Rightarrow> (pad_of p @ phys_record (record_type first False) (take avail rec) @ bs, q))"
proof -
  have "skip_of p + HeaderSize + (BlockSize - skip_of p - HeaderSize) = BlockSize"
    using skip_of_room [of p] by linarith
  then show ?thesis
    by (subst lay.simps) (simp add: pad_of_def [symmetric] skip_of_def [symmetric] Let_def)
qed

lemma read_pad:
  assumes at: "r_at F k p r" and F: "drop (k * BlockSize + p) F = pad_of p @ S" and S: "S \<noteq> []"
  shows "\<exists>k1 r1. r_at F k1 (skip_of p) r1 \<and> read_loop r acc fr = read_loop r1 acc fr \<and>
    k1 * BlockSize + skip_of p = k * BlockSize + p + length (pad_of p) \<and>
    drop (k1 * BlockSize + skip_of p) F = S"
proof (cases "BlockSize - p < HeaderSize")
  case True
  have "length F - (k * BlockSize + p) = BlockSize - p + length S"
    using arg_cong [OF F, of length] True by (simp add: pad_of_def)
  with S r_at_le [OF at] have "Suc k * BlockSize < length F"
    by (cases S) auto
  with read_next_block [OF at True] obtain r1 where
    "read_loop r acc fr = read_loop r1 acc fr" "r_at F (Suc k) 0 r1"
    by fastforce
  moreover have "drop (BlockSize - p) (drop (k * BlockSize + p) F) = S"
    using True by (simp add: F pad_of_def)
  then have "drop (Suc k * BlockSize) F = S"
    using r_at_le [OF at] by (simp add: add.commute)
  ultimately show ?thesis
    using True r_at_le [OF at] by (intro exI [of _ "Suc k"]) (auto simp: skip_of_def pad_of_def)
next
  case False
  with at F show ?thesis by (auto simp: skip_of_def pad_of_def)
qed

lemma read_loop_lay:
  assumes "r_at F k p r" "drop (k * BlockSize + p) F = fst (lay p first rec) @ T"
  shows "\<exists>k' r'. read_loop r acc (\<not> first) = (Inr (acc @ rec), r') \<and>
    r_at F k' (snd (lay p first rec)) r' \<and>
    k' * BlockSize + snd (lay p first rec) = k * BlockSize + p + length (fst (lay p first rec))"
  using assms
proof (induction p first rec arbitrary: k r acc rule: lay.induct)
  case (1 p first rec)
  let ?avail = "BlockSize - skip_of p - HeaderSize"
  let ?whole = "length rec \<le> ?avail"
  let ?pl = "take ?avail rec"
  let ?ty = "record_type first ?whole"
  define S where "S = (if ?whole then [] else fst (lay BlockSize False (drop ?avail rec)))"
  have S: "fst (lay p first rec) = pad_of p @ phys_record ?ty ?pl @ S"
    by (subst lay_unfold) (simp add: Let_def S_def split: prod.splits)
  have snd: "snd (lay p first rec) =
      (if ?whole then skip_of p + HeaderSize + length rec else snd (lay BlockSize False (drop ?avail rec)))"
    by (subst lay_unfold) (simp add: Let_def split: prod.splits)
  have ne: "phys_record ?ty ?pl @ S @ T \<noteq> []" by (simp add: phys_record_def)
  have Fp: "drop (k * BlockSize + p) F = pad_of p @ phys_record ?ty ?pl @ S @ T"
    using "1.prems"(2) S by simp
  obtain k1 r1 where r1: "r_at F k1 (skip_of p) r1" "read_loop r acc (\<not> first) = read_loop r1 acc (\<not> first)"
    "k1 * BlockSize + skip_of p = k * BlockSize + p + length (pad_of p)"
    "drop (k1 * BlockSize + skip_of p) F = phys_record ?ty ?pl @ S @ T"
    using read_pad [OF "1.prems"(1) Fp ne] by blast
  have fit: "skip_of p + HeaderSize + length ?pl \<le> BlockSize"
    using skip_of_room [of p] by simp
  obtain r2 where r2: "r_at F k1 (skip_of p + HeaderSize + length ?pl) r2"
    "read_loop r1 acc (\<not> first) =
       (if ?whole then (Inr (acc @ ?pl), r2) else read_loop r2 (acc @ ?pl) True)"
    using read_phys [OF r1(1) fit r1(4) refl] by blast
  show ?case
  proof (cases ?whole)
    case True
    then have "read_loop r acc (\<not> first) = (Inr (acc @ rec), r2)" and "?pl = rec"
      using r1(2) r2(2) by simp_all
    moreover have "length (fst (lay p first rec)) = length (pad_of p) + HeaderSize + length rec"
      using True by (simp add: S S_def)
    ultimately show ?thesis
      using True r2(1) r1(3) snd by (intro exI [of _ k1] exI [of _ r2]) simp
  next
    case False
    have eqB: "skip_of p + HeaderSize + length ?pl = BlockSize"
      using False skip_of_room [of p] by simp
    have at2: "r_at F k1 BlockSize r2" using r2(1) eqB by simp
    have pos: "HeaderSize + length ?pl + (k1 * BlockSize + skip_of p) = k1 * BlockSize + BlockSize"
      using eqB by linarith
    have "drop (HeaderSize + length ?pl) (drop (k1 * BlockSize + skip_of p) F) = S @ T"
      unfolding r1(4) by simp
    then have F2: "drop (k1 * BlockSize + BlockSize) F = S @ T"
      by (simp only: drop_drop pos)
    let ?l = "lay BlockSize False (drop ?avail rec)"
    have IH: "\<exists>k' r'. read_loop r acc True = (Inr (acc @ drop ?avail rec), r') \<and> r_at F k' (snd ?l) r' \<and>
        k' * BlockSize + snd ?l = k * BlockSize + BlockSize + length (fst ?l)"
      if "r_at F k BlockSize r" "drop (k * BlockSize + BlockSize) F = fst ?l @ T" for k r acc
      using "1.IH" [OF refl refl refl] that False eqB by (simp add: skip_of_def [symmetric])
    have Sl: "S = fst ?l" and sl: "snd (lay p first rec) = snd ?l"
      using False snd by (simp_all add: S_def)
    obtain k' r' where k': "read_loop r2 (acc @ ?pl) True = (Inr ((acc @ ?pl) @ drop ?avail rec), r')"
      "r_at F k' (snd ?l) r'" "k' * BlockSize + snd ?l = k1 * BlockSize + BlockSize + length (fst ?l)"
      using IH [OF at2 F2 [unfolded Sl], of "acc @ ?pl"] by blast
    have "read_loop r acc (\<not> first) = (Inr (acc @ rec), r')"
      using r1(2) r2(2) k'(1) False by simp
    moreover have "k' * BlockSize + snd ?l = k * BlockSize + p + length (fst (lay p first rec))"
    proof -
      have "length (fst (lay p first rec)) = length (pad_of p) + (HeaderSize + length ?pl) + length (fst ?l)"
        by (simp add: S Sl)
      then show ?thesis using k'(3) r1(3) eqB by linarith
    qed
    ultimately show ?thesis using k'(2) sl by auto
  qed
qed

section \<open>Torn files\<close>

lemma read_torn_header:
  assumes at: "r_at F k p r" and short: "length F < k * BlockSize + p + HeaderSize"
    and block: "p + HeaderSize \<le> BlockSize"
  shows "read_loop r acc fr = (Inl (end_error fr), r)"
proof (rule read_end)
  show "length (r_block r) < r_off r + HeaderSize"
    using at short by (auto simp: r_at_def)
  show "r_eof r" using at short block by (auto simp: r_at_def)
qed

text \<open>A header whose payload does not fit in the loaded block is a short record.\<close>

lemma read_block_torn:
  assumes p: "r_off r \<le> length (r_block r)"
    and b: "drop (r_off r) (r_block r) = take m (phys_record typ pl)"
    and m: "HeaderSize \<le> m" "m < HeaderSize + length pl"
    and small: "length pl < 2 ^ 16" and ty: "typ \<noteq> 0"
  shows "read_loop r acc fr = (Inl ErrShortRecord, r)"
proof -
  let ?b = "r_block r" and ?p = "r_off r"
  have "take m (phys_record typ pl) = put_le 4 (record_crc typ pl) @
      put_le 2 (of_nat (length pl) :: u16) @ typ # take (m - HeaderSize) pl"
  proof -
    have "m - 6 = Suc (m - HeaderSize)" "4 \<le> m" "6 \<le> m"
      using m(1) by (simp_all add: HeaderSize_def)
    then show ?thesis by (simp add: phys_record_def)
  qed
  with b have d0: "drop ?p ?b = put_le 4 (record_crc typ pl) @
      put_le 2 (of_nat (length pl) :: u16) @ typ # take (m - HeaderSize) pl" by simp
  note f1 = field_at [OF d0 p length_put_le]
  note f2 = field_at [OF f1(2,3) length_put_le]
  have t: "?b ! (?p + 6) = typ"
    using nth_via_drop [of "?p + 4 + 2" ?b "typ"] f2(2) by (simp add: add.commute)
  have lb: "length ?b = ?p + m"
    using arg_cong [OF d0, of length] p m by (simp add: HeaderSize_def)
  have len: "unat (get_le (gslice (?p + 4) (?p + 6) ?b) :: u16) = length pl"
    using f2(1) small by (simp add: add.commute)
  show ?thesis
    using lb m t len ty by (subst read_loop.simps) (simp add: Let_def)
qed

lemma read_torn_payload:
  assumes at: "r_at F k p r" and fit: "p + HeaderSize + length pl \<le> BlockSize"
    and F: "drop (k * BlockSize + p) F = take m (phys_record typ pl)"
    and m: "HeaderSize \<le> m" "m < HeaderSize + length pl" and ty: "typ \<noteq> 0"
  shows "read_loop r acc fr = (Inl ErrShortRecord, r)"
proof (rule read_block_torn [OF _ _ m _ ty])
  show "r_off r \<le> length (r_block r)" by (rule r_at_off [OF at])
  show "drop (r_off r) (r_block r) = take m (phys_record typ pl)"
    using at fit m r_at_block [OF at] F by (simp add: r_at_def)
  show "length pl < 2 ^ 16" using fit by (simp add: BlockSize_def HeaderSize_def)
qed

lemma read_torn_pad:
  assumes at: "r_at F k p r" and F: "drop (k * BlockSize + p) F = take m (pad_of p)"
    and small: "BlockSize - p < HeaderSize"
  shows "\<exists>r'. read_loop r acc fr = (Inl (end_error fr), r')"
proof (cases "Suc k * BlockSize \<le> length F")
  case True
  have "length F - (k * BlockSize + p) \<le> BlockSize - p"
    using arg_cong [OF F, of length] small by (simp add: pad_of_def)
  with True r_at_le [OF at] have "length F = Suc k * BlockSize" by auto
  with read_next_block [OF at small True, of acc fr] show ?thesis by simp
next
  case False
  then have "read_loop r acc fr = (Inl (end_error fr), r)"
    using at small by (intro read_end) (auto simp: r_at_def)
  then show ?thesis by blast
qed

lemma read_loop_torn:
  assumes "r_at F k p r" "drop (k * BlockSize + p) F = take m (fst (lay p first rec))"
    and "m < length (fst (lay p first rec))"
  shows "\<exists>e r'. read_loop r acc (\<not> first) = (Inl e, r') \<and> e \<in> {EOF, ErrShortRecord}"
  using assms
proof (induction p first rec arbitrary: k r acc m rule: lay.induct)
  case (1 p first rec)
  let ?avail = "BlockSize - skip_of p - HeaderSize"
  let ?whole = "length rec \<le> ?avail"
  let ?pl = "take ?avail rec"
  let ?ty = "record_type first ?whole"
  define S where "S = (if ?whole then [] else fst (lay BlockSize False (drop ?avail rec)))"
  have S: "fst (lay p first rec) = pad_of p @ phys_record ?ty ?pl @ S"
    by (subst lay_unfold) (simp add: Let_def S_def split: prod.splits)
  have err: "end_error fr \<in> {EOF, ErrShortRecord}" for fr by (simp add: end_error_def)
  have fit: "skip_of p + HeaderSize + length ?pl \<le> BlockSize"
    using skip_of_room [of p] by simp
  show ?case
  proof (cases "BlockSize - p < HeaderSize \<and> m \<le> length (pad_of p)")
    case True
    then have "drop (k * BlockSize + p) F = take m (pad_of p)" using "1.prems"(2) S by simp
    with read_torn_pad [OF "1.prems"(1)] True err show ?thesis by blast
  next
    case notpad: False
    let ?m = "m - length (pad_of p)"
    have mm: "length (pad_of p) \<le> m" using notpad by (auto simp: pad_of_def)
    have Fm: "drop (k * BlockSize + p) F = pad_of p @ take ?m (phys_record ?ty ?pl @ S)"
      using "1.prems"(2) S mm by simp
    obtain k1 r1 where r1: "r_at F k1 (skip_of p) r1"
      "read_loop r acc (\<not> first) = read_loop r1 acc (\<not> first)"
      "drop (k1 * BlockSize + skip_of p) F = take ?m (phys_record ?ty ?pl @ S)"
    proof (cases "BlockSize - p < HeaderSize")
      case True
      with notpad have "take ?m (phys_record ?ty ?pl @ S) \<noteq> []" by simp
      from read_pad [OF "1.prems"(1) Fm this] that show ?thesis by blast
    next
      case False
      then show ?thesis using that [of k r] "1.prems"(1) Fm by (simp add: skip_of_def pad_of_def)
    qed
    have mlt: "?m < HeaderSize + length ?pl + length S"
      using "1.prems"(3) S mm by simp
    have lenF: "length F = k1 * BlockSize + skip_of p + ?m"
    proof -
      have "length F - (k1 * BlockSize + skip_of p) = min (HeaderSize + length ?pl + length S) ?m"
        using arg_cong [OF r1(3), of length]
        by (simp only: length_drop length_take length_append length_phys_record)
      then show ?thesis using r_at_pos_le [OF r1(1)] mlt by linarith
    qed
    consider "?m < HeaderSize" | "HeaderSize \<le> ?m" "?m < HeaderSize + length ?pl"
      | "HeaderSize + length ?pl \<le> ?m" by linarith
    then show ?thesis
    proof cases
      case 1
      have "read_loop r1 acc (\<not> first) = (Inl (end_error (\<not> first)), r1)"
        using lenF 1 skip_of_room [of p] by (intro read_torn_header [OF r1(1)]) simp_all
      with r1(2) err show ?thesis by auto
    next
      case 2
      then have "drop (k1 * BlockSize + skip_of p) F = take ?m (phys_record ?ty ?pl)"
        by (simp add: r1(3))
      from read_torn_payload [OF r1(1) fit this 2 record_type_neq_0] r1(2) show ?thesis by auto
    next
      case 3
      then have F3: "drop (k1 * BlockSize + skip_of p) F =
          phys_record ?ty ?pl @ take (?m - HeaderSize - length ?pl) S"
        by (simp add: r1(3) add.assoc)
      have notwhole: "\<not> ?whole" using 3 mlt by (auto simp: S_def)
      obtain r2 where r2: "r_at F k1 (skip_of p + HeaderSize + length ?pl) r2"
        "read_loop r1 acc (\<not> first) = read_loop r2 (acc @ ?pl) True"
        using read_phys [OF r1(1) fit F3 refl, of acc] notwhole by auto
      have eqB: "skip_of p + HeaderSize + length ?pl = BlockSize"
        using notwhole skip_of_room [of p] by simp
      let ?l = "lay BlockSize False (drop ?avail rec)" and ?m2 = "?m - HeaderSize - length ?pl"
      have pos: "HeaderSize + length ?pl + (k1 * BlockSize + skip_of p) = k1 * BlockSize + BlockSize"
        using eqB by linarith
      have "drop (HeaderSize + length ?pl) (drop (k1 * BlockSize + skip_of p) F) = take ?m2 S"
        unfolding F3 by simp
      then have F2: "drop (k1 * BlockSize + BlockSize) F = take ?m2 (fst ?l)"
        using notwhole by (simp only: drop_drop pos S_def if_False)
      have m2: "?m2 < length (fst ?l)" using 3 mlt notwhole by (simp add: S_def)
      have IH: "\<exists>e r'. read_loop r acc True = (Inl e, r') \<and> e \<in> {EOF, ErrShortRecord}"
        if "r_at F k BlockSize r" "drop (k * BlockSize + BlockSize) F = take m (fst ?l)"
          "m < length (fst ?l)" for k r acc m
        using "1.IH" [OF refl refl refl] that notwhole eqB by (simp add: skip_of_def [symmetric])
      from IH [OF r2(1) [unfolded eqB] F2 m2] r1(2) r2(2) show ?thesis by simp
    qed
  qed
qed

section \<open>A whole log\<close>

lemma lay_neq_Nil [simp]: "fst (lay p first rec) \<noteq> []"
  by (subst lay_unfold) (simp add: Let_def split: prod.splits)

lemma append_all_lays:
  "w_ok w \<Longrightarrow> \<exists>w'. append_all w rs = (None, w') \<and> w_ok w' \<and>
     w_stream w' = w_stream w @ lays (length (w_buf w)) rs"
proof (induction rs arbitrary: w)
  case Nil
  then show ?case by simp
next
  case (Cons r rs)
  obtain w1 where w1: "append_loop w r True = (None, w1)" "w_ok w1"
    "w_stream w1 = w_stream w @ fst (lay (length (w_buf w)) True r)"
    "length (w_buf w1) = snd (lay (length (w_buf w)) True r)"
    using append_loop_lay [OF Cons.prems, of r True] by blast
  obtain w' where "append_all w1 rs = (None, w')" "w_ok w'"
    "w_stream w' = w_stream w1 @ lays (length (w_buf w1)) rs"
    using Cons.IH [OF w1(2)] by blast
  then show ?case using w1 Cons.prems by (simp add: wal_Append_def w_ok_def)
qed

lemma wal_Close_ok:
  "w_ok w \<Longrightarrow> fst (wal_Close w) = None \<and> f_data (w_file (snd (wal_Close w))) = w_stream w"
  by (auto simp: wal_Close_def flushBlock_def w_ok_def w_stream_def)

lemma log_file_lays: "log_file rs = lays 0 rs"
proof -
  have ok: "w_ok (NewWriter (good_file []))" by (simp add: w_ok_def NewWriter_def)
  obtain w' where "append_all (NewWriter (good_file [])) rs = (None, w')" "w_ok w'"
    "w_stream w' = w_stream (NewWriter (good_file [])) @ lays 0 rs"
    using append_all_lays [OF ok, of rs] by (auto simp: NewWriter_def)
  then show ?thesis
    using wal_Close_ok [of w'] by (simp add: log_file_def w_stream_def NewWriter_def)
qed

lemma read_at_end:
  assumes at: "r_at F k p r" and "length F = k * BlockSize + p"
  shows "\<exists>r'. ReadRecord r = (Inl EOF, r')"
proof (cases "BlockSize - p < HeaderSize")
  case True
  have "drop (k * BlockSize + p) F = take 0 (pad_of p)" using assms(2) by simp
  from read_torn_pad [OF at this True, of "[]" False] show ?thesis
    by (simp add: ReadRecord_def end_error_def)
next
  case False
  then have "p + HeaderSize \<le> BlockSize" by (simp add: HeaderSize_def BlockSize_def)
  from read_torn_header [OF at _ this, of "[]" False] assms(2) show ?thesis
    by (simp add: ReadRecord_def end_error_def)
qed

lemma read_all_lays:
  assumes "r_at F k p r" "drop (k * BlockSize + p) F = take m (lays p rs)"
  shows "\<exists>j e. read_all r = (take j rs, e) \<and> e \<in> {EOF, ErrShortRecord} \<and> j \<le> length rs \<and>
    (\<forall>i \<le> length rs. length (lays p (take i rs)) \<le> m \<longrightarrow> i \<le> j) \<and>
    (length (lays p rs) \<le> m \<longrightarrow> e = EOF)"
  using assms
proof (induction rs arbitrary: p k r m)
  case Nil
  then have "length F = k * BlockSize + p" using r_at_pos_le [of F k p r] by simp
  from read_at_end [OF Nil.prems(1) this] show ?case
    by (subst read_all.simps) auto
next
  case (Cons rec rs)
  let ?l = "lay p True rec"
  show ?case
  proof (cases "length (fst ?l) \<le> m")
    case True
    let ?m = "m - length (fst ?l)"
    have F: "drop (k * BlockSize + p) F = fst ?l @ take ?m (lays (snd ?l) rs)"
      using Cons.prems(2) True by simp
    obtain k' r' where r': "read_loop r [] (\<not> True) = (Inr ([] @ rec), r')" "r_at F k' (snd ?l) r'"
      "k' * BlockSize + snd ?l = k * BlockSize + p + length (fst ?l)"
      using read_loop_lay [OF Cons.prems(1) F, of "[]"] by blast
    have "drop (length (fst ?l)) (drop (k * BlockSize + p) F) = take ?m (lays (snd ?l) rs)"
      unfolding F by simp
    then have F': "drop (k' * BlockSize + snd ?l) F = take ?m (lays (snd ?l) rs)"
      by (simp only: drop_drop r'(3) add.commute)
    obtain j e where j: "read_all r' = (take j rs, e)" "e \<in> {EOF, ErrShortRecord}" "j \<le> length rs"
      "\<And>i. i \<le> length rs \<Longrightarrow> length (lays (snd ?l) (take i rs)) \<le> ?m \<Longrightarrow> i \<le> j"
      "length (lays (snd ?l) rs) \<le> ?m \<Longrightarrow> e = EOF"
      using Cons.IH [OF r'(2) F'] by blast
    have all: "read_all r = (rec # take j rs, e)"
      using r'(1) j(1) by (subst read_all.simps) (simp add: ReadRecord_def)
    have "i \<le> Suc j" if "i \<le> length (rec # rs)" "length (lays p (take i (rec # rs))) \<le> m" for i
    proof (cases i)
      case (Suc i')
      with that j(4) [of i'] show ?thesis by simp
    qed simp
    with all j show ?thesis by (intro exI [of _ "Suc j"] exI [of _ e]) auto
  next
    case False
    then have "drop (k * BlockSize + p) F = take m (fst ?l)" using Cons.prems(2) by simp
    from read_loop_torn [OF Cons.prems(1) this] False obtain e r' where
      e: "read_loop r [] False = (Inl e, r')" "e \<in> {EOF, ErrShortRecord}" by force
    have all: "read_all r = ([], e)"
      using e(1) by (subst read_all.simps) (simp add: ReadRecord_def)
    have "i = 0" if "length (lays p (take i (rec # rs))) \<le> m" for i
      using that False by (cases i) auto
    with all e(2) False show ?thesis by (intro exI [of _ 0] exI [of _ e]) auto
  qed
qed

lemma read_new:
  assumes "F \<noteq> []"
  obtains r where "r_at F 0 0 r" "read_all (NewReader F) = read_all r"
proof -
  define r where "r = snd (readBlock (NewReader F))"
  have "readBlock (NewReader F) = (True, r)" using assms by (auto simp: r_def readBlock_def NewReader_def)
  moreover have at: "r_at F 0 0 r"
    using assms by (auto simp: r_def readBlock_def NewReader_def r_at_def)
  ultimately have "ReadRecord (NewReader F) = ReadRecord r"
    unfolding ReadRecord_def by (subst read_loop.simps) (simp add: NewReader_def)
  then have "read_all (NewReader F) = read_all r"
    by (subst (1 2) read_all.simps) simp
  with at that show ?thesis by blast
qed

lemma read_new_empty: "read_all (NewReader []) = ([], EOF)"
  by (subst read_all.simps, unfold ReadRecord_def, subst read_loop.simps)
    (simp add: NewReader_def readBlock_def)

lemma read_log_prefix:
  "\<exists>j e. read_all (NewReader (take n (log_file rs))) = (take j rs, e) \<and> j \<le> length rs \<and>
     e \<in> {EOF, ErrShortRecord} \<and>
     (\<forall>i \<le> length rs. length (log_file (take i rs)) \<le> n \<longrightarrow> i \<le> j) \<and>
     (length (log_file rs) \<le> n \<longrightarrow> j = length rs \<and> e = EOF)"
proof -
  let ?F = "take n (log_file rs)"
  have "\<exists>j e. read_all (NewReader ?F) = (take j rs, e) \<and> e \<in> {EOF, ErrShortRecord} \<and> j \<le> length rs \<and>
    (\<forall>i \<le> length rs. length (lays 0 (take i rs)) \<le> n \<longrightarrow> i \<le> j) \<and>
    (length (lays 0 rs) \<le> n \<longrightarrow> e = EOF)"
  proof (cases "?F = []")
    case True
    have ne: "lays 0 (take i rs) = [] \<longleftrightarrow> i = 0 \<or> rs = []" for i
      by (cases i; cases rs) auto
    from True have z: "n = 0 \<or> rs = []" using ne [of "length rs"] by (auto simp: log_file_lays)
    then have "i = 0" if "i \<le> length rs" "length (lays 0 (take i rs)) \<le> n" for i
      using that ne [of i] by auto
    with True show ?thesis
      by (intro exI [of _ 0] exI [of _ EOF]) (auto simp: read_new_empty)
  next
    case False
    then obtain r where r: "r_at ?F 0 0 r" "read_all (NewReader ?F) = read_all r"
      by (rule read_new)
    have "drop (0 * BlockSize + 0) ?F = take n (lays 0 rs)" by (simp add: log_file_lays)
    from read_all_lays [OF r(1) this] r(2) show ?thesis by simp
  qed
  then obtain j e where "read_all (NewReader ?F) = (take j rs, e)" "e \<in> {EOF, ErrShortRecord}"
    "j \<le> length rs" "\<forall>i \<le> length rs. length (lays 0 (take i rs)) \<le> n \<longrightarrow> i \<le> j"
    "length (lays 0 rs) \<le> n \<longrightarrow> e = EOF" by blast
  moreover from this(3,4) have "length (lays 0 rs) \<le> n \<longrightarrow> j = length rs"
    by (metis order.antisym order.refl take_all)
  ultimately show ?thesis unfolding log_file_lays by blast
qed



section \<open>Logs with syncs\<close>

text \<open>
  \<^verbatim>\<open>Sync\<close> writes the partial block out and restarts the buffer at offset 0, while the reader
  keeps cutting the file at multiples of the block size.  The two agree as long as the file is
  within its first block.
\<close>

abbreviation full_record :: "bytes \<Rightarrow> bytes" where
  "full_record \<equiv> phys_record RecordFull"

lemma record_type_full [simp]: "record_type True True = RecordFull"
  by (simp add: record_type_def)

lemma lay_full: "p + HeaderSize + length rec \<le> BlockSize \<Longrightarrow> lay p True rec = (full_record rec, p + HeaderSize + length rec)"
  by (subst lay_unfold) (auto simp: Let_def skip_of_def pad_of_def HeaderSize_def BlockSize_def)

lemma lays_full:
  "p + length (concat (map full_record rs)) \<le> BlockSize \<Longrightarrow> lays p rs = concat (map full_record rs)"
  by (induction rs arbitrary: p) (simp_all add: lay_full)

lemma append_full:
  assumes "w_ok w" "length (w_buf w) + HeaderSize + length r \<le> BlockSize"
  shows "\<exists>w'. wal_Append w r = (None, w') \<and> w_ok w' \<and> w_stream w' = w_stream w @ full_record r"
  using append_loop_lay [OF assms(1), of r True] assms lay_full [OF assms(2)]
  by (auto simp: wal_Append_def w_ok_def)

lemma sync_ok:
  "w_ok w \<Longrightarrow> \<exists>w'. wal_Sync w = (None, w') \<and> w_ok w' \<and> w_stream w' = w_stream w \<and> w_buf w' = []"
  by (auto simp: wal_Sync_def flushBlock_def w_ok_def w_stream_def)

lemma wal_run_small:
  assumes "w_ok w" "length (w_stream w) + length (concat (map full_record (appended ops))) \<le> BlockSize"
  shows "\<exists>w'. wal_run w ops = (None, w') \<and> w_ok w' \<and>
    w_stream w' = w_stream w @ concat (map full_record (appended ops))"
  using assms
proof (induction ops arbitrary: w rule: appended.induct)
  case 1
  then show ?case by simp
next
  case (2 r ops)
  have "length (w_buf w) + HeaderSize + length r \<le> BlockSize"
    using "2.prems"(2) by (simp add: w_stream_def)
  from append_full [OF "2.prems"(1) this] obtain w1 where
    w1: "wal_Append w r = (None, w1)" "w_ok w1" "w_stream w1 = w_stream w @ full_record r" by blast
  from "2.IH" [OF w1(2)] "2.prems"(2) w1 show ?case by auto
next
  case (3 ops)
  from sync_ok [OF "3.prems"(1)] obtain w1 where
    w1: "wal_Sync w = (None, w1)" "w_ok w1" "w_stream w1 = w_stream w" by blast
  from "3.IH" [OF w1(2)] "3.prems"(2) w1 show ?case by auto
qed

text \<open>
  While the log is at most one block long, appends and syncs may be interleaved in any order:
  every operation succeeds and the closed file reads back as exactly the appended records.
\<close>

theorem wal_synced_small_log:
  assumes small: "length (concat (map full_record (appended ops))) \<le> BlockSize"
  shows "\<exists>w. wal_run (NewWriter (good_file [])) ops = (None, w) \<and>
    read_all (NewReader (f_data (w_file (snd (wal_Close w))))) = (appended ops, EOF)"
proof -
  let ?rs = "appended ops"
  have "w_ok (NewWriter (good_file []))" and "w_stream (NewWriter (good_file [])) = []"
    by (simp_all add: w_ok_def NewWriter_def w_stream_def)
  from wal_run_small [OF this(1), of ops] this(2) small obtain w where
    w: "wal_run (NewWriter (good_file [])) ops = (None, w)" "w_ok w"
      "w_stream w = concat (map full_record ?rs)" by auto
  have F: "f_data (w_file (snd (wal_Close w))) = lays 0 ?rs"
    using wal_Close_ok [OF w(2)] w(3) lays_full [of 0 ?rs] small by simp
  have "read_all (NewReader (lays 0 ?rs)) = (?rs, EOF)"
  proof (cases "lays 0 ?rs = []")
    case True
    then show ?thesis by (cases ?rs) (simp_all add: read_new_empty)
  next
    case False
    then obtain r where r: "r_at (lays 0 ?rs) 0 0 r" "read_all (NewReader (lays 0 ?rs)) = read_all r"
      by (rule read_new)
    have "drop (0 * BlockSize + 0) (lays 0 ?rs) = take (length (lays 0 ?rs)) (lays 0 ?rs)" by simp
    from read_all_lays [OF r(1) this] obtain j e where j: "read_all r = (take j ?rs, e)" "e = EOF"
      "\<forall>i \<le> length ?rs. length (lays 0 (take i ?rs)) \<le> length (lays 0 ?rs) \<longrightarrow> i \<le> j"
      by auto
    from j(3) have "length ?rs \<le> j" by auto
    with j r(2) show ?thesis by simp
  qed
  with w(1) F show ?thesis by auto
qed

theorem wal_synced_small_log_witness:
  "length (concat (map full_record (appended [WAppend [1], WSync, WAppend [2, 3]]))) \<le> BlockSize \<and>
   (\<exists>w. wal_run (NewWriter (good_file [])) [WAppend [1], WSync, WAppend [2, 3]] = (None, w) \<and>
     read_all (NewReader (f_data (w_file (snd (wal_Close w))))) = ([[1], [2, 3]], EOF))"
proof -
  have h: "length (concat (map full_record (appended [WAppend [1], WSync, WAppend [2, 3]]))) \<le> BlockSize"
    by (simp add: HeaderSize_def BlockSize_def)
  show ?thesis using h wal_synced_small_log [OF h] by simp
qed

text \<open>
  C27. Past the first block the agreement breaks.  Two records are appended and synced one after the
  other, each within one block but together crossing the block boundary of the file.  Every
  operation reports success and both records are durable, yet the reader returns only the first
  and then \<open>ErrShortRecord\<close>: the second, acknowledged record is lost to recovery.
\<close>

theorem wal_synced_record_lost:
  assumes a: "HeaderSize + length a + HeaderSize \<le> BlockSize" and b: "HeaderSize + length b \<le> BlockSize"
    and cross: "BlockSize < HeaderSize + length a + HeaderSize + length b"
  shows "\<exists>w. wal_run (NewWriter (good_file [])) [WAppend a, WSync, WAppend b, WSync] = (None, w) \<and>
    f_data (w_file w) = full_record a @ full_record b \<and>
    read_all (NewReader (f_data (w_file w))) = ([a], ErrShortRecord)"
proof -
  let ?F = "full_record a @ full_record b"
  have w0: "w_ok (NewWriter (good_file []))" "w_stream (NewWriter (good_file [])) = []"
    "w_buf (NewWriter (good_file [])) = []"
    by (simp_all add: w_ok_def NewWriter_def w_stream_def)
  obtain w1 where w1: "wal_Append (NewWriter (good_file [])) a = (None, w1)" "w_ok w1" "w_stream w1 = full_record a"
    using append_full [OF w0(1), of a] w0 a by auto
  obtain w2 where w2: "wal_Sync w1 = (None, w2)" "w_ok w2" "w_stream w2 = full_record a" "w_buf w2 = []"
    using sync_ok [OF w1(2)] w1(3) by auto
  obtain w3 where w3: "wal_Append w2 b = (None, w3)" "w_ok w3" "w_stream w3 = ?F"
    using append_full [OF w2(2), of b] w2 b by auto
  obtain w4 where w4: "wal_Sync w3 = (None, w4)" "w_stream w4 = ?F" "w_buf w4 = []"
    using sync_ok [OF w3(2)] w3(3) by auto
  have run: "wal_run (NewWriter (good_file [])) [WAppend a, WSync, WAppend b, WSync] = (None, w4)"
    using w1(1) w2(1) w3(1) w4(1) by simp
  have data: "f_data (w_file w4) = ?F" using w4(2,3) by (simp add: w_stream_def)
  obtain r where r: "r_at ?F 0 0 r" "read_all (NewReader ?F) = read_all r"
    by (rule read_new [of ?F]) auto
  have fit: "0 + HeaderSize + length a \<le> BlockSize" using a by simp
  have F0: "drop (0 * BlockSize + 0) ?F = phys_record RecordFull a @ full_record b" by simp
  obtain r1 where r1: "r_at ?F 0 (0 + HeaderSize + length a) r1" "read_loop r [] False = (Inr a, r1)"
    using read_phys [OF r(1) fit F0 record_type_full [symmetric], of "[]"] by auto
  let ?m = "BlockSize - HeaderSize - length a"
  have "drop (r_off r1) (r_block r1) = take ?m (full_record b)"
    using r_at_block [OF r1(1)] r1(1) by (simp add: r_at_def)
  moreover have "r_off r1 \<le> length (r_block r1)" by (rule r_at_off [OF r1(1)])
  moreover have "HeaderSize \<le> ?m" "?m < HeaderSize + length b" using a cross by linarith+
  moreover have "length b < 2 ^ 16" using b by (simp add: BlockSize_def)
  moreover have "RecordFull \<noteq> 0" by (simp add: RecordFull_def)
  ultimately have "read_loop r1 [] False = (Inl ErrShortRecord, r1)"
    by (intro read_block_torn)
  then have "read_all r1 = ([], ErrShortRecord)"
    by (subst read_all.simps) (simp add: ReadRecord_def)
  with r1(2) have "read_all r = ([a], ErrShortRecord)"
    by (subst read_all.simps) (simp add: ReadRecord_def)
  with run data r(2) show ?thesis by auto
qed

theorem wal_synced_record_lost_witness:
  "\<exists>w. wal_run (NewWriter (good_file []))
      [WAppend (replicate 20000 1), WSync, WAppend (replicate 20000 2), WSync] = (None, w) \<and>
    f_data (w_file w) = full_record (replicate 20000 1) @ full_record (replicate 20000 2) \<and>
    read_all (NewReader (f_data (w_file w))) = ([replicate 20000 1], ErrShortRecord)"
  by (rule wal_synced_record_lost) (simp_all only: length_replicate, simp_all add: HeaderSize_def BlockSize_def)

section \<open>Corruption\<close>

lemma record_crc_eq: "record_crc t p = crc_Update 0 (t # p)"
  by (simp add: record_crc_def crc_Update_append)

text \<open>
  C24. A physical record in which one byte of the type or the payload was changed is rejected with
  \<open>ErrCorruptRecord\<close> and nothing of it is delivered, wherever in the block it stands.  The one
  exception is excluded by the last hypothesis: an empty record whose type byte became 0 looks
  like padding.
\<close>

theorem wal_corruption_detected:
  assumes p: "r_off r \<le> length (r_block r)"
    and b: "drop (r_off r) (r_block r) =
      put_le 4 (record_crc t pl) @ put_le 2 (of_nat (length pl) :: u16) @ (xs @ y # ys) @ T"
    and orig: "t # pl = xs @ x # ys" and ne: "x \<noteq> y"
    and small: "length pl < 2 ^ 16" and notpad: "pl \<noteq> [] \<or> y \<noteq> 0"
  shows "read_loop r acc fr = (Inl ErrCorruptRecord, r)"
proof -
  let ?b = "r_block r" and ?p = "r_off r"
  obtain t' pl' where tp: "xs @ y # ys = t' # pl'" by (cases xs) auto
  have len': "length pl' = length pl"
    using arg_cong [OF orig, of length] arg_cong [OF tp, of length] by simp
  have d0: "drop ?p ?b = put_le 4 (record_crc t pl) @
      put_le 2 (of_nat (length pl) :: u16) @ [t'] @ pl' @ T"
    using b tp by simp
  note f1 = field_at [OF d0 p length_put_le]
  note f2 = field_at [OF f1(2,3) length_put_le]
  note f3 = field_at [OF f2(2,3), of 1, simplified]
  note f4 = field_at [OF f3(2,3) refl]
  have t: "?b ! (?p + 6) = t'"
    using nth_via_drop [of "?p + 4 + 2" ?b t'] f2(2) by (simp add: add.commute)
  have len: "unat (get_le (gslice (?p + 4) (?p + 6) ?b) :: u16) = length pl"
    using f2(1) small by (simp add: add.commute)
  have le: "?p + HeaderSize + length pl \<le> length ?b"
    using f4(3) len' by (simp add: HeaderSize_def add.commute)
  have pay: "gslice (?p + HeaderSize) (?p + HeaderSize + length pl) ?b = pl'"
    using f4(1) len' by (simp add: HeaderSize_def add.commute)
  have crc: "(get_le (gslice ?p (?p + 4) ?b) :: u32) = record_crc t pl"
    using f1(1) by simp
  have differ: "record_crc t pl \<noteq> record_crc t' pl'"
    unfolding record_crc_eq orig tp [symmetric] using ne crc_Update_byte by blast
  have np: "\<not> (length pl = 0 \<and> t' = 0)"
    using notpad tp orig by (cases xs) auto
  show ?thesis
    using le t len np pay crc differ by (subst read_loop.simps) (auto simp: Let_def)
qed

theorem wal_corruption_detected_witness:
  "read_loop \<lparr>r_rest = [], r_block = put_le 4 (record_crc 1 [10, 20]) @ put_le 2 (2 :: u16) @ [1, 10, 21],
      r_off = 0, r_eof = True\<rparr> [] False =
     (Inl ErrCorruptRecord,
      \<lparr>r_rest = [], r_block = put_le 4 (record_crc 1 [10, 20]) @ put_le 2 (2 :: u16) @ [1, 10, 21],
       r_off = 0, r_eof = True\<rparr>)"
  by (rule wal_corruption_detected [where t = 1 and pl = "[10, 20]" and xs = "[1, 10]" and x = 20
        and y = 21 and ys = "[]" and T = "[]"]) simp_all

end
