(* ===== verification/WalRecovery.thy ===== *)
theory WalRecovery
  imports WalCorrect
begin

text \<open>
  Recovery of the log at start-up (\<^verbatim>\<open>src/internal/wal/recovery.go\<close>): read batches up to the first
  bad record; if there was one, rewrite the good batches to \<^verbatim>\<open>wal.log.tmp\<close> and rename it over
  the log.  The directory is modelled by the contents of the two files (\<open>None\<close>: no such file).
  \<^verbatim>\<open>NewWriter\<close> opens the temporary file for appending, so a leftover of an earlier crash is
  kept in front of what is written now.
\<close>

record RecoveryResult =
  Batches :: "Batch list"
  CorruptedAt :: int
  TruncatedAt :: int
  RecordsRead :: nat
  RecordsLost :: nat

record wal_dir =
  wd_log :: "bytes option"
  wd_tmp :: "bytes option"

definition new_result :: RecoveryResult where
  "new_result = \<lparr>Batches = [], CorruptedAt = -1, TruncatedAt = -1, RecordsRead = 0, RecordsLost = 0\<rparr>"

text \<open>
  The read loop: the result so far, and the error (other than EOF) that stopped it.  \<open>Inl\<close> is an
  error that \<^verbatim>\<open>Recover\<close> returns to its caller.
\<close>

function recover_loop :: "wal_reader \<Rightarrow> RecoveryResult \<Rightarrow> wal_error + RecoveryResult \<times> wal_error option" where
  "recover_loop r res =
     (case ReadRecord r of
        (Inl e, r1) \<Rightarrow>
          (if e = EOF then Inr (res, None)
           else if e = ErrCorruptRecord \<or> e = ErrShortRecord
           then Inr (res\<lparr>CorruptedAt := 1\<rparr>, Some e)
           else Inl e)
      | (Inr rec, r1) \<Rightarrow>
          (case DecodeBatch rec of
             Inl e \<Rightarrow> Inr (res\<lparr>CorruptedAt := 1\<rparr>, Some e)
           | Inr b \<Rightarrow> recover_loop r1 (res\<lparr>Batches := Batches res @ [b],
                                         RecordsRead := RecordsRead res + 1\<rparr>)))"
  by pat_completeness auto
termination
  by (relation "measure (\<lambda>(r, _). r_left r)") (auto simp: ReadRecord_def dest: read_loop_progress [OF sym])

declare recover_loop.simps [simp del]

text \<open>
  The rewrite: append every batch to the temporary file, sync, close.  \<open>script\<close> gives the outcomes
  of the system calls.  The temporary file's contents are returned on failure too.
\<close>

definition rewrite_tmp :: "bytes option \<Rightarrow> io_outcome list \<Rightarrow> Batch list \<Rightarrow> wal_error option \<times> bytes" where
  "rewrite_tmp tmp script bs =
     (let w = NewWriter \<lparr>f_data = nil_bytes tmp, f_script = script\<rparr> in
      case append_all w (map batch_Encode bs) of
        (Some e, w1) \<Rightarrow> (Some e, f_data (w_file (snd (wal_Close w1))))
      | (None, w1) \<Rightarrow>
          (case wal_Sync w1 of
             (Some e, w2) \<Rightarrow> (Some e, f_data (w_file (snd (wal_Close w2))))
           | (None, w2) \<Rightarrow> (case wal_Close w2 of (e, w3) \<Rightarrow> (e, f_data (w_file w3)))))"

definition Recover :: "wal_dir \<Rightarrow> io_outcome list \<Rightarrow> (wal_error + RecoveryResult) \<times> wal_dir" where
  "Recover d script =
     (case wd_log d of
        None \<Rightarrow> (Inr new_result, d)
      | Some file \<Rightarrow>
          (case recover_loop (NewReader file) new_result of
             Inl e \<Rightarrow> (Inl e, d)
           | Inr (res, readErr) \<Rightarrow>
               if CorruptedAt res \<noteq> -1 \<or> readErr \<noteq> None then
                 (case rewrite_tmp (wd_tmp d) script (Batches res) of
                    (Some e, t) \<Rightarrow> (Inl e, d\<lparr>wd_tmp := Some t\<rparr>)
                  | (None, t) \<Rightarrow>
                      (Inr (res\<lparr>RecordsLost := 1, TruncatedAt := 1\<rparr>),
                       \<lparr>wd_log = Some t, wd_tmp = None\<rparr>))
               else (Inr res, d)))"

section \<open>The read loop in terms of the records read\<close>

fun good_batches :: "bytes list \<Rightarrow> Batch list" where
  "good_batches [] = []"
| "good_batches (r # rs) = (case DecodeBatch r of Inl e \<Rightarrow> [] | Inr b \<Rightarrow> b # good_batches rs)"

lemma recover_loop_read_all:
  assumes "read_all r = (rs, e)" "e \<in> {EOF, ErrCorruptRecord, ErrShortRecord}"
  shows "\<exists>res' err. recover_loop r res = Inr (res', err) \<and>
    Batches res' = Batches res @ good_batches rs \<and>
    (err = None \<longleftrightarrow> e = EOF \<and> length (good_batches rs) = length rs) \<and>
    CorruptedAt res' = (if err = None then CorruptedAt res else 1) \<and>
    TruncatedAt res' = TruncatedAt res \<and> RecordsLost res' = RecordsLost res \<and>
    RecordsRead res' = RecordsRead res + length (good_batches rs)"
  using assms
proof (induction r arbitrary: rs res rule: read_all.induct)
  case (1 r)
  show ?case
  proof (cases "ReadRecord r")
    case (Pair x r1)
    show ?thesis
    proof (cases x)
      case (Inl e')
      then have "rs = []" "e' = e" using "1.prems"(1) Pair by (auto simp: read_all.simps [of r])
      then show ?thesis
        using "1.prems"(2) Pair Inl by (subst recover_loop.simps) auto
    next
      case (Inr rec)
      then obtain rs' where rs: "rs = rec # rs'" and all: "read_all r1 = (rs', e)"
        using "1.prems"(1) Pair by (auto simp: read_all.simps [of r] split: prod.splits)
      show ?thesis
      proof (cases "DecodeBatch rec")
        case (Inl e')
        then show ?thesis
          using Pair Inr rs by (subst recover_loop.simps) auto
      next
        case dec: (Inr b)
        let ?res = "res\<lparr>Batches := Batches res @ [b], RecordsRead := RecordsRead res + 1\<rparr>"
        have step: "recover_loop r res = recover_loop r1 ?res"
          using Pair Inr dec by (subst recover_loop.simps) simp
        obtain res' err where "recover_loop r1 ?res = Inr (res', err)"
          "Batches res' = Batches ?res @ good_batches rs'"
          "(err = None) = (e = EOF \<and> length (good_batches rs') = length rs')"
          "CorruptedAt res' = (if err = None then CorruptedAt ?res else 1)"
          "TruncatedAt res' = TruncatedAt ?res" "RecordsLost res' = RecordsLost ?res"
          "RecordsRead res' = RecordsRead ?res + length (good_batches rs')"
          using "1.IH" [OF Pair [symmetric] Inr all "1.prems"(2), of ?res] by blast
        then show ?thesis
          by (intro exI [of _ res'] exI [of _ err]) (simp add: step rs dec)
      qed
    qed
  qed
qed

lemma good_batches_Encode:
  "(\<forall>b \<in> set bs. batch_fits b) \<Longrightarrow> good_batches (map batch_Encode bs) = map (map norm_entry) bs"
proof (induction bs)
  case (Cons b bs)
  then have "DecodeBatch (batch_Encode b) = Inr (map norm_entry b)"
    using decode_encoded [of b "[]"] by simp
  with Cons show ?case by simp
qed simp

section \<open>Recovery of any file\<close>

lemma read_loop_error:
  "read_loop r acc fr = (Inl e, r') \<Longrightarrow> e \<in> {EOF, ErrCorruptRecord, ErrShortRecord}"
proof (induction r acc fr rule: read_loop.induct)
  case (1 r acc fr)
  let ?off = "r_off r" and ?b = "r_block r"
  let ?len = "unat (get_le (gslice (?off + 4) (?off + 6) ?b) :: u16)"
  let ?ty = "?b ! (?off + 6)"
  let ?pl = "gslice (?off + HeaderSize) (?off + HeaderSize + ?len) ?b"
  let ?r1 = "r\<lparr>r_off := ?off + HeaderSize + ?len\<rparr>"
  show ?case
  proof (cases "length (r_block r) < r_off r + HeaderSize")
    case True
    with "1.prems" show ?thesis
      by (subst (asm) read_loop.simps)
        (auto dest: "1.IH"(1) split: if_splits prod.splits bool.splits)
  next
    case False
    note big = False
    show ?thesis
    proof (cases "?len = 0 \<and> ?ty = 0")
      case True
      then have "read_loop (r\<lparr>r_off := length ?b\<rparr>) acc fr = (Inl e, r')"
        using "1.prems" big by (subst (asm) read_loop.simps) (simp add: Let_def)
      then show ?thesis using "1.IH"(2) [OF big refl refl refl refl refl] True by simp
    next
      case False
      have step: "e \<in> {ErrCorruptRecord, ErrShortRecord} \<or>
        ?off + HeaderSize + ?len \<le> length ?b \<and>
        (get_le (gslice ?off (?off + 4) ?b) :: u32) = record_crc ?ty ?pl \<and>
        read_loop ?r1 (acc @ ?pl) True = (Inl e, r') \<and>
        (if fr then ?ty = RecordMiddle else ?ty = RecordFirst)"
        using "1.prems" big False
        by (subst (asm) read_loop.simps) (auto simp: Let_def not_less split: if_splits)
      then consider "e \<in> {ErrCorruptRecord, ErrShortRecord}"
        | "fr" "?ty = RecordMiddle" "read_loop ?r1 (acc @ ?pl) True = (Inl e, r')"
          "?off + HeaderSize + ?len \<le> length ?b"
          "(get_le (gslice ?off (?off + 4) ?b) :: u32) = record_crc ?ty ?pl"
        | "\<not> fr" "?ty = RecordFirst" "read_loop ?r1 (acc @ ?pl) True = (Inl e, r')"
          "?off + HeaderSize + ?len \<le> length ?b"
          "(get_le (gslice ?off (?off + 4) ?b) :: u32) = record_crc ?ty ?pl"
        by (auto split: if_splits)
      then show ?thesis
      proof cases
        case 2
        with "1.IH"(4) [OF big refl refl refl refl refl] False show ?thesis
          by (auto simp: RecordMiddle_def RecordLast_def)
      next
        case 3
        with "1.IH"(3) [OF big refl refl refl refl refl] False show ?thesis
          by (auto simp: RecordFirst_def RecordFull_def)
      qed auto
    qed
  qed
qed

lemma read_all_error: "snd (read_all r) \<in> {EOF, ErrCorruptRecord, ErrShortRecord}"
proof (induction r rule: read_all.induct)
  case (1 r)
  obtain x r1 where rr: "ReadRecord r = (x, r1)" by (cases "ReadRecord r")
  show ?case
  proof (cases x)
    case (Inl e)
    with rr read_loop_error [of r "[]" False e r1] show ?thesis
      by (subst read_all.simps) (simp add: ReadRecord_def)
  next
    case (Inr rec)
    with rr "1.IH" [OF rr [symmetric] Inr] show ?thesis
      by (subst read_all.simps) (simp add: split_beta)
  qed
qed

lemma rewrite_tmp_ok: "rewrite_tmp None [] bs = (None, log_file (map batch_Encode bs))"
proof -
  let ?w = "NewWriter \<lparr>f_data = nil_bytes None, f_script = []\<rparr>"
  have ok: "w_ok ?w" and st: "w_stream ?w = []" and buf: "w_buf ?w = []"
    by (simp_all add: w_ok_def NewWriter_def w_stream_def)
  obtain w1 where w1: "append_all ?w (map batch_Encode bs) = (None, w1)" "w_ok w1"
    "w_stream w1 = lays 0 (map batch_Encode bs)"
    using append_all_lays [OF ok, of "map batch_Encode bs"] st buf by auto
  obtain w2 where w2: "wal_Sync w1 = (None, w2)" "w_ok w2" "w_stream w2 = w_stream w1"
    using sync_ok [OF w1(2)] by blast
  obtain w3 where w3: "wal_Close w2 = (None, w3)" "f_data (w_file w3) = w_stream w2"
    using wal_Close_ok [OF w2(2)] by (metis prod.collapse prod.sel)
  show ?thesis
    using w1 w2 w3 by (simp add: rewrite_tmp_def log_file_lays)
qed

lemma good_batches_stable:
  "good_batches (map batch_Encode (good_batches rs)) = good_batches rs"
  by (induction rs) (auto simp: DecodeBatch_stable split: sum.splits)

lemma read_log_file: "read_all (NewReader (log_file rs)) = (rs, EOF)"
  using read_log_prefix [of "length (log_file rs)" rs] by auto

text \<open>What \<^verbatim>\<open>Recover\<close> does when no system call fails and no temporary file is left over.\<close>

lemma Recover_cases:
  assumes "read_all (NewReader file) = (rs, e)"
  shows "\<exists>res. Recover \<lparr>wd_log = Some file, wd_tmp = None\<rparr> [] =
      (Inr res, \<lparr>wd_log = Some (if CorruptedAt res = -1 then file
                              else log_file (map batch_Encode (good_batches rs))), wd_tmp = None\<rparr>) \<and>
    Batches res = good_batches rs \<and> RecordsRead res = length (good_batches rs) \<and>
    (CorruptedAt res = -1 \<longleftrightarrow> e = EOF \<and> length (good_batches rs) = length rs)"
proof -
  have "e \<in> {EOF, ErrCorruptRecord, ErrShortRecord}"
    using read_all_error [of "NewReader file"] assms by simp
  from recover_loop_read_all [OF assms this, of new_result] obtain res' err where
    r: "recover_loop (NewReader file) new_result = Inr (res', err)"
      "Batches res' = Batches new_result @ good_batches rs"
      "(err = None) = (e = EOF \<and> length (good_batches rs) = length rs)"
      "CorruptedAt res' = (if err = None then CorruptedAt new_result else 1)"
      "RecordsRead res' = RecordsRead new_result + length (good_batches rs)"
    by blast
  have n: "Batches new_result = []" "CorruptedAt new_result = -1" "RecordsRead new_result = 0"
    by (simp_all add: new_result_def)
  show ?thesis
  proof (cases err)
    case None
    with r(3) have eof: "e = EOF" "length (good_batches rs) = length rs" by simp_all
    from r None show ?thesis
      by (intro exI [of _ res']) (simp add: Recover_def n eof)
  next
    case (Some er)
    with r show ?thesis
      by (intro exI [of _ "res'\<lparr>RecordsLost := 1, TruncatedAt := 1\<rparr>"])
        (simp add: Recover_def n rewrite_tmp_ok)
  qed
qed

text \<open>
  C26. Recovery repairs any log file, whatever its bytes: with no leftover temporary file and no
  failing system call it succeeds, and running it again on what it left finds no corruption,
  returns the same batches and changes nothing.
\<close>

theorem Recover_idempotent:
  assumes "wd_tmp d = None"
  shows "\<exists>res d' res2. Recover d [] = (Inr res, d') \<and> Recover d' [] = (Inr res2, d') \<and>
    Batches res2 = Batches res \<and> CorruptedAt res2 = -1 \<and> wd_tmp d' = None"
proof (cases "wd_log d")
  case None
  then show ?thesis using assms by (simp add: Recover_def new_result_def)
next
  case (Some x)
  with assms have d: "d = \<lparr>wd_log = Some x, wd_tmp = None\<rparr>" by simp
  obtain rs e where all: "read_all (NewReader x) = (rs, e)" by (cases "read_all (NewReader x)")
  from Recover_cases [OF all] obtain res where
    res: "Recover d [] = (Inr res, \<lparr>wd_log = Some (if CorruptedAt res = -1 then x
            else log_file (map batch_Encode (good_batches rs))), wd_tmp = None\<rparr>)"
      "Batches res = good_batches rs" unfolding d by blast
  show ?thesis
  proof (cases "CorruptedAt res = -1")
    case True
    with res show ?thesis unfolding d by auto
  next
    case False
    from Recover_cases [OF read_log_file, of "map batch_Encode (good_batches rs)"] False res
    show ?thesis by (auto simp: good_batches_stable)
  qed
qed

theorem Recover_idempotent_witness:
  "\<exists>res d' res2. Recover \<lparr>wd_log = Some [0, 0, 0, 0, 1, 0, 9, 9], wd_tmp = None\<rparr> [] = (Inr res, d') \<and>
    Recover d' [] = (Inr res2, d') \<and> Batches res2 = Batches res \<and> CorruptedAt res2 = -1 \<and> wd_tmp d' = None"
  using Recover_idempotent [of "\<lparr>wd_log = Some [0, 0, 0, 0, 1, 0, 9, 9], wd_tmp = None\<rparr>"] by simp



end
