(* ===== verification/GroupCommit.thy ===== *)
theory GroupCommit
  imports WalRecovery
begin

text \<open>
  The group committer of \<^verbatim>\<open>internal/wal/group_commit.go\<close>: callers submit records over a buffered channel,
  one goroutine collects them into a batch, appends the batch to the log, syncs once and answers
  every caller of the batch.

  The state holds the channel contents, the goroutine's local variables and the answers it has
  sent.  A request's result channel is its number, given in the order the requests entered the
  channel.  Each event is one atomic action of a caller, of the goroutine or of the timer, and is
  \<^term>\<open>None\<close> where it cannot happen; interleavings are the event sequences.
\<close>

section \<open>Model\<close>

record commitRequest =
  req_result :: nat
  req_data :: bytes

record GroupCommitter =
  gc_writer :: wal_writer
  gc_pending :: "commitRequest list"
  gc_stopCh :: bool
  gc_stoppedCh :: bool
  gc_maxBatchSize :: int
  gc_batch :: "commitRequest list"
  gc_timerActive :: bool
  gc_answers :: "(nat \<times> wal_error option) list"
  gc_next :: nat

definition pending_cap :: nat where
  "pending_cap = 1024"

text \<open>\<open>opt\<close> is the argument of \<^verbatim>\<open>WithMaxBatchSize\<close>, when that option is given.\<close>

definition NewGroupCommitter :: "wal_writer \<Rightarrow> int option \<Rightarrow> GroupCommitter" where
  "NewGroupCommitter w opt =
     \<lparr>gc_writer = w, gc_pending = [], gc_stopCh = False, gc_stoppedCh = False,
      gc_maxBatchSize = (case opt of None \<Rightarrow> 64 | Some n \<Rightarrow> n),
      gc_batch = [], gc_timerActive = False, gc_answers = [], gc_next = 0\<rparr>"

definition gc_flush :: "GroupCommitter \<Rightarrow> GroupCommitter" where
  "gc_flush gc =
     (if gc_batch gc = [] then gc
      else
        let (err, w) = (case append_all (gc_writer gc) (map req_data (gc_batch gc)) of
                          (Some e, w1) \<Rightarrow> (Some e, w1)
                        | (None, w1) \<Rightarrow> wal_Sync w1)
        in gc\<lparr>gc_writer := w, gc_answers := gc_answers gc @ map (\<lambda>r. (req_result r, err)) (gc_batch gc),
              gc_batch := [], gc_timerActive := False\<rparr>)"

datatype gc_event =
    GcSubmit bytes    \<comment> \<open>\<^verbatim>\<open>Submit\<close> puts its request into the channel\<close>
  | GcSubmitClosed    \<comment> \<open>\<^verbatim>\<open>Submit\<close> sees the closed stop channel and returns \<open>ErrClosed\<close>\<close>
  | GcReceive         \<comment> \<open>\<^verbatim>\<open>run\<close> takes a request\<close>
  | GcTimer           \<comment> \<open>the batch delay expires\<close>
  | GcStop            \<comment> \<open>\<^verbatim>\<open>Stop\<close> closes the stop channel\<close>
  | GcDrain           \<comment> \<open>\<^verbatim>\<open>run\<close> sees the closed stop channel, drains, flushes and returns\<close>

fun gc_exec :: "gc_event \<Rightarrow> GroupCommitter \<Rightarrow> GroupCommitter option" where
  "gc_exec (GcSubmit data) gc =
     (if length (gc_pending gc) < pending_cap
      then Some (gc\<lparr>gc_pending := gc_pending gc @ [\<lparr>req_result = gc_next gc, req_data = data\<rparr>],
                    gc_next := gc_next gc + 1\<rparr>)
      else None)"
| "gc_exec GcSubmitClosed gc = (if gc_stopCh gc then Some gc else None)"
| "gc_exec GcReceive gc =
     (if gc_stoppedCh gc then None
      else case gc_pending gc of
        [] \<Rightarrow> None
      | req # rest \<Rightarrow>
          let gc1 = gc\<lparr>gc_pending := rest, gc_batch := gc_batch gc @ [req]\<rparr> in
          Some (if gc_maxBatchSize gc \<le> int (length (gc_batch gc1)) then gc_flush gc1
                else gc1\<lparr>gc_timerActive := True\<rparr>))"
| "gc_exec GcTimer gc =
     (if \<not> gc_stoppedCh gc \<and> gc_timerActive gc then Some (gc_flush (gc\<lparr>gc_timerActive := False\<rparr>)) else None)"
| "gc_exec GcStop gc = (if gc_stopCh gc then None else Some (gc\<lparr>gc_stopCh := True\<rparr>))"
| "gc_exec GcDrain gc =
     (if gc_stopCh gc \<and> \<not> gc_stoppedCh gc
      then Some ((gc_flush (gc\<lparr>gc_batch := gc_batch gc @ gc_pending gc, gc_pending := []\<rparr>))\<lparr>gc_stoppedCh := True\<rparr>)
      else None)"

abbreviation gc_run :: "gc_event list \<Rightarrow> GroupCommitter \<Rightarrow> GroupCommitter option" where
  "gc_run \<equiv> run_opt gc_exec"

text \<open>The data of the requests that entered the channel, in order.\<close>

fun submitted :: "gc_event list \<Rightarrow> bytes list" where
  "submitted [] = []"
| "submitted (GcSubmit d # es) = d # submitted es"
| "submitted (_ # es) = submitted es"

section \<open>Invariants\<close>

lemma run_opt_invariant:
  assumes "run_opt f es s = Some s'" "P s" "\<And>e s s'. f e s = Some s' \<Longrightarrow> P s \<Longrightarrow> P s'"
  shows "P s'"
  using assms by (induction es arbitrary: s) (auto split: option.splits)

text \<open>Every request is answered at most once, and in the order of submission.\<close>

definition gc_fifo :: "GroupCommitter \<Rightarrow> bool" where
  "gc_fifo gc \<longleftrightarrow>
     map fst (gc_answers gc) @ map req_result (gc_batch gc @ gc_pending gc) = [0..<gc_next gc] \<and>
     (gc_batch gc \<noteq> [] \<and> \<not> gc_stoppedCh gc \<longrightarrow> gc_timerActive gc) \<and>
     (gc_stoppedCh gc \<longrightarrow> gc_stopCh gc \<and> gc_batch gc = [])"

lemma gc_flush_facts:
  "map fst (gc_answers (gc_flush gc)) = map fst (gc_answers gc) @ map req_result (gc_batch gc)"
  "gc_batch (gc_flush gc) = []" "gc_pending (gc_flush gc) = gc_pending gc"
  "gc_next (gc_flush gc) = gc_next gc" "gc_stoppedCh (gc_flush gc) = gc_stoppedCh gc"
  "gc_stopCh (gc_flush gc) = gc_stopCh gc" "gc_maxBatchSize (gc_flush gc) = gc_maxBatchSize gc"
  by (auto simp: gc_flush_def Let_def comp_def split: prod.splits)

lemma gc_fifo_step: "gc_exec e gc = Some gc' \<Longrightarrow> gc_fifo gc \<Longrightarrow> gc_fifo gc'"
  by (cases e) (auto simp: gc_fifo_def gc_flush_facts Let_def split: if_splits list.splits)

lemma gc_fifo_run: "gc_run es (NewGroupCommitter w opt) = Some gc \<Longrightarrow> gc_fifo gc"
  by (erule run_opt_invariant) (simp add: gc_fifo_def NewGroupCommitter_def, rule gc_fifo_step)

text \<open>With a healthy writer and a log within one block, the file holds exactly the answered requests.\<close>

definition gc_good :: "bytes list \<Rightarrow> GroupCommitter \<Rightarrow> bool" where
  "gc_good ds gc \<longleftrightarrow> w_ok (gc_writer gc) \<and> w_buf (gc_writer gc) = [] \<and>
     (\<exists>acked. f_data (w_file (gc_writer gc)) = concat (map full_record acked) \<and>
        acked @ map req_data (gc_batch gc @ gc_pending gc) = ds \<and>
        length acked = length (gc_answers gc)) \<and>
     (\<forall>(i, err) \<in> set (gc_answers gc). err = None)"

lemma append_all_small:
  "w_ok w \<Longrightarrow> length (w_stream w) + length (concat (map full_record rs)) \<le> BlockSize \<Longrightarrow>
     \<exists>w'. append_all w rs = (None, w') \<and> w_ok w' \<and> w_stream w' = w_stream w @ concat (map full_record rs)"
proof (induction rs arbitrary: w)
  case (Cons r rs)
  have "length (w_buf w) + HeaderSize + length r \<le> BlockSize"
    using Cons.prems(2) by (simp add: w_stream_def)
  from append_full [OF Cons.prems(1) this] obtain w1 where
    w1: "wal_Append w r = (None, w1)" "w_ok w1" "w_stream w1 = w_stream w @ full_record r" by blast
  from Cons.IH [OF w1(2)] Cons.prems(2) w1 show ?case by auto
qed simp

lemma gc_flush_good:
  assumes good: "gc_good ds gc" and small: "length (concat (map full_record ds)) \<le> BlockSize"
  shows "gc_good ds (gc_flush gc)"
proof (cases "gc_batch gc = []")
  case True
  then show ?thesis using good by (simp add: gc_flush_def)
next
  case False
  let ?rs = "map req_data (gc_batch gc)" and ?w = "gc_writer gc"
  obtain acked where w: "w_ok ?w" "w_buf ?w = []" "f_data (w_file ?w) = concat (map full_record acked)"
    "acked @ ?rs @ map req_data (gc_pending gc) = ds" "length acked = length (gc_answers gc)"
    "\<forall>(i, err) \<in> set (gc_answers gc). err = None"
    using good by (auto simp: gc_good_def)
  have st: "w_stream ?w = concat (map full_record acked)" using w by (simp add: w_stream_def)
  have "length (w_stream ?w) + length (concat (map full_record ?rs)) \<le> BlockSize"
    using small unfolding w(4) [symmetric] st by simp
  then obtain w1 where w1: "append_all ?w ?rs = (None, w1)" "w_ok w1"
      "w_stream w1 = w_stream ?w @ concat (map full_record ?rs)"
    using append_all_small [OF w(1), of ?rs] by blast
  obtain w2 where w2: "wal_Sync w1 = (None, w2)" "w_ok w2" "w_stream w2 = w_stream w1" "w_buf w2 = []"
    using sync_ok [OF w1(2)] by blast
  have "gc_flush gc = gc\<lparr>gc_writer := w2, gc_answers := gc_answers gc @ map (\<lambda>r. (req_result r, None)) (gc_batch gc),
      gc_batch := [], gc_timerActive := False\<rparr>"
    using False w1(1) w2(1) by (simp add: gc_flush_def)
  moreover have "f_data (w_file w2) = concat (map full_record (acked @ ?rs))"
    using w2(3,4) w1(3) st by (simp add: w_stream_def)
  ultimately show ?thesis
    using w w2 unfolding gc_good_def by (auto intro!: exI [of _ "acked @ ?rs"])
qed

lemma gc_good_regroup:
  "gc_good ds gc \<Longrightarrow> gc_writer gc' = gc_writer gc \<Longrightarrow> gc_answers gc' = gc_answers gc \<Longrightarrow>
     gc_batch gc' @ gc_pending gc' = gc_batch gc @ gc_pending gc \<Longrightarrow> gc_good ds gc'"
  by (simp add: gc_good_def)

lemma gc_good_run:
  "gc_run es gc = Some gc' \<Longrightarrow> gc_good ds gc \<Longrightarrow>
     length (concat (map full_record (ds @ submitted es))) \<le> BlockSize \<Longrightarrow> gc_good (ds @ submitted es) gc'"
proof (induction es arbitrary: gc ds)
  case (Cons e es)
  then obtain gc1 where gc1: "gc_exec e gc = Some gc1" "gc_run es gc1 = Some gc'"
    by (auto split: option.splits)
  have small: "length (concat (map full_record ds)) \<le> BlockSize" using Cons.prems(3) by simp
  have "gc_good (ds @ submitted [e]) gc1"
  proof (cases e)
    case (GcSubmit d)
    then show ?thesis using gc1 Cons.prems(2) by (auto simp: gc_good_def split: if_splits)
  next
    case GcReceive
    then obtain req rest where p: "gc_pending gc = req # rest" using gc1 by (auto split: if_splits list.splits)
    let ?g = "gc\<lparr>gc_pending := rest, gc_batch := gc_batch gc @ [req]\<rparr>"
    have g: "gc_good ds ?g" using p by (intro gc_good_regroup [OF Cons.prems(2)]) simp_all
    then have "gc_good ds (?g\<lparr>gc_timerActive := True\<rparr>)" by (rule gc_good_regroup) simp_all
    with gc_flush_good [OF g small] show ?thesis
      using gc1(1) GcReceive p by (auto simp: Let_def split: if_splits)
  next
    case GcTimer
    have "gc_good ds (gc\<lparr>gc_timerActive := False\<rparr>)" by (rule gc_good_regroup [OF Cons.prems(2)]) simp_all
    from gc_flush_good [OF this small] show ?thesis using gc1(1) GcTimer by (auto split: if_splits)
  next
    case GcDrain
    let ?g = "gc\<lparr>gc_batch := gc_batch gc @ gc_pending gc, gc_pending := []\<rparr>"
    have "gc_good ds ?g" by (rule gc_good_regroup [OF Cons.prems(2)]) simp_all
    from gc_flush_good [OF this small] have "gc_good ds ((gc_flush ?g)\<lparr>gc_stoppedCh := True\<rparr>)"
      by (rule gc_good_regroup) simp_all
    then show ?thesis using gc1(1) GcDrain by (auto split: if_splits)
  next
    case GcStop
    have "gc_good ds (gc\<lparr>gc_stopCh := True\<rparr>)" by (rule gc_good_regroup [OF Cons.prems(2)]) simp_all
    then show ?thesis using gc1(1) GcStop by (auto split: if_splits)
  qed (use gc1 Cons.prems in \<open>auto split: if_splits\<close>)
  moreover have "submitted (e # es) = submitted [e] @ submitted es" by (cases e) simp_all
  ultimately show ?case using Cons.IH [OF gc1(2), of "ds @ submitted [e]"] Cons.prems(3) by simp
qed simp

section \<open>Properties\<close>

text \<open>
  C23. Acknowledged writes are durable and in order: while the log fits one block and the file system
  does not fail, in every interleaving of callers, timer and stop, every answer is success, the
  answers go to the oldest requests, and recovery of the file as it is on disk at that moment
  returns exactly the data of the answered requests, in submission order.
\<close>

theorem GroupCommit_acked_durable:
  assumes run: "gc_run es (NewGroupCommitter (NewWriter (good_file [])) opt) = Some gc"
    and small: "length (concat (map full_record (submitted es))) \<le> BlockSize"
  shows "gc_answers gc = map (\<lambda>i. (i, None)) [0..<length (gc_answers gc)] \<and>
    read_all (NewReader (f_data (w_file (gc_writer gc)))) =
      (take (length (gc_answers gc)) (submitted es), EOF)"
proof -
  have "gc_good [] (NewGroupCommitter (NewWriter (good_file [])) opt)"
    by (simp add: gc_good_def NewGroupCommitter_def w_ok_def NewWriter_def)
  from gc_good_run [OF run this] small have good: "gc_good (submitted es) gc" by simp
  then obtain acked where acked: "f_data (w_file (gc_writer gc)) = concat (map full_record acked)"
    "acked @ map req_data (gc_batch gc @ gc_pending gc) = submitted es" "length acked = length (gc_answers gc)"
    "\<forall>(i, err) \<in> set (gc_answers gc). err = None"
    unfolding gc_good_def by blast
  have "length (concat (map full_record acked)) \<le> BlockSize"
    using small unfolding acked(2) [symmetric] by simp
  then have "f_data (w_file (gc_writer gc)) = log_file acked"
    unfolding acked(1) log_file_lays using lays_full [of 0 acked] by simp
  then have "read_all (NewReader (f_data (w_file (gc_writer gc)))) = (acked, EOF)"
    by (simp add: read_log_file)
  moreover have "acked = take (length (gc_answers gc)) (submitted es)"
    using acked(2,3) by (metis append_eq_conv_conj)
  moreover have "gc_answers gc = map (\<lambda>i. (i, None)) [0..<length (gc_answers gc)]"
  proof -
    have "map fst (gc_answers gc) = take (length (gc_answers gc)) [0..<gc_next gc]"
      using gc_fifo_run [OF run] unfolding gc_fifo_def by (metis append_eq_conv_conj length_map)
    then have "map fst (gc_answers gc) = [0..<length (gc_answers gc)]"
      by (metis length_map length_upt map_nth minus_nat.diff_0 nat_le_linear take_all take_upt add_0 length_take min_def)
    moreover have "gc_answers gc = map (\<lambda>p. (fst p, None)) (gc_answers gc)"
      using acked(4) by (intro map_idI [symmetric]) (auto split: prod.splits)
    ultimately show ?thesis by (metis (no_types, lifting) map_map comp_def map_cong)
  qed
  ultimately show ?thesis by simp
qed

theorem GroupCommit_acked_durable_witness:
  "\<exists>gc. gc_run [GcSubmit [1, 2], GcSubmit [3], GcReceive, GcTimer]
      (NewGroupCommitter (NewWriter (good_file [])) None) = Some gc \<and>
    gc_answers gc = [(0, None)] \<and> read_all (NewReader (f_data (w_file (gc_writer gc)))) = ([[1, 2]], EOF)"
proof -
  let ?es = "[GcSubmit [1, 2], GcSubmit [3], GcReceive, GcTimer]"
  let ?gc = "gc_run ?es (NewGroupCommitter (NewWriter (good_file [])) None)"
  obtain gc where gc: "?gc = Some gc" "length (gc_answers gc) = 1"
    by (simp add: NewGroupCommitter_def pending_cap_def gc_flush_def split_beta)
  have small: "length (concat (map full_record (submitted ?es))) \<le> BlockSize"
    by (simp add: HeaderSize_def BlockSize_def)
  show ?thesis using GroupCommit_acked_durable [OF gc(1) small] gc by simp
qed

text \<open>
  C30. Whatever the writer does, failures included: every request is answered at most once, answers
  follow the order of submission, a collected request always has the timer armed, and when \<^verbatim>\<open>run\<close>
  returns nothing it had taken is left unanswered.
\<close>

theorem GroupCommit_fifo:
  assumes "gc_run es (NewGroupCommitter w opt) = Some gc"
  shows "map fst (gc_answers gc) @ map req_result (gc_batch gc @ gc_pending gc) = [0..<length (submitted es)] \<and>
    (gc_batch gc \<noteq> [] \<longrightarrow> gc_timerActive gc \<and> \<not> gc_stoppedCh gc)"
proof -
  have next_eq: "gc_run es g = Some g' \<Longrightarrow> gc_next g' = gc_next g + length (submitted es)" for g g'
  proof (induction es arbitrary: g)
    case (Cons e es)
    then obtain g1 where g1: "gc_exec e g = Some g1" "gc_run es g1 = Some g'" by (auto split: option.splits)
    have "gc_next g1 = gc_next g + length (submitted [e])"
      using g1(1) by (cases e) (auto simp: gc_flush_facts Let_def split: if_splits list.splits)
    moreover have "submitted (e # es) = submitted [e] @ submitted es" by (cases e) simp_all
    ultimately show ?case using Cons.IH [OF g1(2)] by simp
  qed simp
  have "gc_next gc = length (submitted es)" using next_eq [OF assms] by (simp add: NewGroupCommitter_def)
  with gc_fifo_run [OF assms] show ?thesis by (auto simp: gc_fifo_def)
qed

theorem GroupCommit_fifo_witness:
  "\<exists>gc. gc_run [GcSubmit [7], GcReceive] (NewGroupCommitter (NewWriter (good_file [])) (Some 2)) = Some gc \<and>
     gc_batch gc \<noteq> [] \<and> gc_timerActive gc"
proof -
  obtain gc where gc: "gc_run [GcSubmit [7], GcReceive] (NewGroupCommitter (NewWriter (good_file [])) (Some 2)) = Some gc"
    "gc_batch gc \<noteq> []"
    by (simp add: NewGroupCommitter_def pending_cap_def)
  then show ?thesis using GroupCommit_fifo [OF gc(1)] by simp
qed

text \<open>
  C13. Stopping races with submitting: a request can enter the channel after the goroutine has drained
  it and returned.  From then on no continuation ever answers it, so its \<^verbatim>\<open>Submit\<close> never returns.
\<close>

theorem GroupCommit_submit_after_stop_hangs:
  assumes "gc_run es (NewGroupCommitter w opt) = Some gc0" "gc_stoppedCh gc0"
    "gc_exec (GcSubmit d) gc0 = Some gc" "gc_run es' gc = Some gc'"
  shows "gc_stoppedCh gc' \<and> gc_answers gc' = gc_answers gc \<and> gc_next gc0 \<notin> fst ` set (gc_answers gc')"
proof -
  have inv: "gc_stoppedCh gc' \<and> gc_answers gc' = gc_answers gc"
    using assms(4)
  proof (rule run_opt_invariant)
    fix e s s' assume "gc_exec e s = Some s'" "gc_stoppedCh s \<and> gc_answers s = gc_answers gc"
    then show "gc_stoppedCh s' \<and> gc_answers s' = gc_answers gc" by (cases e) (auto split: if_splits)
  qed (use assms(2,3) in \<open>auto split: if_splits\<close>)
  have "fst ` set (gc_answers gc0) \<subseteq> {0..<gc_next gc0}"
  proof -
    have "map fst (gc_answers gc0) @ map req_result (gc_batch gc0 @ gc_pending gc0) = [0..<gc_next gc0]"
      using gc_fifo_run [OF assms(1)] by (simp add: gc_fifo_def)
    then have "set (map fst (gc_answers gc0)) \<subseteq> set [0..<gc_next gc0]" by (metis Un_upper1 set_append)
    then show ?thesis by simp
  qed
  then have "gc_next gc0 \<notin> fst ` set (gc_answers gc0)" by auto
  with inv assms(3) show ?thesis by (auto split: if_splits)
qed

theorem GroupCommit_submit_after_stop_hangs_witness:
  "\<exists>gc0 gc. gc_run [GcStop, GcDrain] (NewGroupCommitter (NewWriter (good_file [])) None) = Some gc0 \<and>
     gc_exec (GcSubmit [1]) gc0 = Some gc \<and>
     (\<forall>es' gc'. gc_run es' gc = Some gc' \<longrightarrow> 0 \<notin> fst ` set (gc_answers gc'))"
proof -
  let ?g = "NewGroupCommitter (NewWriter (good_file [])) None"
  obtain gc0 where gc0: "gc_run [GcStop, GcDrain] ?g = Some gc0" "gc_next gc0 = 0" "gc_pending gc0 = []" "gc_stoppedCh gc0"
    by (simp add: NewGroupCommitter_def gc_flush_def)
  obtain gc where gc: "gc_exec (GcSubmit [1]) gc0 = Some gc"
    using gc0 by (simp add: pending_cap_def)
  have "0 \<notin> fst ` set (gc_answers gc')" if "gc_run es' gc = Some gc'" for es' gc'
    using GroupCommit_submit_after_stop_hangs [OF gc0(1,4) gc that, unfolded gc0(2)] by blast
  with gc0(1) gc show ?thesis by blast
qed

end
