(* ===== verification/Keys.thy ===== *)
theory Keys
  imports Prelude
begin

text \<open>
  Versioned keys (\<^verbatim>\<open>src/internal/mvcc/key.go\<close>).  An MVCC key is a user key followed by the
  big-endian complement of an 8-byte timestamp.  \<open>CompareKeys\<close> is the order of every sorted
  structure of the store: skip list, data blocks, block index, level files and merge heap.
\<close>

text \<open>An entry of a table: a key and its value, nil for a tombstone.\<close>

type_synonym entry = "bytes \<times> bytes option"

definition EncodeKey :: "bytes \<Rightarrow> u64 \<Rightarrow> bytes" where
  "EncodeKey userKey ts = userKey @ put_be 8 (NOT ts)"

definition DecodeKey :: "bytes \<Rightarrow> bytes \<times> u64" where
  "DecodeKey mvccKey =
     (if length mvccKey < 8 then (mvccKey, 0)
      else let userKeyLen = length mvccKey - 8
           in (take userKeyLen mvccKey, NOT (get_be (drop userKeyLen mvccKey))))"

definition UserKey :: "bytes \<Rightarrow> bytes" where
  "UserKey mvccKey =
     (if length mvccKey < 8 then mvccKey else take (length mvccKey - 8) mvccKey)"

definition CompareKeys :: "bytes \<Rightarrow> bytes \<Rightarrow> int" where
  "CompareKeys a b =
     (let ukA = UserKey a; ukB = UserKey b; cmp = bytes_compare ukA ukB
      in if cmp \<noteq> 0 then cmp else bytes_compare a b)"

definition SameUserKey :: "bytes \<Rightarrow> bytes \<Rightarrow> bool" where
  "SameUserKey a b \<longleftrightarrow> UserKey a = UserKey b"

section \<open>CompareKeys is a total order on all byte strings\<close>

text \<open>
  The order compares the pair of the user key and the whole key.  It is total on raw keys too
  (the storage node stores unversioned keys), whatever their lengths.
\<close>

lemma CompareKeys_less: "CompareKeys a b < 0 \<longleftrightarrow> (UserKey a, a) < (UserKey b, b)"
  by (auto simp: CompareKeys_def Let_def bytes_compare_linorder)

lemma CompareKeys_eq: "CompareKeys a b = 0 \<longleftrightarrow> a = b"
  by (auto simp: CompareKeys_def Let_def bytes_compare_linorder)

lemma CompareKeys_greater: "0 < CompareKeys a b \<longleftrightarrow> (UserKey b, b) < (UserKey a, a)"
  by (auto simp: CompareKeys_def Let_def bytes_compare_linorder)

interpretation ck: total_cmp CompareKeys
proof unfold_locales
  show "\<And>a b. CompareKeys a b = 0 \<longleftrightarrow> a = b" by (rule CompareKeys_eq)
  show "\<And>a b. CompareKeys a b < 0 \<longleftrightarrow> 0 < CompareKeys b a"
    by (simp only: CompareKeys_less CompareKeys_greater)
  show "\<And>a b c. CompareKeys a b < 0 \<Longrightarrow> CompareKeys b c < 0 \<Longrightarrow> CompareKeys a c < 0"
    unfolding CompareKeys_less by (rule less_trans)
qed

text \<open>The same order as a linear order, for the library's order automation.\<close>

definition kord :: "bytes \<Rightarrow> bytes \<times> bytes" where
  "kord k = (UserKey k, k)"

lemma kord_eq [simp]: "kord a = kord b \<longleftrightarrow> a = b"
  by (auto simp: kord_def)

lemma ck_ord:
  "CompareKeys a b < 0 \<longleftrightarrow> kord a < kord b" "CompareKeys a b \<le> 0 \<longleftrightarrow> kord a \<le> kord b"
  "0 < CompareKeys a b \<longleftrightarrow> kord b < kord a" "0 \<le> CompareKeys a b \<longleftrightarrow> kord b \<le> kord a"
  "CompareKeys a b = 0 \<longleftrightarrow> a = b"
proof -
  show less: "CompareKeys a b < 0 \<longleftrightarrow> kord a < kord b" unfolding kord_def by (rule CompareKeys_less)
  show greater: "0 < CompareKeys a b \<longleftrightarrow> kord b < kord a" unfolding kord_def by (rule CompareKeys_greater)
  show "CompareKeys a b \<le> 0 \<longleftrightarrow> kord a \<le> kord b" using greater by (metis not_less)
  show "0 \<le> CompareKeys a b \<longleftrightarrow> kord b \<le> kord a" using less by (metis not_less)
  show "CompareKeys a b = 0 \<longleftrightarrow> a = b" by (rule CompareKeys_eq)
qed

section \<open>Encoding\<close>

lemma length_EncodeKey [simp, length_simps]: "length (EncodeKey uk ts) = length uk + 8"
  by (simp add: EncodeKey_def)

lemma UserKey_EncodeKey [simp]: "UserKey (EncodeKey uk ts) = uk"
  by (simp add: UserKey_def EncodeKey_def)

lemma DecodeKey_EncodeKey: "DecodeKey (EncodeKey uk ts) = (uk, ts)"
  by (simp add: DecodeKey_def EncodeKey_def)

lemma fst_DecodeKey: "fst (DecodeKey k) = UserKey k"
  by (simp add: DecodeKey_def UserKey_def Let_def)

lemma EncodeKey_DecodeKey:
  assumes "8 \<le> length k" shows "EncodeKey (fst (DecodeKey k)) (snd (DecodeKey k)) = k"
proof -
  let ?r = "drop (length k - 8) k"
  have len: "length ?r = 8" using assms by simp
  have "put_be 8 (get_be ?r :: u64) = ?r"
    using put_le_get_le [of "rev ?r", where 'a = 64] len by (simp add: put_be_def get_be_def)
  with assms show ?thesis by (simp add: DecodeKey_def EncodeKey_def Let_def)
qed

lemma append_less_same_prefix: "xs @ ys < xs @ (zs :: bytes) \<longleftrightarrow> ys < zs"
  by (induction xs) auto

lemma put_be_NOT_less: "put_be 8 (NOT s) < put_be 8 (NOT (t :: u64)) \<longleftrightarrow> t < s"
proof -
  have not_unat: "unat (NOT x) = unat (- 1 :: u64) - unat x" for x :: u64
  proof -
    have "NOT x = - 1 - x" by (simp add: not_eq_complement)
    then show ?thesis by (simp only: unat_sub [OF word_n1_ge])
  qed
  have le: "unat x \<le> unat (- 1 :: u64)" for x :: u64
    using word_n1_ge [of x] by (simp only: word_le_nat_alt)
  have "NOT s < NOT t \<longleftrightarrow> t < s"
    using le [of s] le [of t] by (simp only: word_less_nat_alt not_unat) linarith
  then show ?thesis by (simp add: put_be_less_iff)
qed

text \<open>
  C29. The encoding is a faithful total order for snapshot reads: decoding inverts encoding, keys
  of different user keys are ordered by the user key, and among the versions of one user key the
  newer (larger) timestamp sorts strictly first.
\<close>

theorem mvcc_key_order:
  "DecodeKey (EncodeKey uk s) = (uk, s) \<and>
   (CompareKeys (EncodeKey uk s) (EncodeKey uk' t) < 0 \<longleftrightarrow> uk < uk' \<or> uk = uk' \<and> t < s)"
proof -
  have "EncodeKey uk s < EncodeKey uk t \<longleftrightarrow> t < s"
    by (simp add: EncodeKey_def append_less_same_prefix put_be_NOT_less)
  then show ?thesis by (auto simp: DecodeKey_EncodeKey CompareKeys_less)
qed

end
