(* ===== verification/SkipList.thy ===== *)
theory SkipList
  imports Keys WalBatch "HOL-Library.Monad_Syntax"
begin

text \<open>
  The skip list of \<^verbatim>\<open>internal/memtable/skiplist.go\<close> and its iterator (\<^verbatim>\<open>iterator.go\<close>).

  The nodes live in an explicit store: a \<^verbatim>\<open>*node\<close> is an index into \<open>sl_heap\<close>, index 0 is the head, a nil
  pointer is \<^term>\<open>None\<close>.  An operation returns \<^term>\<open>None\<close> where the source panics (an index out of
  range, a nil dereference) or never leaves a loop; the theorems show that it does neither.  The
  source seeds every list's generator with 1, so the outcomes of \<^verbatim>\<open>rng.Float64() < Probability\<close> are
  one fixed sequence: the parameter \<open>coin\<close>, of which the list has drawn the first \<open>sl_rng\<close>.

  The specification is the association list of the live entries, ascending by key; \<^verbatim>\<open>Put\<close> refines
  \<^const>\<open>upd_by\<close>, \<^verbatim>\<open>Get\<close> refines \<^const>\<open>map_of\<close>, and the iterator enumerates the list.
\<close>

section \<open>Data\<close>

definition MaxLevel :: nat where
  "MaxLevel = 16"

record node =
  n_key :: bytes
  n_value :: "bytes option"
  n_forward :: "nat option list"

type_synonym node_store = "node list"

record SkipList =
  sl_heap :: node_store
  sl_level :: nat
  sl_size :: int
  sl_memSize :: int
  sl_rng :: nat

definition NewSkipList :: SkipList where
  "NewSkipList = \<lparr>sl_heap = [\<lparr>n_key = [], n_value = None, n_forward = replicate MaxLevel None\<rparr>],
     sl_level = 0, sl_size = 0, sl_memSize = 0, sl_rng = 0\<rparr>"

text \<open>The pointer \<^verbatim>\<open>p.forward[i]\<close>; \<^term>\<open>None\<close> when the index is out of range.\<close>

definition fwd :: "node_store \<Rightarrow> nat \<Rightarrow> nat \<Rightarrow> nat option option" where
  "fwd h p i =
     (if p < length h \<and> i < length (n_forward (h ! p)) then Some (n_forward (h ! p) ! i) else None)"

definition set_fwd :: "node_store \<Rightarrow> nat \<Rightarrow> nat \<Rightarrow> nat option \<Rightarrow> node_store" where
  "set_fwd h p i x = h[p := (h ! p)\<lparr>n_forward := (n_forward (h ! p))[i := x]\<rparr>]"

section \<open>Operations\<close>

function randomLevel :: "(nat \<Rightarrow> bool) \<Rightarrow> nat \<Rightarrow> nat \<Rightarrow> nat \<times> nat" where
  "randomLevel coin n level =
     (if coin n \<and> level < MaxLevel then randomLevel coin (n + 1) (level + 1) else (level, n + 1))"
  by pat_completeness auto
termination
  by (relation "measure (\<lambda>(coin, n, level). MaxLevel - level)") auto

declare randomLevel.simps [simp del]

text \<open>The inner search loop: walk right on level \<open>i\<close> while the next key is smaller.\<close>

partial_function (option) advance :: "node_store \<Rightarrow> nat \<Rightarrow> bytes \<Rightarrow> nat \<Rightarrow> nat option" where
  [code]: "advance h i key current =
     (case fwd h current i of
        None \<Rightarrow> None
      | Some None \<Rightarrow> Some current
      | Some (Some q) \<Rightarrow>
          if CompareKeys (n_key (h ! q)) key < 0 then advance h i key q else Some current)"

text \<open>The outer search loop, from level \<open>n - 1\<close> down to 0, recording the predecessors.\<close>

fun descend :: "node_store \<Rightarrow> bytes \<Rightarrow> nat \<Rightarrow> nat \<Rightarrow> nat option list \<Rightarrow> (nat \<times> nat option list) option" where
  "descend h key 0 current update = Some (current, update)"
| "descend h key (Suc i) current update =
     (case advance h i key current of
        None \<Rightarrow> None
      | Some c \<Rightarrow> descend h key i c (update[i := Some c]))"

text \<open>The splice loop: link node \<open>new\<close> behind its predecessor on each level of \<open>is\<close>.\<close>

fun splice :: "node_store \<Rightarrow> nat option list \<Rightarrow> nat \<Rightarrow> nat list \<Rightarrow> node_store option" where
  "splice h update new [] = Some h"
| "splice h update new (i # is) =
     (case update ! i of
        None \<Rightarrow> None
      | Some u \<Rightarrow>
          (case fwd h u i of
             None \<Rightarrow> None
           | Some nx \<Rightarrow>
               splice (set_fwd (set_fwd h new i nx) u i (Some new)) update new is))"

definition node_mem :: "bytes \<Rightarrow> bytes option \<Rightarrow> nat \<Rightarrow> int" where
  "node_mem key value level = int (32 + length key + length (nil_bytes value) + 8 * level)"

definition sl_Put :: "(nat \<Rightarrow> bool) \<Rightarrow> bytes \<Rightarrow> bytes option \<Rightarrow> SkipList \<Rightarrow> SkipList option" where
  "sl_Put coin key value sl =
     (case descend (sl_heap sl) key (sl_level sl) 0 (replicate MaxLevel None) of
        None \<Rightarrow> None
      | Some (pred, update) \<Rightarrow>
     (case fwd (sl_heap sl) pred 0 of
        None \<Rightarrow> None
      | Some current \<Rightarrow>
     (let insert =
       (case randomLevel coin (sl_rng sl) 1 of (level, n) \<Rightarrow>
          let update1 = (if sl_level sl < level
                         then fold (\<lambda>i upd. upd[i := Some 0]) [sl_level sl..<level] update
                         else update);
              new = length (sl_heap sl);
              h = sl_heap sl @ [\<lparr>n_key = key, n_value = value, n_forward = replicate level None\<rparr>]
          in case splice h update1 new [0..<level] of
               None \<Rightarrow> None
             | Some h' \<Rightarrow>
                 Some \<lparr>sl_heap = h', sl_level = max (sl_level sl) level, sl_size = sl_size sl + 1,
                       sl_memSize = sl_memSize sl + node_mem key value level, sl_rng = n\<rparr>)
      in case current of
           None \<Rightarrow> insert
         | Some c \<Rightarrow>
             let nd = sl_heap sl ! c in
             if n_key nd = key then
               Some (sl\<lparr>sl_heap := (sl_heap sl)[c := nd\<lparr>n_value := value\<rparr>],
                        sl_memSize := sl_memSize sl + int (length (nil_bytes value))
                                        - int (length (nil_bytes (n_value nd)))\<rparr>)
             else insert)))"

definition sl_Get :: "bytes \<Rightarrow> SkipList \<Rightarrow> bytes option option option" where
  "sl_Get key sl =
     (case descend (sl_heap sl) key (sl_level sl) 0 (replicate MaxLevel None) of
        None \<Rightarrow> None
      | Some (pred, _) \<Rightarrow>
     (case fwd (sl_heap sl) pred 0 of
        None \<Rightarrow> None
      | Some None \<Rightarrow> Some None
      | Some (Some c) \<Rightarrow>
          let nd = sl_heap sl ! c in
          Some (if n_key nd = key then Some (n_value nd) else None)))"

definition sl_Delete :: "(nat \<Rightarrow> bool) \<Rightarrow> bytes \<Rightarrow> SkipList \<Rightarrow> SkipList option" where
  "sl_Delete coin key sl = sl_Put coin key None sl"

definition sl_Contains :: "bytes \<Rightarrow> SkipList \<Rightarrow> bool option" where
  "sl_Contains key sl = map_option (\<lambda>r. r \<noteq> None) (sl_Get key sl)"

definition sl_Len :: "SkipList \<Rightarrow> int" where
  "sl_Len sl = sl_size sl"

definition sl_MemoryUsage :: "SkipList \<Rightarrow> int" where
  "sl_MemoryUsage sl = sl_memSize sl"

text \<open>The iterator's position: a node or nil.\<close>

type_synonym sl_iter = "nat option"

definition sl_Valid :: "sl_iter \<Rightarrow> bool" where
  "sl_Valid it = (it \<noteq> None)"

definition sl_entry :: "SkipList \<Rightarrow> nat \<Rightarrow> bytes \<times> bytes option" where
  "sl_entry sl p = (n_key (sl_heap sl ! p), n_value (sl_heap sl ! p))"

definition sl_SeekToFirst :: "SkipList \<Rightarrow> sl_iter option" where
  "sl_SeekToFirst sl = fwd (sl_heap sl) 0 0"

definition sl_Next :: "SkipList \<Rightarrow> sl_iter \<Rightarrow> sl_iter option" where
  "sl_Next sl it = (case it of None \<Rightarrow> Some None | Some p \<Rightarrow> fwd (sl_heap sl) p 0)"

definition sl_Seek :: "SkipList \<Rightarrow> bytes \<Rightarrow> sl_iter option" where
  "sl_Seek sl target =
     (case descend (sl_heap sl) target (sl_level sl) 0 (replicate MaxLevel None) of
        None \<Rightarrow> None
      | Some (pred, _) \<Rightarrow> fwd (sl_heap sl) pred 0)"

text \<open>The client loop \<^verbatim>\<open>for ; it.Valid(); it.Next()\<close> that collects the entries.\<close>

partial_function (option) sl_scan :: "SkipList \<Rightarrow> sl_iter \<Rightarrow> (bytes \<times> bytes option) list option" where
  [code]: "sl_scan sl it =
     (case it of
        None \<Rightarrow> Some []
      | Some p \<Rightarrow>
          (case sl_Next sl it of
             None \<Rightarrow> None
           | Some it' \<Rightarrow> do { es \<leftarrow> sl_scan sl it'; Some (sl_entry sl p # es) }))"

section \<open>Chains\<close>

text \<open>\<open>chain h i p qs\<close>: following the level-\<open>i\<close> pointers from \<open>p\<close> visits exactly \<open>qs\<close>, then nil.\<close>

fun chain :: "node_store \<Rightarrow> nat \<Rightarrow> nat \<Rightarrow> nat list \<Rightarrow> bool" where
  "chain h i p [] = (fwd h p i = Some None)"
| "chain h i p (q # qs) = (fwd h p i = Some (Some q) \<and> chain h i q qs)"

definition height :: "node_store \<Rightarrow> nat \<Rightarrow> nat" where
  "height h p = length (n_forward (h ! p))"

abbreviation at_level :: "node_store \<Rightarrow> nat \<Rightarrow> nat list \<Rightarrow> nat list" where
  "at_level h i ps \<equiv> filter (\<lambda>p. i < height h p) ps"

lemma chain_append:
  "chain h i p (xs @ ys) \<Longrightarrow> chain h i (last (p # xs)) ys"
  by (induction xs arbitrary: p) auto

lemma chain_cong:
  assumes "\<And>q. q \<in> set (p # ps) \<Longrightarrow> fwd h' q i = fwd h q i"
  shows "chain h' i p ps = chain h i p ps"
  using assms by (induction ps arbitrary: p) auto

lemma chain_insert:
  assumes "chain h i p (xs @ ys)" "distinct (p # xs @ ys)" "new \<notin> set (p # xs @ ys)"
    "\<And>q. q \<in> set (p # xs @ ys) \<Longrightarrow> q \<noteq> last (p # xs) \<Longrightarrow> fwd h' q i = fwd h q i"
    "fwd h' (last (p # xs)) i = Some (Some new)" "fwd h' new i = fwd h (last (p # xs)) i"
  shows "chain h' i p (xs @ new # ys)"
  using assms
proof (induction xs arbitrary: p)
  case Nil
  have "chain h' i new ys"
  proof (cases ys)
    case (Cons y ys')
    then have "chain h' i y ys' = chain h i y ys'" using Nil.prems by (intro chain_cong) auto
    then show ?thesis using Cons Nil.prems by simp
  qed (use Nil.prems in simp)
  then show ?case using Nil.prems by simp
next
  case (Cons x xs)
  have "last (x # xs) \<in> set (x # xs)" by (rule last_in_set) simp
  with Cons.prems have "p \<noteq> last (p # x # xs)" by auto
  with Cons show ?case by (auto split: if_splits)
qed

text \<open>The walk on one level: it passes the smaller keys and stops.\<close>

lemma advance_chain:
  assumes "chain h i p (xs @ ys)" "\<forall>q \<in> set xs. CompareKeys (n_key (h ! q)) key < 0"
    "\<forall>q \<in> set ys. 0 \<le> CompareKeys (n_key (h ! q)) key"
  shows "advance h i key p = Some (last (p # xs))"
  using assms
proof (induction xs arbitrary: p)
  case Nil
  then show ?case by (cases ys) (auto simp: advance.simps [of h i key p])
next
  case (Cons x xs)
  then show ?case by (auto simp: advance.simps [of h i key p])
qed

section \<open>The invariant\<close>

definition sl_layout :: "SkipList \<Rightarrow> nat list \<Rightarrow> bool" where
  "sl_layout sl L \<longleftrightarrow>
     distinct L \<and> set L = {1..<length (sl_heap sl)} \<and> sl_heap sl \<noteq> [] \<and>
     height (sl_heap sl) 0 = MaxLevel \<and> sl_level sl \<le> MaxLevel \<and>
     (\<forall>p \<in> set L. 0 < height (sl_heap sl) p \<and> height (sl_heap sl) p \<le> sl_level sl) \<and>
     (\<forall>i < MaxLevel. chain (sl_heap sl) i 0 (at_level (sl_heap sl) i L))"

definition sl_rep :: "SkipList \<Rightarrow> (bytes \<times> bytes option) list \<Rightarrow> bool" where
  "sl_rep sl xs \<longleftrightarrow>
     (\<exists>L. sl_layout sl L \<and> map (sl_entry sl) L = xs \<and> asc_by CompareKeys xs \<and>
        sl_size sl = int (length L) \<and>
        sl_memSize sl = (\<Sum>p\<leftarrow>L. node_mem (n_key (sl_heap sl ! p)) (n_value (sl_heap sl ! p))
                                       (height (sl_heap sl) p)))"

lemma NewSkipList_rep: "sl_rep NewSkipList []"
  unfolding sl_rep_def
  by (intro exI [of _ "[]"])
    (auto simp: sl_layout_def NewSkipList_def MaxLevel_def fwd_def height_def asc_by_def)

lemma randomLevel_bounds:
  "level \<le> MaxLevel \<Longrightarrow> level \<le> fst (randomLevel coin n level) \<and> fst (randomLevel coin n level) \<le> MaxLevel"
proof (induction coin n level rule: randomLevel.induct)
  case (1 coin n level)
  then show ?case by (subst (1 2) randomLevel.simps) auto
qed

section \<open>The search\<close>

lemma last_filter_split:
  assumes "\<And>x. P x \<Longrightarrow> Q x"
  shows "\<exists>A B. filter Q xs = A @ B \<and> last (a # A) = last (a # filter P xs)"
proof (induction xs rule: rev_induct)
  case (snoc x xs)
  then obtain A B where AB: "filter Q xs = A @ B" "last (a # A) = last (a # filter P xs)" by blast
  show ?case
  proof (cases "P x")
    case True
    then show ?thesis using assms by (intro exI [of _ "filter Q (xs @ [x])"] exI [of _ "[]"]) simp
  next
    case False
    then show ?thesis using AB by (intro exI [of _ A] exI [of _ "B @ filter Q [x]"]) simp
  qed
qed simp

abbreviation sl_pred :: "node_store \<Rightarrow> nat list \<Rightarrow> nat \<Rightarrow> nat" where
  "sl_pred h Ls i \<equiv> last (0 # at_level h i Ls)"

abbreviation splits_at :: "node_store \<Rightarrow> bytes \<Rightarrow> nat list \<Rightarrow> nat list \<Rightarrow> bool" where
  "splits_at h key Ls Lg \<equiv>
     (\<forall>q \<in> set Ls. CompareKeys (n_key (h ! q)) key < 0) \<and>
     (\<forall>q \<in> set Lg. 0 \<le> CompareKeys (n_key (h ! q)) key)"

lemma advance_pred:
  assumes "chain h i 0 (at_level h i (Ls @ Lg))" "splits_at h key Ls Lg"
  shows "advance h i key (sl_pred h Ls (Suc i)) = Some (sl_pred h Ls i)"
proof -
  obtain A B where AB: "at_level h i Ls = A @ B" "last (0 # A) = sl_pred h Ls (Suc i)"
    using last_filter_split [of "\<lambda>p. Suc i < height h p" "\<lambda>p. i < height h p" Ls 0] by auto
  have "chain h i 0 (A @ B @ at_level h i Lg)" using assms(1) AB by simp
  then have c: "chain h i (last (0 # A)) (B @ at_level h i Lg)" by (rule chain_append)
  have "set B \<subseteq> set Ls" using AB(1) by (metis Un_iff filter_is_subset set_append subset_iff)
  then have "advance h i key (last (0 # A)) = Some (last (last (0 # A) # B))"
    using assms(2) by (intro advance_chain [OF c]) auto
  then show ?thesis using AB by auto
qed

lemma descend_pred:
  assumes "\<forall>i < n. chain h i 0 (at_level h i (Ls @ Lg))" "splits_at h key Ls Lg" "n \<le> length upd"
  shows "\<exists>upd'. descend h key n (sl_pred h Ls n) upd = Some (sl_pred h Ls 0, upd') \<and>
    length upd' = length upd \<and>
    (\<forall>j < length upd. upd' ! j = (if j < n then Some (sl_pred h Ls j) else upd ! j))"
  using assms
proof (induction n arbitrary: upd)
  case (Suc n)
  have adv: "advance h n key (sl_pred h Ls (Suc n)) = Some (sl_pred h Ls n)"
    using Suc.prems by (intro advance_pred) auto
  from Suc.IH [of "upd[n := Some (sl_pred h Ls n)]"] Suc.prems obtain upd' where
    u: "descend h key n (sl_pred h Ls n) (upd[n := Some (sl_pred h Ls n)]) = Some (sl_pred h Ls 0, upd')"
      "length upd' = length upd"
      "\<forall>j < length upd. upd' ! j = (if j < n then Some (sl_pred h Ls j) else upd[n := Some (sl_pred h Ls n)] ! j)"
    by auto
  have "descend h key (Suc n) (sl_pred h Ls (Suc n)) upd = Some (sl_pred h Ls 0, upd')"
    by (simp only: descend.simps adv option.case u(1))
  with u(2,3) Suc.prems(3) show ?case by (auto simp: nth_list_update less_Suc_eq)
qed auto

lemma layout_chain:
  "sl_layout sl L \<Longrightarrow> i < MaxLevel \<Longrightarrow> chain (sl_heap sl) i 0 (at_level (sl_heap sl) i L)"
  by (simp add: sl_layout_def)

lemma layout_at_0: "sl_layout sl L \<Longrightarrow> set xs \<subseteq> set L \<Longrightarrow> at_level (sl_heap sl) 0 xs = xs"
  by (auto simp: sl_layout_def intro!: filter_True)

lemma sl_entry_sel [simp]:
  "fst (sl_entry sl p) = n_key (sl_heap sl ! p)" "snd (sl_entry sl p) = n_value (sl_heap sl ! p)"
  by (simp_all add: sl_entry_def)

lemma asc_split:
  assumes "asc_by CompareKeys (map (sl_entry sl) L)"
  shows "\<exists>Ls Lg. L = Ls @ Lg \<and> splits_at (sl_heap sl) key Ls Lg"
  using assms
proof (induction L)
  case (Cons p L)
  then have asc: "\<forall>q \<in> set L. CompareKeys (n_key (sl_heap sl ! p)) (n_key (sl_heap sl ! q)) < 0"
    and "asc_by CompareKeys (map (sl_entry sl) L)"
    by (simp_all add: ck.asc_by_Cons)
  then obtain Ls Lg where IH: "L = Ls @ Lg" "splits_at (sl_heap sl) key Ls Lg" using Cons.IH by blast
  show ?case
  proof (cases "CompareKeys (n_key (sl_heap sl ! p)) key < 0")
    case True
    with IH show ?thesis by (intro exI [of _ "p # Ls"] exI [of _ Lg]) auto
  next
    case False
    then have "\<forall>q \<in> set L. 0 \<le> CompareKeys (n_key (sl_heap sl ! q)) key"
      using asc by (metis ck.cmp_trans not_less)
    with False IH show ?thesis by (intro exI [of _ "[]"] exI [of _ "p # L"]) auto
  qed
qed simp

lemma search_layout:
  assumes lay: "sl_layout sl (Ls @ Lg)" and sp: "splits_at (sl_heap sl) key Ls Lg"
  shows "\<exists>upd. descend (sl_heap sl) key (sl_level sl) 0 (replicate MaxLevel None) = Some (last (0 # Ls), upd) \<and>
    length upd = MaxLevel \<and> (\<forall>j < sl_level sl. upd ! j = Some (sl_pred (sl_heap sl) Ls j)) \<and>
    fwd (sl_heap sl) (last (0 # Ls)) 0 = Some (case Lg of [] \<Rightarrow> None | q # _ \<Rightarrow> Some q)"
proof -
  let ?h = "sl_heap sl"
  have lv: "sl_level sl \<le> MaxLevel" using lay by (simp add: sl_layout_def)
  have top: "at_level ?h (sl_level sl) Ls = []"
    using lay by (auto simp: sl_layout_def filter_empty_conv not_less)
  have bot: "at_level ?h 0 Ls = Ls" "at_level ?h 0 Lg = Lg" using layout_at_0 [OF lay] by auto
  have ch: "\<forall>i < sl_level sl. chain ?h i 0 (at_level ?h i (Ls @ Lg))"
    using layout_chain [OF lay] lv by simp
  obtain upd where d: "descend ?h key (sl_level sl) (sl_pred ?h Ls (sl_level sl)) (replicate MaxLevel None) =
      Some (sl_pred ?h Ls 0, upd)" "length upd = MaxLevel"
      "\<forall>j < MaxLevel. upd ! j = (if j < sl_level sl then Some (sl_pred ?h Ls j) else replicate MaxLevel None ! j)"
    using descend_pred [OF ch sp, of "replicate MaxLevel None"] lv by auto
  have "chain ?h 0 0 (Ls @ Lg)"
    using layout_chain [OF lay, of 0] bot by (simp add: MaxLevel_def)
  then have "chain ?h 0 (last (0 # Ls)) Lg" by (rule chain_append)
  then have "fwd ?h (last (0 # Ls)) 0 = Some (case Lg of [] \<Rightarrow> None | q # _ \<Rightarrow> Some q)"
    by (cases Lg) auto
  then show ?thesis using d lv by (auto simp: top bot)
qed

section \<open>Lookup and iteration\<close>

lemma dropWhile_splits:
  "splits_at (sl_heap sl) key Ls Lg \<Longrightarrow>
     dropWhile (\<lambda>p. CompareKeys (fst p) key < 0) (map (sl_entry sl) (Ls @ Lg)) = map (sl_entry sl) Lg"
  by (cases Lg) (simp_all add: dropWhile_append)

lemma map_of_split:
  assumes "splits_at (sl_heap sl) key Ls Lg" "asc_by CompareKeys (map (sl_entry sl) (Ls @ Lg))"
  shows "map_of (map (sl_entry sl) (Ls @ Lg)) key =
    (case Lg of [] \<Rightarrow> None | q # _ \<Rightarrow> if n_key (sl_heap sl ! q) = key then Some (n_value (sl_heap sl ! q)) else None)"
  unfolding ck.map_of_dropWhile [OF assms(2), of key] dropWhile_splits [OF assms(1)]
  by (cases Lg) simp_all

lemma sl_Get_rep:
  assumes "sl_rep sl xs"
  shows "sl_Get key sl = Some (map_of xs key)"
proof -
  obtain L where L: "sl_layout sl L" "map (sl_entry sl) L = xs" "asc_by CompareKeys xs"
    using assms by (auto simp: sl_rep_def)
  obtain Ls Lg where sp: "L = Ls @ Lg" "splits_at (sl_heap sl) key Ls Lg"
    using asc_split [of sl L key] L(2,3) by auto
  obtain upd where "descend (sl_heap sl) key (sl_level sl) 0 (replicate MaxLevel None) = Some (last (0 # Ls), upd)"
    "fwd (sl_heap sl) (last (0 # Ls)) 0 = Some (case Lg of [] \<Rightarrow> None | q # _ \<Rightarrow> Some q)"
    using search_layout [of sl Ls Lg key] L(1) sp by blast
  moreover have "map_of xs key =
    (case Lg of [] \<Rightarrow> None | q # _ \<Rightarrow> if n_key (sl_heap sl ! q) = key then Some (n_value (sl_heap sl ! q)) else None)"
    unfolding L(2) [symmetric] sp(1) by (rule map_of_split [OF sp(2)]) (use L sp(1) in simp)
  ultimately show ?thesis by (cases Lg) (simp_all add: sl_Get_def Let_def)
qed

lemma sl_scan_chain:
  "chain (sl_heap sl) 0 p qs \<Longrightarrow> sl_scan sl (Some p) = Some (map (sl_entry sl) (p # qs))"
proof (induction qs arbitrary: p)
  case Nil
  then show ?case
    by (subst sl_scan.simps) (simp add: sl_Next_def sl_scan.simps [of sl None])
next
  case (Cons q qs)
  then show ?case by (subst sl_scan.simps) (simp add: sl_Next_def)
qed

lemma sl_Seek_rep:
  assumes "sl_rep sl xs"
  shows "\<exists>it. sl_Seek sl target = Some it \<and>
    sl_scan sl it = Some (dropWhile (\<lambda>p. CompareKeys (fst p) target < 0) xs)"
proof -
  obtain L where L: "sl_layout sl L" "map (sl_entry sl) L = xs" "asc_by CompareKeys xs"
    using assms by (auto simp: sl_rep_def)
  obtain Ls Lg where sp: "L = Ls @ Lg" "splits_at (sl_heap sl) target Ls Lg"
    using asc_split [of sl L target] L(2,3) by auto
  obtain upd where d: "descend (sl_heap sl) target (sl_level sl) 0 (replicate MaxLevel None) = Some (last (0 # Ls), upd)"
    "fwd (sl_heap sl) (last (0 # Ls)) 0 = Some (case Lg of [] \<Rightarrow> None | q # _ \<Rightarrow> Some q)"
    using search_layout [of sl Ls Lg target] L(1) sp by blast
  have "dropWhile (\<lambda>p. CompareKeys (fst p) target < 0) xs = map (sl_entry sl) Lg"
    using dropWhile_splits [OF sp(2)] sp(1) L(2) by simp
  moreover have "chain (sl_heap sl) 0 0 (Ls @ Lg)"
    using layout_chain [OF L(1), of 0] layout_at_0 [OF L(1), of L] sp by (simp add: MaxLevel_def)
  then have "chain (sl_heap sl) 0 (last (0 # Ls)) Lg" by (rule chain_append)
  then have "sl_scan sl (case Lg of [] \<Rightarrow> None | q # _ \<Rightarrow> Some q) = Some (map (sl_entry sl) Lg)"
    by (cases Lg) (auto simp: sl_scan_chain sl_scan.simps [of sl None])
  ultimately show ?thesis using d by (simp add: sl_Seek_def)
qed

lemma sl_SeekToFirst_rep:
  assumes "sl_rep sl xs"
  shows "\<exists>it. sl_SeekToFirst sl = Some it \<and> sl_scan sl it = Some xs"
proof -
  obtain L where L: "sl_layout sl L" "map (sl_entry sl) L = xs"
    using assms by (auto simp: sl_rep_def)
  have "chain (sl_heap sl) 0 0 L"
    using layout_chain [OF L(1), of 0] layout_at_0 [OF L(1), of L] by (simp add: MaxLevel_def)
  then show ?thesis
    using L(2) by (cases L) (auto simp: sl_SeekToFirst_def sl_scan_chain sl_scan.simps [of sl None])
qed

section \<open>Insertion\<close>

lemma set_fwd_keeps:
  "length (set_fwd h p i x) = length h"
  "q < length h \<Longrightarrow> n_key (set_fwd h p i x ! q) = n_key (h ! q)"
  "q < length h \<Longrightarrow> n_value (set_fwd h p i x ! q) = n_value (h ! q)"
  "q < length h \<Longrightarrow> height (set_fwd h p i x) q = height h q"
  by (cases "q = p"; simp add: set_fwd_def height_def)+

lemma fwd_set_fwd:
  "p < length h \<Longrightarrow> i < height h p \<Longrightarrow>
     fwd (set_fwd h p i x) q j = (if q = p \<and> j = i then Some x else fwd h q j)"
  by (auto simp: set_fwd_def fwd_def height_def nth_list_update)

definition same_nodes :: "node_store \<Rightarrow> node_store \<Rightarrow> bool" where
  "same_nodes h h' \<longleftrightarrow> length h' = length h \<and>
     (\<forall>q < length h. n_key (h' ! q) = n_key (h ! q) \<and> n_value (h' ! q) = n_value (h ! q) \<and>
        height h' q = height h q)"

lemma same_nodes_set_fwd: "same_nodes h (set_fwd h p i x)"
  by (simp add: same_nodes_def set_fwd_keeps)

lemma same_nodes_trans: "same_nodes h h1 \<Longrightarrow> same_nodes h1 h2 \<Longrightarrow> same_nodes h h2"
  by (simp add: same_nodes_def)

lemma splice_ok:
  assumes "new < length h" "distinct is"
    "\<And>i. i \<in> set is \<Longrightarrow> i < height h new \<and> upd ! i = Some (pr i) \<and> pr i < length h \<and>
       pr i \<noteq> new \<and> i < height h (pr i)"
  shows "\<exists>h'. splice h upd new is = Some h' \<and> same_nodes h h' \<and>
    (\<forall>p j. fwd h' p j = (if j \<in> set is \<and> p = new then fwd h (pr j) j
                         else if j \<in> set is \<and> p = pr j then Some (Some new) else fwd h p j))"
  using assms
proof (induction "is" arbitrary: h)
  case Nil
  then show ?case by (simp add: same_nodes_def)
next
  case (Cons i "is")
  from Cons.prems(3) [of i] have i: "i < height h new" "upd ! i = Some (pr i)" "pr i < length h"
    "pr i \<noteq> new" "i < height h (pr i)" by simp_all
  define nx where "nx = n_forward (h ! pr i) ! i"
  define h2 where "h2 = set_fwd (set_fwd h new i nx) (pr i) i (Some new)"
  have fw: "fwd h (pr i) i = Some nx" using i by (simp add: fwd_def nx_def height_def)
  have same: "same_nodes h h2"
    unfolding h2_def by (rule same_nodes_trans [OF same_nodes_set_fwd same_nodes_set_fwd])
  have fw2: "fwd h2 q j = (if q = pr i \<and> j = i then Some (Some new) else if q = new \<and> j = i then Some nx
      else fwd h q j)" for q j
    unfolding h2_def using i Cons.prems(1) by (simp add: fwd_set_fwd set_fwd_keeps)
  have "\<exists>h'. splice h2 upd new is = Some h' \<and> same_nodes h2 h' \<and>
    (\<forall>p j. fwd h' p j = (if j \<in> set is \<and> p = new then fwd h2 (pr j) j
                         else if j \<in> set is \<and> p = pr j then Some (Some new) else fwd h2 p j))"
    using Cons.prems same by (intro Cons.IH) (auto simp: same_nodes_def)
  then obtain h' where h': "splice h2 upd new is = Some h'" "same_nodes h2 h'"
    "\<And>p j. fwd h' p j = (if j \<in> set is \<and> p = new then fwd h2 (pr j) j
       else if j \<in> set is \<and> p = pr j then Some (Some new) else fwd h2 p j)" by blast
  have "splice h upd new (i # is) = Some h'" using i(2) fw h'(1) by (simp add: h2_def)
  moreover have "fwd h' p j = (if j \<in> set (i # is) \<and> p = new then fwd h (pr j) j
       else if j \<in> set (i # is) \<and> p = pr j then Some (Some new) else fwd h p j)" for p j
    using Cons.prems(2) i(4) fw by (auto simp: h'(3) fw2)
  ultimately show ?case using same_nodes_trans [OF same h'(2)] by blast
qed

lemma fold_update_heads:
  "j < length upd \<Longrightarrow>
     fold (\<lambda>i upd. upd[i := Some (0::nat)]) is upd ! j = (if j \<in> set is then Some 0 else upd ! j)"
  by (induction "is" arbitrary: upd) (auto simp: nth_list_update)

lemma layout_lt: "sl_layout sl L \<Longrightarrow> p \<in> set (0 # L) \<Longrightarrow> p < length (sl_heap sl)"
  by (auto simp: sl_layout_def)

lemma layout_distinct: "sl_layout sl L \<Longrightarrow> distinct (0 # L)"
  by (auto simp: sl_layout_def)

lemma sl_pred_in:
  "sl_pred h Ls i = 0 \<or> sl_pred h Ls i \<in> set Ls \<and> i < height h (sl_pred h Ls i)"
proof (cases "at_level h i Ls = []")
  case False
  then have "last (at_level h i Ls) \<in> set (at_level h i Ls)" by (rule last_in_set)
  with False show ?thesis by auto
qed simp

text \<open>A new node on the first \<open>lv\<close> levels, spliced in between \<open>Ls\<close> and \<open>Lg\<close>.\<close>

lemma splice_layout:
  assumes lay: "sl_layout sl (Ls @ Lg)" and lv: "0 < lv" "lv \<le> MaxLevel"
    and upd: "\<And>i. i < lv \<Longrightarrow> upd ! i = Some (sl_pred (sl_heap sl) Ls i)"
    and h: "h = sl_heap sl @ [\<lparr>n_key = key, n_value = value, n_forward = replicate lv None\<rparr>]"
  shows "\<exists>h'. splice h upd (length (sl_heap sl)) [0..<lv] = Some h' \<and> same_nodes h h' \<and>
    (\<forall>sl'. sl_heap sl' = h' \<longrightarrow> sl_level sl' = max (sl_level sl) lv \<longrightarrow>
       sl_layout sl' (Ls @ length (sl_heap sl) # Lg))"
proof -
  let ?H = "sl_heap sl" and ?new = "length (sl_heap sl)"
  define pr where "pr i = sl_pred (sl_heap sl) Ls i" for i
  have ht: "height h p = height ?H p" if "p < ?new" for p using that h by (simp add: height_def nth_append)
  have fw: "fwd h p i = fwd ?H p i" if "p < ?new" for p i using that h by (simp add: fwd_def nth_append)
  have new: "height h ?new = lv" using h by (simp add: height_def)
  have pr: "pr i < ?new \<and> (i < MaxLevel \<longrightarrow> i < height ?H (pr i))" for i
    using sl_pred_in [where h = ?H and Ls = Ls and i = i] layout_lt [OF lay, of "pr i"] lay
    by (auto simp: sl_layout_def pr_def simp del: last.simps)
  have "\<exists>h'. splice h upd ?new [0..<lv] = Some h' \<and> same_nodes h h' \<and>
    (\<forall>p j. fwd h' p j = (if j \<in> set [0..<lv] \<and> p = ?new then fwd h (pr j) j
                         else if j \<in> set [0..<lv] \<and> p = pr j then Some (Some ?new) else fwd h p j))"
  proof (intro splice_ok)
    fix i assume "i \<in> set [0..<lv]"
    then show "i < height h ?new \<and> upd ! i = Some (pr i) \<and> pr i < length h \<and> pr i \<noteq> ?new \<and> i < height h (pr i)"
      using pr [of i] upd [of i, folded pr_def] lv new ht [of "pr i"] by (simp add: h)
  qed (simp_all add: h)
  then obtain h' where h': "splice h upd ?new [0..<lv] = Some h'" "same_nodes h h'"
    "\<And>p j. fwd h' p j = (if j < lv \<and> p = ?new then fwd h (pr j) j
        else if j < lv \<and> p = pr j then Some (Some ?new) else fwd h p j)" by auto
  have ht': "height h' p = (if p = ?new then lv else height ?H p)" if "p \<le> ?new" for p
    using h'(2) that new ht [of p] by (auto simp: same_nodes_def h)
  have lt: "p < ?new" if "p \<in> set (0 # Ls @ Lg)" for p using layout_lt [OF lay that] .
  have at: "at_level h' i xs = at_level ?H i xs" if "set xs \<subseteq> set (Ls @ Lg)" for i xs
    using that lt ht' by (intro filter_cong) (auto simp: less_imp_le less_imp_neq)
  have ch: "chain h' i 0 (at_level h' i (Ls @ ?new # Lg))" if i: "i < MaxLevel" for i
  proof -
    have old: "chain ?H i 0 (at_level ?H i Ls @ at_level ?H i Lg)"
      using layout_chain [OF lay i] by simp
    have sub: "set (0 # at_level ?H i Ls @ at_level ?H i Lg) \<subseteq> set (0 # Ls @ Lg)" by auto
    show ?thesis
    proof (cases "i < lv")
      case True
      have "distinct (0 # at_level ?H i Ls @ at_level ?H i Lg)"
        using layout_distinct [OF lay] by auto
      then have "chain h' i 0 (at_level ?H i Ls @ ?new # at_level ?H i Lg)"
        using sub lt pr [of i] True
        by (intro chain_insert [OF old]) (auto simp: h'(3) fw less_imp_neq pr_def [symmetric] simp del: last.simps)
      then show ?thesis using True at by (simp add: ht')
    next
      case False
      have "chain h' i 0 (at_level ?H i Ls @ at_level ?H i Lg) = chain ?H i 0 (at_level ?H i Ls @ at_level ?H i Lg)"
      proof (rule chain_cong)
        fix q assume "q \<in> set (0 # at_level ?H i Ls @ at_level ?H i Lg)"
        then have "q < ?new" using sub lt by blast
        then show "fwd h' q i = fwd ?H q i" using False by (simp add: h'(3) fw)
      qed
      then show ?thesis using False at old by (simp add: ht')
    qed
  qed
  have "sl_layout sl' (Ls @ ?new # Lg)"
    if sl': "sl_heap sl' = h'" "sl_level sl' = max (sl_level sl) lv" for sl'
  proof -
    have len: "length h' = Suc ?new" using h'(2) by (simp add: same_nodes_def h)
    have "?H \<noteq> []" "sl_level sl \<le> MaxLevel" and L: "distinct (Ls @ Lg)" "set (Ls @ Lg) = {1..<?new}"
      and hts: "\<forall>p \<in> set (Ls @ Lg). 0 < height ?H p \<and> height ?H p \<le> sl_level sl"
      and hd: "height ?H 0 = MaxLevel" using lay by (auto simp: sl_layout_def)
    then have "set (Ls @ ?new # Lg) = {1..<Suc ?new}" "distinct (Ls @ ?new # Lg)"
      "height h' 0 = MaxLevel" using ht' [of 0] by (auto simp: Suc_leI)
    moreover have "\<forall>p \<in> set (Ls @ ?new # Lg). 0 < height h' p \<and> height h' p \<le> max (sl_level sl) lv"
    proof
      fix p assume p: "p \<in> set (Ls @ ?new # Lg)"
      show "0 < height h' p \<and> height h' p \<le> max (sl_level sl) lv"
      proof (cases "p = ?new")
        case False
        with p have "p \<in> set (Ls @ Lg)" by auto
        with False lt [of p] ht' [of p] hts show ?thesis by (simp add: le_max_iff_disj)
      qed (use ht' lv in simp)
    qed
    ultimately show ?thesis
      using sl' len ch lv \<open>sl_level sl \<le> MaxLevel\<close> by (auto simp: sl_layout_def)
  qed
  with h' show ?thesis by blast
qed

abbreviation mem_of :: "node_store \<Rightarrow> nat \<Rightarrow> int" where
  "mem_of h p \<equiv> node_mem (n_key (h ! p)) (n_value (h ! p)) (height h p)"

text \<open>The insertion branch of \<^verbatim>\<open>Put\<close>.\<close>

lemma insert_rep:
  assumes lay: "sl_layout sl (Ls @ Lg)" and sp: "splits_at (sl_heap sl) key Ls Lg"
    and asc: "asc_by CompareKeys (map (sl_entry sl) (Ls @ Lg))"
    and fresh: "\<forall>q \<in> set Lg. n_key (sl_heap sl ! q) \<noteq> key"
    and size: "sl_size sl = int (length (Ls @ Lg))"
    and mem: "sl_memSize sl = (\<Sum>p\<leftarrow>Ls @ Lg. mem_of (sl_heap sl) p)"
    and lv: "0 < lv" "lv \<le> MaxLevel"
    and upd: "\<And>i. i < lv \<Longrightarrow> upd ! i = Some (sl_pred (sl_heap sl) Ls i)"
  shows "\<exists>h'. splice (sl_heap sl @ [\<lparr>n_key = key, n_value = value, n_forward = replicate lv None\<rparr>]) upd
      (length (sl_heap sl)) [0..<lv] = Some h' \<and>
    sl_rep \<lparr>sl_heap = h', sl_level = max (sl_level sl) lv, sl_size = sl_size sl + 1,
            sl_memSize = sl_memSize sl + node_mem key value lv, sl_rng = n\<rparr>
      (upd_by CompareKeys key value (map (sl_entry sl) (Ls @ Lg)))"
proof -
  let ?new = "length (sl_heap sl)"
  let ?h = "sl_heap sl @ [\<lparr>n_key = key, n_value = value, n_forward = replicate lv None\<rparr>]"
  obtain h' where h': "splice ?h upd ?new [0..<lv] = Some h'" "same_nodes ?h h'"
    "\<And>sl'. sl_heap sl' = h' \<Longrightarrow> sl_level sl' = max (sl_level sl) lv \<Longrightarrow> sl_layout sl' (Ls @ ?new # Lg)"
    using splice_layout [OF lay lv upd refl] by blast
  let ?sl = "\<lparr>sl_heap = h', sl_level = max (sl_level sl) lv, sl_size = sl_size sl + 1,
     sl_memSize = sl_memSize sl + node_mem key value lv, sl_rng = n\<rparr>"
  have old: "n_key (h' ! p) = n_key (sl_heap sl ! p)" "n_value (h' ! p) = n_value (sl_heap sl ! p)"
    "height h' p = height (sl_heap sl) p" if "p \<in> set (Ls @ Lg)" for p
    using h'(2) layout_lt [OF lay, of p] that by (auto simp: same_nodes_def height_def nth_append)
  have new: "n_key (h' ! ?new) = key" "n_value (h' ! ?new) = value" "height h' ?new = lv"
    using h'(2) by (auto simp: same_nodes_def height_def)
  have ents: "map (sl_entry ?sl) (Ls @ ?new # Lg) = upd_by CompareKeys key value (map (sl_entry sl) (Ls @ Lg))"
  proof -
    have "upd_by CompareKeys key value (map (sl_entry sl) Lg) = (key, value) # map (sl_entry sl) Lg"
      using sp fresh by (cases Lg) auto
    moreover have "upd_by CompareKeys key value (map (sl_entry sl) Ls @ map (sl_entry sl) Lg) =
      map (sl_entry sl) Ls @ upd_by CompareKeys key value (map (sl_entry sl) Lg)"
      using sp by (intro ck.upd_by_append) auto
    ultimately show ?thesis using old new by (simp add: sl_entry_def)
  qed
  have "(\<Sum>p\<leftarrow>Ls @ ?new # Lg. mem_of h' p) = (\<Sum>p\<leftarrow>Ls @ Lg. mem_of (sl_heap sl) p) + node_mem key value lv"
  proof -
    have "(\<Sum>p\<leftarrow>xs. mem_of h' p) = (\<Sum>p\<leftarrow>xs. mem_of (sl_heap sl) p)" if "set xs \<subseteq> set (Ls @ Lg)" for xs
      using that by (intro arg_cong [where f = sum_list] map_cong) (auto simp: old)
    from this [of Ls] this [of Lg] show ?thesis using new by simp
  qed
  moreover have "asc_by CompareKeys (map (sl_entry ?sl) (Ls @ ?new # Lg))"
    unfolding ents by (rule ck.asc_by_upd_by [OF asc])
  moreover have "sl_layout ?sl (Ls @ ?new # Lg)" by (rule h'(3)) simp_all
  ultimately have "sl_rep ?sl (upd_by CompareKeys key value (map (sl_entry sl) (Ls @ Lg)))"
    unfolding sl_rep_def using size mem ents
    by (intro exI [of _ "Ls @ ?new # Lg"]) simp
  with h'(1) show ?thesis by blast
qed

text \<open>The overwrite branch of \<^verbatim>\<open>Put\<close>.\<close>

lemma overwrite_layout:
  assumes "sl_layout sl L" "sl_heap sl' = (sl_heap sl)[c := (sl_heap sl ! c)\<lparr>n_value := v\<rparr>]"
    "sl_level sl' = sl_level sl"
  shows "sl_layout sl' L"
proof -
  have fw: "fwd (sl_heap sl') p i = fwd (sl_heap sl) p i" for p i
    using assms(2) by (cases "p = c") (auto simp: fwd_def)
  have ht: "height (sl_heap sl') p = height (sl_heap sl) p" if "p < length (sl_heap sl)" for p
    using assms(2) that by (cases "p = c") (auto simp: height_def)
  have "at_level (sl_heap sl') i L = at_level (sl_heap sl) i L" for i
    using ht layout_lt [OF assms(1)] by (intro filter_cong) auto
  moreover have "chain (sl_heap sl') i p ps = chain (sl_heap sl) i p ps" for i p ps
    by (rule chain_cong) (simp add: fw)
  ultimately show ?thesis
    using assms ht layout_lt [OF assms(1)] by (auto simp: sl_layout_def)
qed

lemma overwrite_rep:
  assumes lay: "sl_layout sl (Ls @ c # Lg)" and sp: "splits_at (sl_heap sl) key Ls (c # Lg)"
    and asc: "asc_by CompareKeys (map (sl_entry sl) (Ls @ c # Lg))"
    and key: "n_key (sl_heap sl ! c) = key"
    and size: "sl_size sl = int (length (Ls @ c # Lg))"
    and mem: "sl_memSize sl = (\<Sum>p\<leftarrow>Ls @ c # Lg. mem_of (sl_heap sl) p)"
  shows "sl_rep (sl\<lparr>sl_heap := (sl_heap sl)[c := (sl_heap sl ! c)\<lparr>n_value := value\<rparr>],
            sl_memSize := sl_memSize sl + int (length (nil_bytes value))
                            - int (length (nil_bytes (n_value (sl_heap sl ! c))))\<rparr>)
      (upd_by CompareKeys key value (map (sl_entry sl) (Ls @ c # Lg)))"
    (is "sl_rep ?sl ?xs")
proof -
  let ?h = "(sl_heap sl)[c := (sl_heap sl ! c)\<lparr>n_value := value\<rparr>]"
  have c: "c < length (sl_heap sl)" "c \<notin> set Ls" "c \<notin> set Lg"
    using layout_lt [OF lay, of c] layout_distinct [OF lay] by auto
  have oth: "p \<in> set (Ls @ Lg) \<Longrightarrow> ?h ! p = sl_heap sl ! p" for p using c by (cases "p = c") auto
  have "upd_by CompareKeys key value (map (sl_entry sl) Ls @ map (sl_entry sl) (c # Lg)) =
      map (sl_entry sl) Ls @ upd_by CompareKeys key value (map (sl_entry sl) (c # Lg))"
    using sp by (intro ck.upd_by_append) auto
  then have ents: "map (sl_entry ?sl) (Ls @ c # Lg) = ?xs"
    using c key oth by (auto simp: sl_entry_def ck.cmp_irrefl)
  have eqs: "(\<Sum>p\<leftarrow>xs. mem_of ?h p) = (\<Sum>p\<leftarrow>xs. mem_of (sl_heap sl) p)" if "set xs \<subseteq> set (Ls @ Lg)" for xs
    using that by (intro arg_cong [where f = sum_list] map_cong) (auto simp: oth height_def)
  have "(\<Sum>p\<leftarrow>Ls @ c # Lg. mem_of ?h p) = (\<Sum>p\<leftarrow>Ls @ c # Lg. mem_of (sl_heap sl) p) +
      int (length (nil_bytes value)) - int (length (nil_bytes (n_value (sl_heap sl ! c))))"
    using c key eqs [of Ls] eqs [of Lg] by (simp add: height_def node_mem_def)
  moreover have "asc_by CompareKeys ?xs" by (rule ck.asc_by_upd_by [OF asc])
  moreover have "sl_layout ?sl (Ls @ c # Lg)" by (rule overwrite_layout [OF lay]) simp_all
  ultimately show ?thesis
    unfolding sl_rep_def using size mem ents by (intro exI [of _ "Ls @ c # Lg"]) simp
qed

text \<open>Both branches of \<^verbatim>\<open>Put\<close> refine the update of the association list.\<close>

lemma sl_Put_rep:
  assumes "sl_rep sl xs"
  shows "\<exists>sl'. sl_Put coin key value sl = Some sl' \<and> sl_rep sl' (upd_by CompareKeys key value xs)"
proof -
  obtain L where L: "sl_layout sl L" "map (sl_entry sl) L = xs" "asc_by CompareKeys xs"
      "sl_size sl = int (length L)" "sl_memSize sl = (\<Sum>p\<leftarrow>L. mem_of (sl_heap sl) p)"
    using assms unfolding sl_rep_def by blast
  obtain Ls Lg where sp: "L = Ls @ Lg" "splits_at (sl_heap sl) key Ls Lg"
    using asc_split [of sl L key] L(2,3) by auto
  obtain upd where d: "descend (sl_heap sl) key (sl_level sl) 0 (replicate MaxLevel None) = Some (last (0 # Ls), upd)"
    "length upd = MaxLevel" "\<forall>j < sl_level sl. upd ! j = Some (sl_pred (sl_heap sl) Ls j)"
    "fwd (sl_heap sl) (last (0 # Ls)) 0 = Some (case Lg of [] \<Rightarrow> None | q # _ \<Rightarrow> Some q)"
    using search_layout [of sl Ls Lg key] L(1) sp by blast
  show ?thesis
  proof (cases "\<exists>c Lg'. Lg = c # Lg' \<and> n_key (sl_heap sl ! c) = key")
    case True
    then obtain c Lg' where c: "Lg = c # Lg'" "n_key (sl_heap sl ! c) = key" by blast
    have "sl_rep (sl\<lparr>sl_heap := (sl_heap sl)[c := (sl_heap sl ! c)\<lparr>n_value := value\<rparr>],
            sl_memSize := sl_memSize sl + int (length (nil_bytes value))
                            - int (length (nil_bytes (n_value (sl_heap sl ! c))))\<rparr>)
        (upd_by CompareKeys key value xs)"
      using overwrite_rep [of sl Ls c Lg' key "value"] L sp(2) unfolding sp(1) c(1) using c(2) by blast
    then show ?thesis
      using c d(1,4) by (simp add: sl_Put_def Let_def del: last.simps)
  next
    case False
    obtain lv n where rl: "randomLevel coin (sl_rng sl) 1 = (lv, n)" by (cases "randomLevel coin (sl_rng sl) 1")
    have lv: "0 < lv" "lv \<le> MaxLevel"
      using randomLevel_bounds [of 1 coin "sl_rng sl"] rl by (auto simp: MaxLevel_def)
    define upd1 where "upd1 = (if sl_level sl < lv
      then fold (\<lambda>i upd. upd[i := Some 0]) [sl_level sl..<lv] upd else upd)"
    have hi: "at_level (sl_heap sl) i Ls = []" if "sl_level sl \<le> i" for i
    proof -
      have "\<forall>p \<in> set L. height (sl_heap sl) p \<le> sl_level sl" using L(1) unfolding sl_layout_def by blast
      then have "\<forall>p \<in> set Ls. height (sl_heap sl) p \<le> sl_level sl" unfolding sp(1) by simp
      then have "\<forall>p \<in> set Ls. \<not> i < height (sl_heap sl) p"
        using that by (metis le_trans not_less)
      then show ?thesis by (simp add: filter_empty_conv)
    qed
    have upd1: "upd1 ! i = Some (sl_pred (sl_heap sl) Ls i)" if "i < lv" for i
      using that d(2,3) lv hi [of i] by (auto simp: upd1_def fold_update_heads not_less)
    have fresh: "\<forall>q \<in> set Lg. n_key (sl_heap sl ! q) \<noteq> key"
    proof (cases Lg)
      case (Cons c Lg')
      then have "0 < CompareKeys (n_key (sl_heap sl ! c)) key"
        using False sp(2) by (auto simp: le_less ck.cmp_eq)
      moreover have "\<forall>q \<in> set Lg'. CompareKeys (n_key (sl_heap sl ! c)) (n_key (sl_heap sl ! q)) < 0"
        using L(2,3) sp(1) Cons by (auto simp: ck.asc_by_append ck.asc_by_Cons)
      ultimately show ?thesis using False Cons ck.cmp_asym by (auto simp: less_le)
    qed simp
    obtain h' where h': "splice (sl_heap sl @ [\<lparr>n_key = key, n_value = value, n_forward = replicate lv None\<rparr>]) upd1
        (length (sl_heap sl)) [0..<lv] = Some h'"
      "sl_rep \<lparr>sl_heap = h', sl_level = max (sl_level sl) lv, sl_size = sl_size sl + 1,
          sl_memSize = sl_memSize sl + node_mem key value lv, sl_rng = n\<rparr> (upd_by CompareKeys key value xs)"
      using insert_rep [OF L(1) [unfolded sp(1)] sp(2) L(3) [folded L(2), unfolded sp(1)] fresh
          L(4) [unfolded sp(1)] L(5) [unfolded sp(1)] lv upd1, of "value" n, folded sp(1), unfolded L(2)]
      by blast
    have "sl_Put coin key value sl = Some \<lparr>sl_heap = h', sl_level = max (sl_level sl) lv,
      sl_size = sl_size sl + 1, sl_memSize = sl_memSize sl + node_mem key value lv, sl_rng = n\<rparr>"
      using False d(1,4) rl h'(1) [unfolded upd1_def]
      by (cases Lg) (simp_all add: sl_Put_def Let_def del: last.simps)
    with h'(2) show ?thesis by blast
  qed
qed

definition sl_entries :: "SkipList \<Rightarrow> (bytes \<times> bytes option) list option" where
  "sl_entries sl = (case sl_SeekToFirst sl of None \<Rightarrow> None | Some it \<Rightarrow> sl_scan sl it)"

lemma sl_entries_rep: "sl_rep sl xs \<Longrightarrow> sl_entries sl = Some xs"
  using sl_SeekToFirst_rep by (fastforce simp: sl_entries_def)

interpretation slt: sorted_table CompareKeys sl_rep "sl_Put coin" sl_Get sl_entries
proof unfold_locales
  show "\<And>s xs. sl_rep s xs \<Longrightarrow> asc_by CompareKeys xs" by (auto simp: sl_rep_def)
qed (simp_all add: sl_Put_rep sl_Get_rep sl_entries_rep)

section \<open>Properties\<close>

text \<open>
  C21. The skip list is a sorted map.  Whatever the coin tosses, any sequence of \<^verbatim>\<open>Put\<close>s on a fresh list
  returns; afterwards \<^verbatim>\<open>Get\<close> finds, for every key, the value of its last \<^verbatim>\<open>Put\<close> (or nothing), and the
  iterator walks strictly ascending keys with the same bindings.
\<close>

theorem SkipList_is_sorted_map:
  "\<exists>sl ys. run_opt (\<lambda>(k, v). sl_Put coin k v) ps NewSkipList = Some sl \<and>
     sl_entries sl = Some ys \<and> asc_by CompareKeys ys \<and>
     (\<forall>k. map_of ys k = map_of (rev ps) k) \<and> (\<forall>k. sl_Get k sl = Some (map_of (rev ps) k))"
  by (rule slt.run_spec [OF NewSkipList_rep])

text \<open>
  C17. \<^verbatim>\<open>Seek\<close> positions the iterator on the first entry whose key is not below the target: what follows
  is the ascending list without the smaller keys.
\<close>

theorem SkipList_Seek:
  "\<exists>sl ys it. run_opt (\<lambda>(k, v). sl_Put coin k v) ps NewSkipList = Some sl \<and>
     sl_entries sl = Some ys \<and> sl_Seek sl target = Some it \<and>
     sl_scan sl it = Some (dropWhile (\<lambda>p. CompareKeys (fst p) target < 0) ys)"
proof -
  obtain sl where sl: "run_opt (\<lambda>(k, v). sl_Put coin k v) ps NewSkipList = Some sl"
    "sl_rep sl (fold (\<lambda>(k, v). upd_by CompareKeys k v) ps [])"
    using slt.run_rep [OF NewSkipList_rep] by blast
  with sl_entries_rep [OF sl(2)] sl_Seek_rep [OF sl(2), of target] show ?thesis by auto
qed

text \<open>
  C18. The accounting is exact: after any sequence of \<^verbatim>\<open>Put\<close>s, \<^verbatim>\<open>Len\<close> is the number of distinct keys
  written, and \<^verbatim>\<open>MemoryUsage\<close> lies between the cost of the live entries on one level and their cost on
  all sixteen.
\<close>

theorem SkipList_accounting:
  "\<exists>sl ys. run_opt (\<lambda>(k, v). sl_Put coin k v) ps NewSkipList = Some sl \<and> sl_entries sl = Some ys \<and>
     sl_Len sl = int (card (fst ` set ps)) \<and>
     (\<Sum>(k, v)\<leftarrow>ys. node_mem k v 1) \<le> sl_MemoryUsage sl \<and>
     sl_MemoryUsage sl \<le> (\<Sum>(k, v)\<leftarrow>ys. node_mem k v MaxLevel)"
proof -
  let ?ys = "fold (\<lambda>(k, v). upd_by CompareKeys k v) ps []"
  obtain sl where sl: "run_opt (\<lambda>(k, v). sl_Put coin k v) ps NewSkipList = Some sl" "sl_rep sl ?ys"
    using slt.run_rep [OF NewSkipList_rep] by blast
  then obtain L where L: "sl_layout sl L" "map (sl_entry sl) L = ?ys" "asc_by CompareKeys ?ys"
      "sl_size sl = int (length L)" "sl_memSize sl = (\<Sum>p\<leftarrow>L. mem_of (sl_heap sl) p)"
    unfolding sl_rep_def by blast
  have "map_of ?ys k = map_of (rev ps) k" for k
    using ck.fold_upd_by [of "[]" ps k] by (simp add: asc_by_def)
  then have "map_of ?ys = map_of (rev ps)" by blast
  then have "fst ` set ?ys = fst ` set ps" by (metis dom_map_of_conv_image_fst set_rev)
  moreover have "card (fst ` set ?ys) = length L"
    using distinct_card [OF ck.asc_by_distinct [OF L(3)]] L(2) by (metis length_map set_map)
  moreover have ht: "1 \<le> height (sl_heap sl) p" "height (sl_heap sl) p \<le> MaxLevel" if "p \<in> set L" for p
  proof -
    have "sl_level sl \<le> MaxLevel" "0 < height (sl_heap sl) p \<and> height (sl_heap sl) p \<le> sl_level sl"
      using L(1) that unfolding sl_layout_def by blast+
    then show "1 \<le> height (sl_heap sl) p" "height (sl_heap sl) p \<le> MaxLevel" by linarith+
  qed
  have "(\<Sum>p\<leftarrow>L. node_mem (n_key (sl_heap sl ! p)) (n_value (sl_heap sl ! p)) 1) \<le> sl_memSize sl"
    "sl_memSize sl \<le> (\<Sum>p\<leftarrow>L. node_mem (n_key (sl_heap sl ! p)) (n_value (sl_heap sl ! p)) MaxLevel)"
    unfolding L(5) by (rule sum_list_mono; simp add: node_mem_def; use ht in simp)+
  then have "(\<Sum>(k, v)\<leftarrow>?ys. node_mem k v 1) \<le> sl_memSize sl" "sl_memSize sl \<le> (\<Sum>(k, v)\<leftarrow>?ys. node_mem k v MaxLevel)"
    unfolding L(2) [symmetric] by (simp_all add: comp_def sl_entry_def)
  ultimately show ?thesis
    using sl(1) L(4) sl_entries_rep [OF sl(2)] by (simp add: sl_Len_def sl_MemoryUsage_def)
qed

end
