(* ===== verification/MemTable.thy ===== *)
theory MemTable
  imports SkipList
begin

text \<open>
  The memtable of \<^verbatim>\<open>internal/memtable/memtable.go\<close>: a skip list with a size limit and a frozen flag.
  The creation time, which nothing reads, is left out.  \<open>coin\<close> is the skip list's coin sequence; a
  result \<^term>\<open>None\<close> is a panic of the skip list, which the lemmas exclude.
\<close>

section \<open>Model\<close>

datatype mt_error = ErrMemTableFull

record MemTable =
  mt_sl :: SkipList
  mt_maxSize :: int
  mt_frozen :: bool

definition NewMemTable :: "int \<Rightarrow> MemTable" where
  "NewMemTable maxSize = \<lparr>mt_sl = NewSkipList, mt_maxSize = maxSize, mt_frozen = False\<rparr>"

definition mt_ShouldFlush :: "MemTable \<Rightarrow> bool" where
  "mt_ShouldFlush mt \<longleftrightarrow> mt_maxSize mt \<le> sl_MemoryUsage (mt_sl mt)"

definition mt_Put :: "(nat \<Rightarrow> bool) \<Rightarrow> bytes \<Rightarrow> bytes option \<Rightarrow> MemTable \<Rightarrow> (mt_error option \<times> MemTable) option" where
  "mt_Put coin key value mt =
     (if mt_frozen mt \<or> mt_maxSize mt \<le> sl_MemoryUsage (mt_sl mt) then Some (Some ErrMemTableFull, mt)
      else case sl_Put coin key value (mt_sl mt) of
             None \<Rightarrow> None
           | Some sl \<Rightarrow> Some (None, mt\<lparr>mt_sl := sl\<rparr>))"

definition mt_Get :: "bytes \<Rightarrow> MemTable \<Rightarrow> bytes option option option" where
  "mt_Get key mt = sl_Get key (mt_sl mt)"

definition mt_Delete :: "(nat \<Rightarrow> bool) \<Rightarrow> bytes \<Rightarrow> MemTable \<Rightarrow> (mt_error option \<times> MemTable) option" where
  "mt_Delete coin key mt =
     (if mt_frozen mt \<or> mt_maxSize mt \<le> sl_MemoryUsage (mt_sl mt) then Some (Some ErrMemTableFull, mt)
      else case sl_Delete coin key (mt_sl mt) of
             None \<Rightarrow> None
           | Some sl \<Rightarrow> Some (None, mt\<lparr>mt_sl := sl\<rparr>))"

definition mt_Freeze :: "MemTable \<Rightarrow> MemTable" where
  "mt_Freeze mt = mt\<lparr>mt_frozen := True\<rparr>"

definition mt_IsFrozen :: "MemTable \<Rightarrow> bool" where
  "mt_IsFrozen mt = mt_frozen mt"

definition mt_entries :: "MemTable \<Rightarrow> (bytes \<times> bytes option) list option" where
  "mt_entries mt = sl_entries (mt_sl mt)"

text \<open>\<^verbatim>\<open>ApplyBatch\<close>: an entry whose operation is neither put nor delete is skipped.\<close>

fun ApplyBatch :: "(nat \<Rightarrow> bool) \<Rightarrow> Batch \<Rightarrow> MemTable \<Rightarrow> (mt_error option \<times> MemTable) option" where
  "ApplyBatch coin [] mt = Some (None, mt)"
| "ApplyBatch coin (e # es) mt =
     (case (if Op e = OpPut then mt_Put coin (Key e) (Value e) mt
            else if Op e = OpDelete then mt_Delete coin (Key e) mt
            else Some (None, mt)) of
        None \<Rightarrow> None
      | Some (Some err, mt1) \<Rightarrow> Some (Some err, mt1)
      | Some (None, mt1) \<Rightarrow> ApplyBatch coin es mt1)"

section \<open>What the table holds\<close>

text \<open>The entry an operation writes: a delete writes a nil value, the tombstone.\<close>

definition entry_binding :: "BatchEntry \<Rightarrow> bytes \<times> bytes option" where
  "entry_binding e = (Key e, if Op e = OpPut then Value e else None)"

definition mt_rep :: "MemTable \<Rightarrow> (bytes \<times> bytes option) list \<Rightarrow> bool" where
  "mt_rep mt xs = sl_rep (mt_sl mt) xs"

lemma NewMemTable_rep: "mt_rep (NewMemTable n) []"
  by (simp add: mt_rep_def NewMemTable_def NewSkipList_rep)

lemma mt_Get_rep: "mt_rep mt xs \<Longrightarrow> mt_Get key mt = Some (map_of xs key)"
  by (simp add: mt_rep_def mt_Get_def sl_Get_rep)

lemma mt_entries_rep: "mt_rep mt xs \<Longrightarrow> mt_entries mt = Some xs"
  by (simp add: mt_rep_def mt_entries_def sl_entries_rep)

lemma mt_rep_asc: "mt_rep mt xs \<Longrightarrow> asc_by CompareKeys xs"
  unfolding mt_rep_def by (rule slt.rep_asc)

lemma mt_Delete_Put: "mt_Delete coin key mt = mt_Put coin key None mt"
  by (simp add: mt_Delete_def mt_Put_def sl_Delete_def)

lemma mt_Put_rep:
  assumes "mt_rep mt xs"
  shows "mt_Put coin key value mt = Some (Some ErrMemTableFull, mt) \<and> (mt_frozen mt \<or> mt_ShouldFlush mt) \<or>
    \<not> mt_frozen mt \<and> \<not> mt_ShouldFlush mt \<and>
    (\<exists>mt'. mt_Put coin key value mt = Some (None, mt') \<and> mt_rep mt' (upd_by CompareKeys key value xs) \<and>
       mt_frozen mt' = mt_frozen mt \<and> mt_maxSize mt' = mt_maxSize mt)"
  using sl_Put_rep [OF assms [unfolded mt_rep_def], of coin key "value"]
  by (auto simp: mt_Put_def mt_ShouldFlush_def mt_rep_def not_le)

lemma mt_new_room: "0 < n \<Longrightarrow> \<not> mt_ShouldFlush (NewMemTable n)"
  by (simp add: mt_ShouldFlush_def NewMemTable_def NewSkipList_def sl_MemoryUsage_def)

text \<open>
  Applying a batch to a memtable either applies the whole batch, in order, or stops at the first
  entry that finds the table frozen or full and reports it, having applied exactly the entries
  before it; it never does anything else.
\<close>

theorem ApplyBatch_prefix:
  assumes "mt_rep mt xs" "\<forall>e \<in> set b. Op e = OpPut \<or> Op e = OpDelete"
  shows "\<exists>n mt' err. ApplyBatch coin b mt = Some (err, mt') \<and> n \<le> length b \<and>
    mt_rep mt' (fold (\<lambda>(k, v). upd_by CompareKeys k v) (map entry_binding (take n b)) xs) \<and>
    (err = None \<longleftrightarrow> n = length b) \<and> (err \<noteq> None \<longrightarrow> mt_frozen mt' \<or> mt_ShouldFlush mt')"
  using assms
proof (induction b arbitrary: mt xs)
  case (Cons e es)
  obtain k v where b: "entry_binding e = (k, v)" by (cases "entry_binding e")
  have step: "ApplyBatch coin (e # es) mt = (case mt_Put coin k v mt of
        None \<Rightarrow> None | Some (Some err, mt1) \<Rightarrow> Some (Some err, mt1)
      | Some (None, mt1) \<Rightarrow> ApplyBatch coin es mt1)"
    using b Cons.prems(2) by (auto simp: entry_binding_def mt_Delete_Put)
  from mt_Put_rep [OF Cons.prems(1), of coin k v] consider
    (full) "mt_Put coin k v mt = Some (Some ErrMemTableFull, mt)" "mt_frozen mt \<or> mt_ShouldFlush mt"
    | (ok) mt1 where "mt_Put coin k v mt = Some (None, mt1)" "mt_rep mt1 (upd_by CompareKeys k v xs)"
    by blast
  then show ?case
  proof cases
    case full
    then show ?thesis unfolding step using Cons.prems(1) by (intro exI [of _ 0]) simp
  next
    case ok
    obtain n mt' err where IH: "ApplyBatch coin es mt1 = Some (err, mt')" "n \<le> length es"
      "mt_rep mt' (fold (\<lambda>(k, v). upd_by CompareKeys k v) (map entry_binding (take n es)) (upd_by CompareKeys k v xs))"
      "err = None \<longleftrightarrow> n = length es" "err \<noteq> None \<longrightarrow> mt_frozen mt' \<or> mt_ShouldFlush mt'"
      using Cons.IH [OF ok(2)] Cons.prems(2) by (auto simp: not_None_eq)
    then show ?thesis unfolding step using ok(1) b
      by (intro exI [of _ "Suc n"] exI [of _ mt'] exI [of _ err]) simp
  qed
qed simp

theorem ApplyBatch_prefix_witness:
  "\<exists>n mt' err. ApplyBatch (\<lambda>_. False) [\<lparr>Op = OpPut, Key = [1], Value = Some [2]\<rparr>] (NewMemTable 10) = Some (err, mt') \<and>
     n \<le> (1::nat) \<and> (err = None \<longleftrightarrow> n = 1)"
proof -
  let ?b = "[\<lparr>Op = OpPut, Key = [1], Value = Some [2]\<rparr>] :: Batch"
  have "\<forall>e \<in> set ?b. Op e = OpPut \<or> Op e = OpDelete" by simp
  from ApplyBatch_prefix [OF NewMemTable_rep [of 10] this, of "\<lambda>_. False"] show ?thesis
    by (simp del: ApplyBatch.simps) blast
qed

end
