(* ===== verification/Manager.thy ===== *)
theory Manager
  imports MemTable
begin

text \<open>
  The memtable manager of \<^verbatim>\<open>internal/memtable/manager.go\<close>: one active table, at most one frozen table
  waiting to be flushed, and a background flusher.

  A write runs under the manager's lock until it returns or waits on the condition variable; the
  rest of a waiting write is kept as the list of entries still to apply.  \<open>submit\<close> is what the group
  committer answers.  \<open>m_flushCh\<close> is whether the one-slot flush channel holds a signal.
\<close>

section \<open>Model\<close>

record Manager =
  m_active :: MemTable
  m_immutable :: "MemTable option"
  m_maxSize :: int
  m_flushCh :: bool

definition NewManager :: "int \<Rightarrow> Manager" where
  "NewManager maxSize =
     \<lparr>m_active = NewMemTable maxSize, m_immutable = None, m_maxSize = maxSize, m_flushCh = False\<rparr>"

text \<open>Freeze the active table, hand it to the flusher and start a new one.\<close>

definition mgr_rotate :: "Manager \<Rightarrow> Manager" where
  "mgr_rotate m = m\<lparr>m_immutable := Some (mt_Freeze (m_active m)), m_active := NewMemTable (m_maxSize m),
     m_flushCh := True\<rparr>"

text \<open>
  The retry loop around one entry: \<open>True\<close> when the entry was applied, \<open>False\<close> when the loop waits.
\<close>

function apply_entry :: "(nat \<Rightarrow> bool) \<Rightarrow> BatchEntry \<Rightarrow> Manager \<Rightarrow> (bool \<times> Manager) option" where
  "apply_entry coin e m =
     (case (if Op e = OpPut then mt_Put coin (Key e) (Value e) (m_active m)
            else mt_Delete coin (Key e) (m_active m)) of
        None \<Rightarrow> None
      | Some (None, mt) \<Rightarrow>
          let m1 = m\<lparr>m_active := mt\<rparr> in
          Some (True, if mt_ShouldFlush mt \<and> m_immutable m = None then mgr_rotate m1 else m1)
      | Some (Some err, mt) \<Rightarrow>
          if m_immutable m \<noteq> None then Some (False, m) else apply_entry coin e (mgr_rotate m))"
  by pat_completeness auto
termination
  by (relation "measure (\<lambda>(coin, e, m). if m_immutable m = None then 1 else 0)") (auto simp: mgr_rotate_def)

declare apply_entry.simps [simp del]

text \<open>The loop over a batch: the entries still to apply, empty when the call returns.\<close>

fun apply_entries :: "(nat \<Rightarrow> bool) \<Rightarrow> BatchEntry list \<Rightarrow> Manager \<Rightarrow> (BatchEntry list \<times> Manager) option" where
  "apply_entries coin [] m = Some ([], m)"
| "apply_entries coin (e # es) m =
     (case apply_entry coin e m of
        None \<Rightarrow> None
      | Some (True, m1) \<Rightarrow> apply_entries coin es m1
      | Some (False, m1) \<Rightarrow> Some (e # es, m1))"

type_synonym mgr_result = "wal_error + BatchEntry list"

definition mgr_WriteBatch ::
  "(nat \<Rightarrow> bool) \<Rightarrow> (bytes \<Rightarrow> wal_error option) \<Rightarrow> Batch \<Rightarrow> Manager \<Rightarrow> (mgr_result \<times> Manager) option" where
  "mgr_WriteBatch coin submit b m =
     (case submit (batch_Encode b) of
        Some err \<Rightarrow> Some (Inl err, m)
      | None \<Rightarrow> (case apply_entries coin b m of None \<Rightarrow> None | Some (rest, m1) \<Rightarrow> Some (Inr rest, m1)))"

definition mgr_Put ::
  "(nat \<Rightarrow> bool) \<Rightarrow> (bytes \<Rightarrow> wal_error option) \<Rightarrow> bytes \<Rightarrow> bytes option \<Rightarrow> Manager \<Rightarrow> (mgr_result \<times> Manager) option" where
  "mgr_Put coin submit key value m =
     (let batch = batch_Put emptyBatch key value in
      case submit (batch_Encode batch) of
        Some err \<Rightarrow> Some (Inl err, m)
      | None \<Rightarrow> (case apply_entries coin batch m of None \<Rightarrow> None | Some (rest, m1) \<Rightarrow> Some (Inr rest, m1)))"

definition mgr_Delete ::
  "(nat \<Rightarrow> bool) \<Rightarrow> (bytes \<Rightarrow> wal_error option) \<Rightarrow> bytes \<Rightarrow> Manager \<Rightarrow> (mgr_result \<times> Manager) option" where
  "mgr_Delete coin submit key m =
     (let batch = batch_Delete emptyBatch key in
      case submit (batch_Encode batch) of
        Some err \<Rightarrow> Some (Inl err, m)
      | None \<Rightarrow> (case apply_entries coin batch m of None \<Rightarrow> None | Some (rest, m1) \<Rightarrow> Some (Inr rest, m1)))"

definition ApplyRecoveredBatch :: "(nat \<Rightarrow> bool) \<Rightarrow> Batch \<Rightarrow> Manager \<Rightarrow> (BatchEntry list \<times> Manager) option" where
  "ApplyRecoveredBatch coin b m = apply_entries coin b m"

definition mgr_Get :: "bytes \<Rightarrow> Manager \<Rightarrow> bytes option option option" where
  "mgr_Get key m =
     (case mt_Get key (m_active m) of
        None \<Rightarrow> None
      | Some (Some v) \<Rightarrow> Some (Some v)
      | Some None \<Rightarrow> (case m_immutable m of None \<Rightarrow> Some None | Some mt \<Rightarrow> mt_Get key mt))"

text \<open>
  \<^verbatim>\<open>doFlush\<close>: the table given to \<^verbatim>\<open>flushFn\<close>, if any.  The function is retried until it succeeds, so the
  table is dropped only after a successful flush.
\<close>

definition doFlush :: "Manager \<Rightarrow> MemTable option \<times> Manager" where
  "doFlush m = (m_immutable m, m\<lparr>m_immutable := None\<rparr>)"

text \<open>
  The manager with its callers: the writes that wait, the tables flushed so far (oldest first) and
  the entries applied so far.  An event is a call up to its return or wait, the wake-up of a waiting
  write, or one round of the flush loop.
\<close>

record mgr_world =
  mw_mgr :: Manager
  mw_waiters :: "BatchEntry list list"
  mw_flushed :: "MemTable list"
  mw_applied :: "BatchEntry list"

datatype mgr_event =
    MPut bytes "bytes option" "wal_error option"
  | MDelete bytes "wal_error option"
  | MWriteBatch Batch "wal_error option"
  | MRecover Batch
  | MResume nat
  | MFlush

definition mw_finish :: "BatchEntry list \<Rightarrow> (BatchEntry list \<times> Manager) option \<Rightarrow> mgr_world \<Rightarrow> mgr_world option" where
  "mw_finish es r w =
     (case r of
        None \<Rightarrow> None
      | Some (rest, m) \<Rightarrow>
          Some (w\<lparr>mw_mgr := m, mw_applied := mw_applied w @ take (length es - length rest) es,
                  mw_waiters := mw_waiters w @ (if rest = [] then [] else [rest])\<rparr>))"

definition mw_write :: "BatchEntry list \<Rightarrow> (mgr_result \<times> Manager) option \<Rightarrow> mgr_world \<Rightarrow> mgr_world option" where
  "mw_write es r w =
     (case r of
        None \<Rightarrow> None
      | Some (Inl err, m) \<Rightarrow> Some (w\<lparr>mw_mgr := m\<rparr>)
      | Some (Inr rest, m) \<Rightarrow> mw_finish es (Some (rest, m)) w)"

fun mgr_exec :: "(nat \<Rightarrow> bool) \<Rightarrow> mgr_event \<Rightarrow> mgr_world \<Rightarrow> mgr_world option" where
  "mgr_exec coin (MPut k v ans) w =
     mw_write (batch_Put emptyBatch k v) (mgr_Put coin (\<lambda>_. ans) k v (mw_mgr w)) w"
| "mgr_exec coin (MDelete k ans) w =
     mw_write (batch_Delete emptyBatch k) (mgr_Delete coin (\<lambda>_. ans) k (mw_mgr w)) w"
| "mgr_exec coin (MWriteBatch b ans) w = mw_write b (mgr_WriteBatch coin (\<lambda>_. ans) b (mw_mgr w)) w"
| "mgr_exec coin (MRecover b) w = mw_finish b (ApplyRecoveredBatch coin b (mw_mgr w)) w"
| "mgr_exec coin (MResume i) w =
     (if i < length (mw_waiters w) then
        let es = mw_waiters w ! i in
        mw_finish es (apply_entries coin es (mw_mgr w))
          (w\<lparr>mw_waiters := take i (mw_waiters w) @ drop (Suc i) (mw_waiters w)\<rparr>)
      else Some w)"
| "mgr_exec coin MFlush w =
     (if m_flushCh (mw_mgr w) then
        case doFlush ((mw_mgr w)\<lparr>m_flushCh := False\<rparr>) of
          (None, m) \<Rightarrow> Some (w\<lparr>mw_mgr := m\<rparr>)
        | (Some mt, m) \<Rightarrow> Some (w\<lparr>mw_mgr := m, mw_flushed := mw_flushed w @ [mt]\<rparr>)
      else Some w)"

definition new_world :: "int \<Rightarrow> mgr_world" where
  "new_world maxSize = \<lparr>mw_mgr = NewManager maxSize, mw_waiters = [], mw_flushed = [], mw_applied = []\<rparr>"

text \<open>Lookup in the flushed tables, newest first.\<close>

fun lookup_tables :: "bytes \<Rightarrow> MemTable list \<Rightarrow> bytes option option" where
  "lookup_tables k [] = None"
| "lookup_tables k (mt # mts) =
     (case mt_Get k mt of Some (Some v) \<Rightarrow> Some v | _ \<Rightarrow> lookup_tables k mts)"

section \<open>What the manager holds\<close>

text \<open>
  The contents of a list of tables, oldest first: later tables override earlier ones.
\<close>

definition tables_rep :: "MemTable list \<Rightarrow> (bytes \<rightharpoonup> bytes option) \<Rightarrow> bool" where
  "tables_rep mts f \<longleftrightarrow> (\<exists>xss. list_all2 mt_rep mts xss \<and> foldr (\<lambda>xs g. g ++ map_of xs) (rev xss) Map.empty = f)"

lemma tables_rep_Nil [simp]: "tables_rep [] f \<longleftrightarrow> f = Map.empty"
  by (auto simp: tables_rep_def)

lemma tables_rep_snoc: "tables_rep (mts @ [mt]) f \<longleftrightarrow> (\<exists>g xs. tables_rep mts g \<and> mt_rep mt xs \<and> f = g ++ map_of xs)"
proof
  assume "tables_rep (mts @ [mt]) f"
  then obtain us z where "list_all2 mt_rep mts us" "mt_rep mt z"
    "f = foldr (\<lambda>xs g. g ++ map_of xs) (rev us) Map.empty ++ map_of z"
    by (auto simp: tables_rep_def list_all2_append1 list_all2_Cons1)
  then show "\<exists>g xs. tables_rep mts g \<and> mt_rep mt xs \<and> f = g ++ map_of xs"
    unfolding tables_rep_def by blast
next
  assume "\<exists>g xs. tables_rep mts g \<and> mt_rep mt xs \<and> f = g ++ map_of xs"
  then obtain us z where "list_all2 mt_rep mts us" "mt_rep mt z"
    "f = foldr (\<lambda>xs g. g ++ map_of xs) (rev us) Map.empty ++ map_of z"
    unfolding tables_rep_def by blast
  then show "tables_rep (mts @ [mt]) f"
    unfolding tables_rep_def by (intro exI [of _ "us @ [z]"]) (simp add: list_all2_appendI)
qed

lemma tables_rep_append:
  "tables_rep as f \<Longrightarrow> tables_rep bs g \<Longrightarrow> tables_rep (as @ bs) (f ++ g)"
proof (induction bs arbitrary: g rule: rev_induct)
  case (snoc b bs)
  then obtain g' xs where "tables_rep bs g'" "mt_rep b xs" "g = g' ++ map_of xs"
    by (auto simp: tables_rep_snoc)
  with snoc.IH [OF snoc.prems(1)] show ?case
    unfolding append_assoc [symmetric] tables_rep_snoc by (metis map_add_assoc)
qed simp

lemma lookup_tables_rep: "tables_rep mts f \<Longrightarrow> lookup_tables k (rev mts) = f k"
proof (induction mts arbitrary: f rule: rev_induct)
  case (snoc mt mts)
  then show ?case
    by (auto simp: tables_rep_snoc mt_Get_rep map_add_def split: option.splits)
qed simp

definition mgr_tables :: "Manager \<Rightarrow> MemTable list" where
  "mgr_tables m = (case m_immutable m of None \<Rightarrow> [] | Some mt \<Rightarrow> [mt]) @ [m_active m]"

definition mgr_rep :: "Manager \<Rightarrow> (bytes \<rightharpoonup> bytes option) \<Rightarrow> bool" where
  "mgr_rep m f \<longleftrightarrow> tables_rep (mgr_tables m) f \<and> \<not> mt_frozen (m_active m) \<and>
     mt_maxSize (m_active m) = m_maxSize m \<and> (m_immutable m \<noteq> None \<longrightarrow> m_flushCh m)"

lemma NewManager_rep: "mgr_rep (NewManager n) Map.empty"
  using NewMemTable_rep [of n] tables_rep_snoc [of "[]" "NewMemTable n"]
  by (auto simp: mgr_rep_def mgr_tables_def NewManager_def) (auto simp: NewMemTable_def)

lemma mgr_Get_rep: "mgr_rep m f \<Longrightarrow> mgr_Get k m = Some (f k)"
proof -
  assume "mgr_rep m f"
  then obtain g xs where g: "tables_rep (case m_immutable m of None \<Rightarrow> [] | Some mt \<Rightarrow> [mt]) g"
    "mt_rep (m_active m) xs" "f = g ++ map_of xs"
    by (auto simp: mgr_rep_def mgr_tables_def tables_rep_snoc)
  show ?thesis
  proof (cases "m_immutable m")
    case None
    then show ?thesis using g by (auto simp: mgr_Get_def mt_Get_rep split: option.splits)
  next
    case (Some mt)
    then obtain ys where "mt_rep mt ys" "g = map_of ys"
      using g(1) tables_rep_snoc [of "[]" mt g] by auto
    then show ?thesis
      using g Some by (auto simp: mgr_Get_def mt_Get_rep map_add_def split: option.splits)
  qed
qed

lemma mgr_rotate_rep:
  assumes "mgr_rep m f" "m_immutable m = None"
  shows "mgr_rep (mgr_rotate m) f"
proof -
  obtain xs where xs: "mt_rep (m_active m) xs" "f = map_of xs"
    using assms tables_rep_snoc [of "[]" "m_active m" f] by (auto simp: mgr_rep_def mgr_tables_def)
  then have "mt_rep (mt_Freeze (m_active m)) xs" by (simp add: mt_rep_def mt_Freeze_def)
  then have "tables_rep [mt_Freeze (m_active m)] f"
    using xs tables_rep_snoc [of "[]" "mt_Freeze (m_active m)" f] by auto
  then have "tables_rep ([mt_Freeze (m_active m)] @ [NewMemTable (m_maxSize m)]) f"
    unfolding tables_rep_snoc by (intro exI [of _ f] exI [of _ "[]"]) (simp add: NewMemTable_rep)
  then show ?thesis by (simp add: mgr_rep_def mgr_tables_def mgr_rotate_def) (simp add: NewMemTable_def)
qed

definition bind_entry :: "BatchEntry \<Rightarrow> (bytes \<rightharpoonup> bytes option) \<Rightarrow> (bytes \<rightharpoonup> bytes option)" where
  "bind_entry e f = f(fst (entry_binding e) \<mapsto> snd (entry_binding e))"

lemma apply_entry_unfold:
  "apply_entry coin e m =
     (case mt_Put coin (fst (entry_binding e)) (snd (entry_binding e)) (m_active m) of
        None \<Rightarrow> None
      | Some (None, mt) \<Rightarrow>
          Some (True, if mt_ShouldFlush mt \<and> m_immutable m = None then mgr_rotate (m\<lparr>m_active := mt\<rparr>)
                      else m\<lparr>m_active := mt\<rparr>)
      | Some (Some err, mt) \<Rightarrow>
          if m_immutable m \<noteq> None then Some (False, m) else apply_entry coin e (mgr_rotate m))"
  by (subst apply_entry.simps) (auto simp: entry_binding_def mt_Delete_Put Let_def split: option.splits prod.splits)

lemma apply_entry_room:
  assumes rep: "mgr_rep m f" and room: "\<not> mt_ShouldFlush (m_active m)"
  shows "\<exists>m'. apply_entry coin e m = Some (True, m') \<and> mgr_rep m' (bind_entry e f) \<and> m_maxSize m' = m_maxSize m"
proof -
  let ?k = "fst (entry_binding e)" and ?v = "snd (entry_binding e)"
  obtain g xs where g: "tables_rep (case m_immutable m of None \<Rightarrow> [] | Some mt \<Rightarrow> [mt]) g"
    "mt_rep (m_active m) xs" "f = g ++ map_of xs" "\<not> mt_frozen (m_active m)"
    "mt_maxSize (m_active m) = m_maxSize m" "m_immutable m \<noteq> None \<longrightarrow> m_flushCh m"
    using rep by (auto simp: mgr_rep_def mgr_tables_def tables_rep_snoc)
  obtain mt where mt: "mt_Put coin ?k ?v (m_active m) = Some (None, mt)"
    "mt_rep mt (upd_by CompareKeys ?k ?v xs)" "\<not> mt_frozen mt" "mt_maxSize mt = m_maxSize m"
    using mt_Put_rep [OF g(2), of coin ?k ?v] g(4,5) room by auto
  have "bind_entry e f = g ++ map_of (upd_by CompareKeys ?k ?v xs)"
    using ck.map_of_upd_by [OF mt_rep_asc [OF g(2)]] g(3) by (simp add: bind_entry_def)
  then have r: "mgr_rep (m\<lparr>m_active := mt\<rparr>) (bind_entry e f)"
    using g mt by (auto simp: mgr_rep_def mgr_tables_def tables_rep_snoc)
  then show ?thesis
    using mgr_rotate_rep [OF r] mt(1)
    by (subst apply_entry_unfold) (auto simp: mgr_rotate_def)
qed

lemma apply_entry_rep:
  assumes rep: "mgr_rep m f"
  shows "\<exists>b m'. apply_entry coin e m = Some (b, m') \<and> m_maxSize m' = m_maxSize m \<and>
    mgr_rep m' (if b then bind_entry e f else f) \<and>
    (\<not> b \<longrightarrow> m_immutable m' \<noteq> None \<and> apply_entry coin e m' = Some (False, m')) \<and>
    (m_immutable m = None \<and> 0 < m_maxSize m \<longrightarrow> b)"
proof (cases "mt_ShouldFlush (m_active m)")
  case False
  then show ?thesis using apply_entry_room [OF rep False, of coin e] by auto
next
  case True
  have full: "mt_Put coin k v (m_active m) = Some (Some ErrMemTableFull, m_active m)" for k v
    using True by (simp add: mt_Put_def mt_ShouldFlush_def)
  show ?thesis
  proof (cases "m_immutable m")
    case (Some mt)
    then have "apply_entry coin e m = Some (False, m)" by (subst apply_entry_unfold) (simp add: full)
    then show ?thesis using rep Some by auto
  next
    case None
    then have eq: "apply_entry coin e m = apply_entry coin e (mgr_rotate m)"
      by (subst apply_entry_unfold) (simp add: full)
    note rep' = mgr_rotate_rep [OF rep None]
    show ?thesis
    proof (cases "mt_ShouldFlush (m_active (mgr_rotate m))")
      case False
      from apply_entry_room [OF rep' False, of coin e] obtain m' where
        "apply_entry coin e (mgr_rotate m) = Some (True, m')" "mgr_rep m' (bind_entry e f)"
        "m_maxSize m' = m_maxSize (mgr_rotate m)" by blast
      then show ?thesis unfolding eq by (auto simp: mgr_rotate_def)
    next
      case full': True
      then have "apply_entry coin e (mgr_rotate m) = Some (False, mgr_rotate m)"
        by (subst apply_entry_unfold) (simp add: mt_Put_def mt_ShouldFlush_def mgr_rotate_def)
      moreover have "\<not> 0 < m_maxSize m" using full' mt_new_room by (auto simp: mgr_rotate_def)
      ultimately show ?thesis unfolding eq using rep' by (auto simp: mgr_rotate_def)
    qed
  qed
qed

lemma apply_entries_rep:
  "mgr_rep m f \<Longrightarrow> \<exists>before rest m'. apply_entries coin es m = Some (rest, m') \<and> es = before @ rest \<and>
     mgr_rep m' (fold bind_entry before f) \<and> m_maxSize m' = m_maxSize m \<and>
     (rest \<noteq> [] \<longrightarrow> m_immutable m' \<noteq> None \<and> apply_entries coin rest m' = Some (rest, m')) \<and>
     (m_immutable m = None \<and> 0 < m_maxSize m \<and> es \<noteq> [] \<longrightarrow> before \<noteq> [])"
proof (induction es arbitrary: m f)
  case (Cons e es)
  obtain b m1 where m1: "apply_entry coin e m = Some (b, m1)" "m_maxSize m1 = m_maxSize m"
    "mgr_rep m1 (if b then bind_entry e f else f)"
    "\<not> b \<longrightarrow> m_immutable m1 \<noteq> None \<and> apply_entry coin e m1 = Some (False, m1)"
    "m_immutable m = None \<and> 0 < m_maxSize m \<longrightarrow> b"
    using apply_entry_rep [OF Cons.prems, of coin e] by blast
  show ?case
  proof (cases b)
    case True
    obtain before rest m' where IH: "apply_entries coin es m1 = Some (rest, m')" "es = before @ rest"
      "mgr_rep m' (fold bind_entry before (bind_entry e f))" "m_maxSize m' = m_maxSize m1"
      "rest \<noteq> [] \<longrightarrow> m_immutable m' \<noteq> None \<and> apply_entries coin rest m' = Some (rest, m')"
      using Cons.IH [of m1 "bind_entry e f"] m1(3) True by auto
    then show ?thesis
      using m1 True by (intro exI [of _ "e # before"] exI [of _ rest] exI [of _ m']) simp
  next
    case False
    then show ?thesis
      using m1 by (intro exI [of _ "[]"] exI [of _ "e # es"] exI [of _ m1]) simp
  qed
qed simp

lemma fold_bind_entry: "fold bind_entry es f = f ++ map_of (rev (map entry_binding es))"
  by (induction es arbitrary: f) (auto simp: bind_entry_def fun_eq_iff map_add_def split: option.splits)

section \<open>The manager with its callers\<close>

definition mw_inv :: "mgr_world \<Rightarrow> bool" where
  "mw_inv w \<longleftrightarrow> (\<exists>f g. tables_rep (mw_flushed w) g \<and> mgr_rep (mw_mgr w) f \<and>
     g ++ f = map_of (rev (map entry_binding (mw_applied w)))) \<and> [] \<notin> set (mw_waiters w)"

lemma new_world_inv: "mw_inv (new_world n)"
  using NewManager_rep [of n] by (auto simp: mw_inv_def new_world_def)

lemma mw_finish_inv:
  assumes "mw_inv w"
  shows "\<exists>w'. mw_finish es (apply_entries coin es (mw_mgr w)) w = Some w' \<and> mw_inv w' \<and>
    m_maxSize (mw_mgr w') = m_maxSize (mw_mgr w)"
proof -
  obtain f g where fg: "tables_rep (mw_flushed w) g" "mgr_rep (mw_mgr w) f"
    "g ++ f = map_of (rev (map entry_binding (mw_applied w)))" "[] \<notin> set (mw_waiters w)"
    using assms by (auto simp: mw_inv_def)
  obtain before rest m' where a: "apply_entries coin es (mw_mgr w) = Some (rest, m')" "es = before @ rest"
    "mgr_rep m' (fold bind_entry before f)" "m_maxSize m' = m_maxSize (mw_mgr w)"
    using apply_entries_rep [OF fg(2), of coin es] by blast
  have "g ++ fold bind_entry before f = map_of (rev (map entry_binding (mw_applied w @ before)))"
    unfolding fold_bind_entry map_add_assoc fg(3) by (simp add: map_of_append)
  then show ?thesis using fg a by (auto simp: mw_finish_def mw_inv_def)
qed

lemma mw_write_inv:
  assumes "mw_inv w" "r = (case ans of Some err \<Rightarrow> Some (Inl err, mw_mgr w)
      | None \<Rightarrow> (case apply_entries coin es (mw_mgr w) of None \<Rightarrow> None | Some (rest, m1) \<Rightarrow> Some (Inr rest, m1)))"
  shows "\<exists>w'. mw_write es r w = Some w' \<and> mw_inv w' \<and> m_maxSize (mw_mgr w') = m_maxSize (mw_mgr w)"
proof (cases ans)
  case None
  obtain w' where w': "mw_finish es (apply_entries coin es (mw_mgr w)) w = Some w'" "mw_inv w'"
    "m_maxSize (mw_mgr w') = m_maxSize (mw_mgr w)"
    using mw_finish_inv [OF assms(1)] by blast
  then show ?thesis using assms(2) None
    by (cases "apply_entries coin es (mw_mgr w)") (auto simp: mw_write_def mw_finish_def)
next
  case (Some err)
  then show ?thesis using assms by (auto simp: mw_write_def mw_inv_def)
qed

lemma mgr_exec_inv:
  assumes inv: "mw_inv w"
  shows "\<exists>w'. mgr_exec coin e w = Some w' \<and> mw_inv w' \<and> m_maxSize (mw_mgr w') = m_maxSize (mw_mgr w)"
proof (cases e)
  case (MResume i)
  let ?w = "w\<lparr>mw_waiters := take i (mw_waiters w) @ drop (Suc i) (mw_waiters w)\<rparr>"
  have "mw_inv ?w" using inv by (auto simp: mw_inv_def dest: in_set_takeD in_set_dropD)
  from mw_finish_inv [OF this, of "mw_waiters w ! i" coin] show ?thesis
    using MResume inv by (simp add: Let_def)
next
  case MFlush
  obtain f g where fg: "tables_rep (mw_flushed w) g" "mgr_rep (mw_mgr w) f"
    "g ++ f = map_of (rev (map entry_binding (mw_applied w)))" "[] \<notin> set (mw_waiters w)"
    using inv by (auto simp: mw_inv_def)
  obtain h xs where h: "tables_rep (case m_immutable (mw_mgr w) of None \<Rightarrow> [] | Some mt \<Rightarrow> [mt]) h"
    "mt_rep (m_active (mw_mgr w)) xs" "f = h ++ map_of xs"
    using fg(2) by (auto simp: mgr_rep_def mgr_tables_def tables_rep_snoc)
  have "mgr_rep ((mw_mgr w)\<lparr>m_flushCh := False, m_immutable := None\<rparr>) (map_of xs)"
    using fg(2) h(2) tables_rep_snoc [of "[]" "m_active (mw_mgr w)" "map_of xs"]
    by (auto simp: mgr_rep_def mgr_tables_def)
  moreover have "tables_rep (mw_flushed w @ (case m_immutable (mw_mgr w) of None \<Rightarrow> [] | Some mt \<Rightarrow> [mt])) (g ++ h)"
    by (rule tables_rep_append [OF fg(1) h(1)])
  moreover have "(g ++ h) ++ map_of xs = map_of (rev (map entry_binding (mw_applied w)))"
    using fg(3) h(3) by simp
  ultimately show ?thesis
    using MFlush inv fg(4)
    by (cases "m_immutable (mw_mgr w)") (auto simp: doFlush_def mw_inv_def)
qed (use inv mw_write_inv [OF inv] mw_finish_inv [OF inv] in
  \<open>auto simp: mgr_Put_def mgr_Delete_def mgr_WriteBatch_def ApplyRecoveredBatch_def Let_def\<close>)

lemma mgr_run_inv:
  "mw_inv w \<Longrightarrow> \<exists>w'. run_opt (mgr_exec coin) es w = Some w' \<and> mw_inv w' \<and>
     m_maxSize (mw_mgr w') = m_maxSize (mw_mgr w)"
proof (induction es arbitrary: w)
  case (Cons e es)
  obtain w1 where w1: "mgr_exec coin e w = Some w1" "mw_inv w1" "m_maxSize (mw_mgr w1) = m_maxSize (mw_mgr w)"
    using mgr_exec_inv [OF Cons.prems] by blast
  with Cons.IH [OF w1(2)] show ?case by simp
qed simp

section \<open>Properties\<close>

text \<open>
  C22. No applied write is lost and the newest wins.  After any interleaving of puts, deletes, batches,
  recovered batches, wake-ups and flushes, reading the manager first and the flushed tables newest
  first finds for every key exactly the last applied entry.
\<close>

theorem Manager_reads_last_write:
  "\<exists>w. run_opt (mgr_exec coin) es (new_world maxSize) = Some w \<and>
     (\<forall>k. map_of (rev (map entry_binding (mw_applied w))) k =
        (case mgr_Get k (mw_mgr w) of
           Some (Some v) \<Rightarrow> Some v
         | _ \<Rightarrow> lookup_tables k (rev (mw_flushed w))))"
proof -
  obtain w where w: "run_opt (mgr_exec coin) es (new_world maxSize) = Some w" "mw_inv w"
    using mgr_run_inv [OF new_world_inv] by blast
  then obtain f g where fg: "tables_rep (mw_flushed w) g" "mgr_rep (mw_mgr w) f"
    "g ++ f = map_of (rev (map entry_binding (mw_applied w)))" by (auto simp: mw_inv_def)
  show ?thesis
    using w(1) lookup_tables_rep [OF fg(1)] mgr_Get_rep [OF fg(2)]
    by (auto simp: fg(3) [symmetric] map_add_def split: option.splits)
qed


lemma three_puts_wait:
  "map_option (\<lambda>w. (length (mw_waiters w), length (mw_applied w)))
     (run_opt (mgr_exec (\<lambda>_. False)) [MPut [1] (Some [1]) None, MPut [2] (Some [2]) None, MPut [3] (Some [3]) None]
        (new_world 1)) = Some (1, 2)"
  by code_simp


text \<open>
  Without the flusher a waiting write never proceeds: as long as no flush runs, retrying it any
  number of times leaves it and the manager exactly as they are.  Recovery replays the log before
  the flusher is started, so a log of more than two tables' worth of entries blocks it for ever.
\<close>

theorem Manager_recovery_blocks:
  assumes "mgr_rep m f" "ApplyRecoveredBatch coin b m = Some (rest, m')" "rest \<noteq> []"
  shows "run_opt (\<lambda>_ (es, m). apply_entries coin es m) (replicate n ()) (rest, m') = Some (rest, m') \<and>
    m_immutable m' \<noteq> None"
proof -
  have stuck: "m_immutable m' \<noteq> None" "apply_entries coin rest m' = Some (rest, m')"
    using apply_entries_rep [OF assms(1), of coin b] assms(2,3) by (auto simp: ApplyRecoveredBatch_def)
  then have "run_opt (\<lambda>_ (es, m). apply_entries coin es m) (replicate n ()) (rest, m') = Some (rest, m')"
    by (induction n) simp_all
  with stuck show ?thesis by simp
qed

lemma recover_three_waits:
  "map_option (\<lambda>(rest, m'). length rest) (ApplyRecoveredBatch (\<lambda>_. False)
     [\<lparr>Op = OpPut, Key = [1], Value = Some [1]\<rparr>, \<lparr>Op = OpPut, Key = [2], Value = Some [2]\<rparr>,
      \<lparr>Op = OpPut, Key = [3], Value = Some [3]\<rparr>] (NewManager 1)) = Some 1"
  by code_simp

theorem Manager_recovery_blocks_witness:
  "\<exists>rest m'. ApplyRecoveredBatch (\<lambda>_. False)
     [\<lparr>Op = OpPut, Key = [1], Value = Some [1]\<rparr>, \<lparr>Op = OpPut, Key = [2], Value = Some [2]\<rparr>,
      \<lparr>Op = OpPut, Key = [3], Value = Some [3]\<rparr>] (NewManager 1) = Some (rest, m') \<and>
     run_opt (\<lambda>_ (es, m). apply_entries (\<lambda>_. False) es m) (replicate 100 ()) (rest, m') = Some (rest, m')"
proof -
  obtain rest m' where r: "ApplyRecoveredBatch (\<lambda>_. False)
     [\<lparr>Op = OpPut, Key = [1], Value = Some [1]\<rparr>, \<lparr>Op = OpPut, Key = [2], Value = Some [2]\<rparr>,
      \<lparr>Op = OpPut, Key = [3], Value = Some [3]\<rparr>] (NewManager 1) = Some (rest, m')" "length rest = 1"
    using recover_three_waits by auto
  then have "rest \<noteq> []" by auto
  from Manager_recovery_blocks [OF NewManager_rep r(1) this, of 100] r(1) show ?thesis by blast
qed

end
