(* ===== verification/Bloom.thy ===== *)
theory Bloom
  imports Prelude
begin

unbundle bit_operations_syntax

text \<open>
  The Bloom filter of \<^verbatim>\<open>internal/bloom/bloom.go\<close>.  The hash \<^verbatim>\<open>murmur3.Sum128\<close> is a third-party function
  and stays a parameter \<open>sum128\<close>, about which nothing is assumed.
\<close>

section \<open>Model\<close>

record Filter =
  bf_bits :: bytes
  bf_nHash :: u32
  bf_numBits :: u32

text \<open>
  \<^verbatim>\<open>uint32(float64(bitsPerKey) * math.Ln2)\<close>, capped to 1..30.  The constant is the double
  6243314768165359 / 2^53.  Below 44 bits per key the exact product is not close enough to an
  integer for rounding to matter, and from 44 on the result is capped to 30 either way.
\<close>

definition bloom_nHash :: "int \<Rightarrow> u32" where
  "bloom_nHash bitsPerKey =
     (let n = bitsPerKey * 6243314768165359 div 2 ^ 53
      in if n < 1 then 1 else if 30 < n then 30 else word_of_int n)"

definition NewFilter :: "int \<Rightarrow> int \<Rightarrow> Filter" where
  "NewFilter numKeys0 bitsPerKey0 =
     (let numKeys = (if numKeys0 < 0 then 0 else numKeys0);
          bitsPerKey = (if bitsPerKey0 < 1 then 1 else bitsPerKey0);
          numBits0 = (word_of_int (numKeys * bitsPerKey) :: u32);
          numBits1 = (if numBits0 < 64 then 64 else numBits0);
          nbytes = (numBits1 + 7) div 8
      in \<lparr>bf_bits = replicate (unat nbytes) 0, bf_nHash = bloom_nHash bitsPerKey,
          bf_numBits = nbytes * 8\<rparr>)"

definition bloom_pos :: "u64 \<times> u64 \<Rightarrow> u32 \<Rightarrow> nat \<Rightarrow> u32" where
  "bloom_pos h numBits i = ((ucast (fst h) :: u32) + of_nat i * ucast (snd h)) mod numBits"

definition set_bit_at :: "u32 \<Rightarrow> bytes \<Rightarrow> bytes" where
  "set_bit_at p bits = bits[unat (p div 8) := bits ! unat (p div 8) OR push_bit (unat (p mod 8)) 1]"

definition test_bit_at :: "u32 \<Rightarrow> bytes \<Rightarrow> bool" where
  "test_bit_at p bits \<longleftrightarrow> bits ! unat (p div 8) AND push_bit (unat (p mod 8)) 1 \<noteq> 0"

definition bloom_Add :: "(bytes \<Rightarrow> u64 \<times> u64) \<Rightarrow> bytes \<Rightarrow> Filter \<Rightarrow> Filter" where
  "bloom_Add sum128 key f =
     (if bf_bits f = [] then f
      else f\<lparr>bf_bits := fold (\<lambda>i. set_bit_at (bloom_pos (sum128 key) (bf_numBits f) i))
                             [0..<unat (bf_nHash f)] (bf_bits f)\<rparr>)"

definition MayContain :: "(bytes \<Rightarrow> u64 \<times> u64) \<Rightarrow> bytes \<Rightarrow> Filter \<Rightarrow> bool" where
  "MayContain sum128 key f \<longleftrightarrow> bf_bits f \<noteq> [] \<and>
     (\<forall>i \<in> set [0..<unat (bf_nHash f)]. test_bit_at (bloom_pos (sum128 key) (bf_numBits f) i) (bf_bits f))"

definition bloom_Encode :: "Filter \<Rightarrow> bytes" where
  "bloom_Encode f = (ucast (bf_nHash f) :: byte) # bf_bits f"

definition DecodeFilter :: "bytes \<Rightarrow> Filter" where
  "DecodeFilter data =
     (case data of
        [] \<Rightarrow> \<lparr>bf_bits = [], bf_nHash = 0, bf_numBits = 0\<rparr>
      | n # bits \<Rightarrow> \<lparr>bf_bits = bits, bf_nHash = ucast n, bf_numBits = of_nat (length bits * 8)\<rparr>)"

section \<open>Bits\<close>

definition bf_ok :: "Filter \<Rightarrow> bool" where
  "bf_ok f \<longleftrightarrow> 0 < unat (bf_numBits f) \<and> unat (bf_numBits f) = 8 * length (bf_bits f) \<and> unat (bf_nHash f) < 256"

lemma pos_in_range:
  assumes "0 < unat n" "unat n = 8 * len"
  shows "unat (bloom_pos h n i div 8) < len"
proof -
  have "unat (bloom_pos h n i) < unat n"
    using assms(1) by (simp add: bloom_pos_def unat_mod)
  then show ?thesis using assms(2) by (simp add: unat_div)
qed

lemma length_set_bit_at [simp]: "length (set_bit_at p bits) = length bits"
  by (simp add: set_bit_at_def)

lemma test_bit_at_iff: "test_bit_at p bits \<longleftrightarrow> bit (bits ! unat (p div 8)) (unat (p mod 8))"
proof -
  have "unat (p mod 8) < 8" by (simp add: unat_mod)
  then show ?thesis
    unfolding test_bit_at_def by (auto simp: push_bit_eq_mult and_exp_eq_0_iff_not_bit)
qed

lemma test_set_bit_at:
  assumes "unat (p div 8) < length bits"
  shows "test_bit_at p (set_bit_at p bits)"
proof -
  have "unat (p mod 8) < 8" by (simp add: unat_mod)
  then show ?thesis
    unfolding test_bit_at_iff using assms by (simp add: set_bit_at_def bit_or_iff bit_exp_iff possible_bit_def)
qed

lemma test_set_bit_at_mono: "test_bit_at q bits \<Longrightarrow> test_bit_at q (set_bit_at p bits)"
  unfolding test_bit_at_iff
  by (cases "unat (q div 8) < length bits"; cases "unat (q div 8) = unat (p div 8)")
    (auto simp: set_bit_at_def bit_or_iff nth_list_update list_update_beyond)

lemma fold_set_bits:
  "length (fold (\<lambda>i. set_bit_at (pos i)) is bits) = length bits"
  "test_bit_at q bits \<Longrightarrow> test_bit_at q (fold (\<lambda>i. set_bit_at (pos i)) is bits)"
  by (induction "is" arbitrary: bits) (auto simp: test_set_bit_at_mono)

lemma fold_set_bits_test:
  "j \<in> set is \<Longrightarrow> (\<And>i. unat (pos i div 8) < length bits) \<Longrightarrow>
     test_bit_at (pos j) (fold (\<lambda>i. set_bit_at (pos i)) is bits)"
  by (induction "is" arbitrary: bits) (auto simp: fold_set_bits test_set_bit_at)

lemma bf_ok_bits: "bf_ok f \<Longrightarrow> bf_bits f \<noteq> []"
proof -
  assume "bf_ok f"
  then have "0 < 8 * length (bf_bits f)" unfolding bf_ok_def by metis
  then show ?thesis by auto
qed

lemma bloom_Add_ok: "bf_ok f \<Longrightarrow> bf_ok (bloom_Add sum128 k f)"
  by (frule bf_ok_bits) (simp add: bf_ok_def bloom_Add_def fold_set_bits)

lemma bloom_Add_contains: "bf_ok f \<Longrightarrow> MayContain sum128 k (bloom_Add sum128 k f)"
proof -
  assume ok: "bf_ok f"
  then have ne: "bf_bits f \<noteq> []" by (rule bf_ok_bits)
  have "unat (bloom_pos (sum128 k) (bf_numBits f) i div 8) < length (bf_bits f)" for i
    using ok unfolding bf_ok_def by (intro pos_in_range) blast+
  then have "test_bit_at (bloom_pos (sum128 k) (bf_numBits f) j)
      (fold (\<lambda>i. set_bit_at (bloom_pos (sum128 k) (bf_numBits f) i)) [0..<unat (bf_nHash f)] (bf_bits f))"
    if "j \<in> set [0..<unat (bf_nHash f)]" for j
    using that by (rule fold_set_bits_test [rotated])
  moreover have "fold (\<lambda>i. set_bit_at (bloom_pos (sum128 k) (bf_numBits f) i)) [0..<unat (bf_nHash f)] (bf_bits f) \<noteq> []"
    using ne fold_set_bits(1) by (metis length_0_conv)
  ultimately show ?thesis using ne by (simp add: MayContain_def bloom_Add_def)
qed

lemma bloom_Add_keeps: "MayContain sum128 k f \<Longrightarrow> MayContain sum128 k (bloom_Add sum128 k' f)"
proof -
  assume m: "MayContain sum128 k f"
  have "fold (\<lambda>i. set_bit_at (bloom_pos (sum128 k') (bf_numBits f) i)) [0..<unat (bf_nHash f)] (bf_bits f) \<noteq> []"
    using m fold_set_bits(1) by (metis MayContain_def length_0_conv)
  with m show ?thesis by (simp add: MayContain_def bloom_Add_def fold_set_bits(2))
qed

lemma bloom_Add_all:
  "bf_ok f \<Longrightarrow> bf_ok (fold (bloom_Add sum128) ks f) \<and>
     (\<forall>k. k \<in> set ks \<or> MayContain sum128 k f \<longrightarrow> MayContain sum128 k (fold (bloom_Add sum128) ks f))"
  by (induction ks arbitrary: f) (auto simp: bloom_Add_ok bloom_Add_contains bloom_Add_keeps)

lemma DecodeFilter_Encode: "bf_ok f \<Longrightarrow> DecodeFilter (bloom_Encode f) = f"
proof -
  assume ok: "bf_ok f"
  then have "(ucast (ucast (bf_nHash f) :: byte) :: u32) = bf_nHash f"
    by (intro word_unat_eq_iff [THEN iffD2])
      (simp add: bf_ok_def unsigned_ucast_eq unsigned_take_bit_eq take_bit_nat_eq_self)
  moreover have "length (bf_bits f) * 8 = unat (bf_numBits f)" using ok by (simp add: bf_ok_def)
  then have "(of_nat (length (bf_bits f) * 8) :: u32) = bf_numBits f" by simp
  ultimately show ?thesis by (simp add: DecodeFilter_def bloom_Encode_def)
qed

text \<open>The bits requested, as \<^verbatim>\<open>NewFilter\<close> computes them before rounding to bytes.\<close>

definition bloom_request :: "int \<Rightarrow> int \<Rightarrow> u32" where
  "bloom_request numKeys bitsPerKey = word_of_int (max 0 numKeys * max 1 bitsPerKey)"

lemma NewFilter_ok:
  assumes "bloom_request n b \<le> - 8"
  shows "bf_ok (NewFilter n b)"
proof -
  define r where "r = (if bloom_request n b < 64 then 64 else bloom_request n b)"
  have r: "64 \<le> unat r" "unat r \<le> 2 ^ 32 - 8"
    using assms by (auto simp: r_def word_le_nat_alt word_less_nat_alt not_less split: if_splits)
  have s: "unat (r + 7) = unat r + 7" using r by (simp add: unat_word_ariths)
  define m where "m = unat ((r + 7) div 8)"
  have m: "m = (unat r + 7) div 8" by (simp add: m_def unat_div s)
  have "8 * m \<le> unat r + 7" unfolding m by simp
  moreover have "0 < m" "8 * m < 2 ^ 32" using r m by linarith+
  moreover have "unat ((r + 7) div 8 * 8) = 8 * m"
    using \<open>8 * m < 2 ^ 32\<close> by (simp add: unat_word_ariths m_def mult.commute)
  moreover have "unat (bloom_nHash c) < 256" for c
    by (cases "c * 6243314768165359 div 2 ^ 53 < 1"; cases "30 < c * 6243314768165359 div 2 ^ 53")
      (simp_all add: bloom_nHash_def Let_def unsigned_of_int take_bit_int_eq_self)
  moreover have "NewFilter n b = \<lparr>bf_bits = replicate m 0, bf_nHash = bloom_nHash (max 1 b), bf_numBits = (r + 7) div 8 * 8\<rparr>"
    by (auto simp: NewFilter_def bloom_request_def r_def m_def Let_def max_def not_less)
  ultimately show ?thesis by (simp add: bf_ok_def)
qed

section \<open>Properties\<close>

text \<open>
  C35. No false negatives, for any hash function: every key added to a new filter is found, before and
  after the filter is stored and loaded, and loading gives back the filter that was stored.  The
  requested number of bits must not lie within 7 of wrapping around 2^32.
\<close>

theorem bloom_no_false_negatives:
  assumes "bloom_request numKeys bitsPerKey \<le> - 8" "f = fold (bloom_Add sum128) ks (NewFilter numKeys bitsPerKey)"
  shows "DecodeFilter (bloom_Encode f) = f \<and> (\<forall>k \<in> set ks. MayContain sum128 k f)"
  using bloom_Add_all [OF NewFilter_ok [OF assms(1)]] assms(2) by (auto intro: DecodeFilter_Encode)

theorem bloom_no_false_negatives_witness:
  "MayContain (\<lambda>k. (of_nat (length k), 77))  [1, 2]
     (fold (bloom_Add (\<lambda>k. (of_nat (length k), 77))) [[1, 2], [3]] (NewFilter 2 10))"
proof -
  have "bloom_request 2 10 \<le> - 8" by (simp add: bloom_request_def)
  from bloom_no_false_negatives [OF this refl, of "\<lambda>k. (of_nat (length k), 77)" "[[1, 2], [3]]"]
  show ?thesis by simp
qed

text \<open>
  The exception is real: when the requested number of bits is within 7 of wrapping around, the
  filter gets no bits at all, drops every key and denies every key.
\<close>

theorem bloom_wraps_to_empty:
  assumes "- 8 < bloom_request numKeys bitsPerKey"
  shows "\<not> MayContain sum128 k (fold (bloom_Add sum128) ks (NewFilter numKeys bitsPerKey))"
proof -
  let ?r = "bloom_request numKeys bitsPerKey"
  have r: "2 ^ 32 - 8 < unat ?r" using assms by (simp add: word_less_nat_alt)
  then have ge: "\<not> ?r < 64" by (simp add: word_less_nat_alt)
  have "unat (?r + 7) = (unat ?r + 7) mod 2 ^ 32" by (simp add: unat_word_ariths)
  also have "\<dots> = unat ?r + 7 - 2 ^ 32"
    using r unat_u32_less [of ?r] by (simp add: le_mod_geq)
  also have "\<dots> < 8" using unat_u32_less [of ?r] by simp
  finally have "(?r + 7) div 8 = 0" by (intro word_unat_eq_iff [THEN iffD2]) (simp add: unat_div)
  then have "bf_bits (NewFilter numKeys bitsPerKey) = []"
    using ge by (auto simp: NewFilter_def bloom_request_def Let_def max_def not_less split: if_splits)
  moreover have "fold (bloom_Add sum128) ks f = f" if "bf_bits f = []" for f
    using that by (induction ks) (simp_all add: bloom_Add_def)
  ultimately show ?thesis by (simp add: MayContain_def)
qed

theorem bloom_wraps_to_empty_witness:
  "\<not> MayContain (\<lambda>k. (1, 1)) [9] (fold (bloom_Add (\<lambda>k. (1, 1))) [[9]] (NewFilter 4294967295 1))"
  by (rule bloom_wraps_to_empty) (simp add: bloom_request_def)

end
