(* ===== verification/Hlc.thy ===== *)
theory Hlc
  imports Prelude
begin

unbundle bit_operations_syntax

text \<open>
  The hybrid logical clock of \<^verbatim>\<open>internal/hlc/hlc.go\<close>.  The reading of \<^verbatim>\<open>time.Now().UnixMilli()\<close> is the
  argument \<open>now\<close> of each operation; it may jump in either direction between calls.  \<^verbatim>\<open>int64\<close>
  comparisons are signed comparisons of 64-bit words.
\<close>

section \<open>Model\<close>

record Clock =
  clk_wall :: i64
  clk_logical :: u32

definition NewClock :: Clock where
  "NewClock = \<lparr>clk_wall = 0, clk_logical = 0\<rparr>"

definition hlc_stamp :: "Clock \<Rightarrow> u64" where
  "hlc_stamp c = push_bit 16 (clk_wall c) OR ucast (clk_logical c)"

definition hlc_Now :: "i64 \<Rightarrow> Clock \<Rightarrow> u64 \<times> Clock" where
  "hlc_Now now c =
     (let c1 = (if sint (clk_wall c) < sint now then c\<lparr>clk_wall := now, clk_logical := 0\<rparr>
                else c\<lparr>clk_logical := clk_logical c + 1\<rparr>)
      in (hlc_stamp c1, c1))"

definition hlc_Update :: "i64 \<Rightarrow> u64 \<Rightarrow> Clock \<Rightarrow> Clock" where
  "hlc_Update now remote c =
     (let remoteWall = drop_bit 16 remote;
          remoteLogical = (ucast (remote AND 0xFFFF) :: u32)
      in if sint (clk_wall c) < sint now \<and> sint remoteWall < sint now then
           c\<lparr>clk_wall := now, clk_logical := 0\<rparr>
         else if sint now \<le> sint (clk_wall c) \<and> sint remoteWall \<le> sint (clk_wall c) then
           (let l = (if clk_wall c = remoteWall \<and> clk_logical c < remoteLogical then remoteLogical
                     else clk_logical c)
            in c\<lparr>clk_logical := l + 1\<rparr>)
         else if sint now \<le> sint remoteWall \<and> sint (clk_wall c) \<le> sint remoteWall then
           c\<lparr>clk_wall := remoteWall, clk_logical := remoteLogical + 1\<rparr>
         else c)"

section \<open>Timestamps as numbers\<close>

text \<open>Wall times below 2^47 milliseconds (the year 6429) and logical counters below 2^16.\<close>

definition wall_ok :: "i64 \<Rightarrow> bool" where
  "wall_ok w \<longleftrightarrow> unat w < 2 ^ 47"

definition clk_ok :: "Clock \<Rightarrow> bool" where
  "clk_ok c \<longleftrightarrow> wall_ok (clk_wall c) \<and> unat (clk_logical c) < 2 ^ 16"

lemma sint_wall: "wall_ok w \<Longrightarrow> sint w = uint w"
proof -
  assume "wall_ok w"
  then have "int (unat w) < 2 ^ 47" unfolding wall_ok_def by (metis of_nat_less_iff of_nat_numeral of_nat_power)
  then have "uint w < 2 ^ 63" unfolding uint_nat by simp
  moreover have "- (2 ^ 63) \<le> uint w" by (rule order_trans [OF _ unsigned_greater_eq]) simp
  ultimately show ?thesis by (simp add: sint_uint signed_take_bit_int_eq_self)
qed

lemma sint_wall_compare:
  "wall_ok v \<Longrightarrow> wall_ok w \<Longrightarrow> sint v < sint w \<longleftrightarrow> unat v < unat w"
  "wall_ok v \<Longrightarrow> wall_ok w \<Longrightarrow> sint v \<le> sint w \<longleftrightarrow> unat v \<le> unat w"
  by (simp_all only: sint_wall word_less_def [symmetric] word_le_def [symmetric] word_less_nat_alt word_le_nat_alt)

lemma unat_stamp:
  assumes "clk_ok c"
  shows "unat (hlc_stamp c) = unat (clk_wall c) * 2 ^ 16 + unat (clk_logical c)"
proof -
  let ?l = "ucast (clk_logical c) :: u64"
  have ul: "unat ?l = unat (clk_logical c)" 
    using unat_u32_less [of "clk_logical c"] by (simp add: unsigned_ucast_eq unsigned_take_bit_eq take_bit_nat_eq_self)
  have uw: "unat (push_bit 16 (clk_wall c)) = unat (clk_wall c) * 2 ^ 16"
    using assms by (simp add: clk_ok_def wall_ok_def push_bit_eq_mult unat_word_ariths)
  have low: "take_bit 16 ?l = ?l"
    using ul assms by (intro word_unat_eq_iff [THEN iffD2]) (simp add: unsigned_take_bit_eq take_bit_nat_eq_self clk_ok_def)
  have "\<not> bit (push_bit 16 (clk_wall c)) n \<or> \<not> bit ?l n" for n
    using low by (metis bit_push_bit_iff bit_take_bit_iff not_le)
  then have "push_bit 16 (clk_wall c) + ?l = push_bit 16 (clk_wall c) OR ?l" by (rule disjunctive_add)
  then have "hlc_stamp c = push_bit 16 (clk_wall c) + ?l"
    by (simp add: hlc_stamp_def)
  moreover have "unat (push_bit 16 (clk_wall c)) + unat ?l < 2 ^ 64"
    using assms by (simp add: uw ul clk_ok_def wall_ok_def)
  ultimately show ?thesis by (simp add: unat_word_ariths uw ul)
qed

section \<open>Monotonicity\<close>

lemma stamp_less_iff:
  "clk_ok c \<Longrightarrow> clk_ok d \<Longrightarrow> hlc_stamp c < hlc_stamp d \<longleftrightarrow>
     unat (clk_wall c) < unat (clk_wall d) \<or>
     clk_wall c = clk_wall d \<and> unat (clk_logical c) < unat (clk_logical d)"
  unfolding word_less_nat_alt unat_stamp
  by (auto simp: clk_ok_def word_unat_eq_iff)

lemma Now_step:
  assumes "wall_ok (clk_wall c)" "unat (clk_logical c) < 2 ^ 16 - 1" "wall_ok now" "hlc_Now now c = (ts, c')"
  shows "clk_ok c \<and> clk_ok c' \<and> ts = hlc_stamp c' \<and> hlc_stamp c < ts \<and>
    unat (clk_logical c') \<le> unat (clk_logical c) + 1"
proof -
  have ok: "clk_ok c" using assms(1,2) by (simp add: clk_ok_def)
  have l: "unat (clk_logical c + 1) = unat (clk_logical c) + 1"
    using assms(2) by (simp add: unat_word_ariths)
  have ok': "clk_ok c'" "unat (clk_logical c') \<le> unat (clk_logical c) + 1"
    using assms l by (auto simp: hlc_Now_def Let_def clk_ok_def split: if_splits)
  have ts: "ts = hlc_stamp c'" using assms(4) by (auto simp: hlc_Now_def Let_def)
  have "hlc_stamp c < hlc_stamp c'"
    unfolding stamp_less_iff [OF ok ok'(1)]
    using assms(4) sint_wall_compare(1) [OF assms(1,3)] l
    by (auto simp: hlc_Now_def Let_def split: if_splits)
  with ok ok' ts show ?thesis by simp
qed

text \<open>A sequence of readings, each producing a timestamp.\<close>

fun hlc_nows :: "i64 list \<Rightarrow> Clock \<Rightarrow> u64 list" where
  "hlc_nows [] c = []"
| "hlc_nows (n # ns) c = (case hlc_Now n c of (ts, c') \<Rightarrow> ts # hlc_nows ns c')"

lemma hlc_nows_sorted:
  assumes "wall_ok (clk_wall c)" "unat (clk_logical c) + length ns < 2 ^ 16" "\<forall>n \<in> set ns. wall_ok n"
  shows "sorted_wrt (<) (hlc_stamp c # hlc_nows ns c)"
  using assms
proof (induction ns arbitrary: c)
  case (Cons n ns)
  obtain ts c' where now: "hlc_Now n c = (ts, c')" by (cases "hlc_Now n c")
  have "unat (clk_logical c) < 2 ^ 16 - 1" "wall_ok n" using Cons.prems by simp_all
  from Now_step [OF Cons.prems(1) this now]
  have s: "clk_ok c'" "ts = hlc_stamp c'" "hlc_stamp c < ts" "unat (clk_logical c') \<le> unat (clk_logical c) + 1"
    by blast+
  have rest: "sorted_wrt (<) (hlc_stamp c' # hlc_nows ns c')"
  proof (rule Cons.IH)
    show "wall_ok (clk_wall c')" using s(1) by (simp add: clk_ok_def)
    show "unat (clk_logical c') + length ns < 2 ^ 16" using s(4) Cons.prems(2) by simp
    show "\<forall>n \<in> set ns. wall_ok n" using Cons.prems(3) by simp
  qed
  then have "\<forall>t \<in> set (hlc_nows ns c'). hlc_stamp c < t" using s(2,3) by (meson less_trans sorted_wrt.simps(2))
  with rest s(2,3) now show ?case by simp
qed simp

section \<open>Properties\<close>



text \<open>
  Receiving a remote timestamp pushes the clock past it: the next local timestamp exceeds both the
  remote one and everything issued before.
\<close>

theorem hlc_update_dominates:
  assumes "wall_ok (clk_wall c)" "unat (clk_logical c) < 2 ^ 16 - 2" "wall_ok n1" "wall_ok n2"
    "unat remote < 2 ^ 63" "unat (remote AND 0xFFFF) < 2 ^ 16 - 2" "hlc_Now n2 (hlc_Update n1 remote c) = (ts, c')"
  shows "remote < ts \<and> hlc_stamp c < ts"
proof -
  let ?rw = "drop_bit 16 remote" and ?rl = "ucast (remote AND 0xFFFF) :: u32"
  define rc where "rc = \<lparr>clk_wall = ?rw, clk_logical = ?rl\<rparr>"
  define d where "d = hlc_Update n1 remote c"
  have mask: "remote AND 0xFFFF = take_bit 16 remote" by (simp add: take_bit_eq_mask mask_eq_exp_minus_1)
  have ul: "unat ?rl = unat (remote AND 0xFFFF)"
    using assms(6) by (simp add: unsigned_ucast_eq unsigned_take_bit_eq take_bit_nat_eq_self)
  have uw: "unat ?rw = unat remote div 2 ^ 16" by (simp add: drop_bit_eq_div unat_div)
  have rw: "wall_ok ?rw" using assms(5) by (simp add: wall_ok_def uw less_mult_imp_div_less)
  have rok: "clk_ok rc" using rw ul assms(6) by (simp add: clk_ok_def rc_def)
  have lo: "unat (remote AND 0xFFFF) = unat remote mod 2 ^ 16"
    unfolding mask by (simp add: take_bit_eq_mod unat_mod)
  have "unat (hlc_stamp rc) = unat remote div 2 ^ 16 * 2 ^ 16 + unat remote mod 2 ^ 16"
    unfolding unat_stamp [OF rok] by (simp only: rc_def Clock.select_convs ul uw lo)
  then have rem: "hlc_stamp rc = remote" unfolding word_unat_eq_iff by (simp only: div_mult_mod_eq)
  have cok: "clk_ok c" using assms(1,2) by (simp add: clk_ok_def)
  have inc: "unat (l + 1) = unat l + 1" if "unat l < 2 ^ 16 - 2" for l :: u32
    using that by (simp add: unat_word_ariths)
  note cmp = sint_wall_compare [OF assms(1,3)] sint_wall_compare [OF assms(3,1)] sint_wall_compare [OF rw assms(3)]
    sint_wall_compare [OF assms(3) rw] sint_wall_compare [OF assms(1) rw] sint_wall_compare [OF rw assms(1)]
  let ?L = "if clk_wall c = ?rw \<and> clk_logical c < ?rl then ?rl else clk_logical c"
  consider (phys) "d = c\<lparr>clk_wall := n1, clk_logical := 0\<rparr>" "unat (clk_wall c) < unat n1" "unat ?rw < unat n1"
    | (loc) "d = c\<lparr>clk_logical := ?L + 1\<rparr>" "unat n1 \<le> unat (clk_wall c)" "unat ?rw \<le> unat (clk_wall c)"
    | (rem) "d = c\<lparr>clk_wall := ?rw, clk_logical := ?rl + 1\<rparr>" "unat (clk_wall c) < unat ?rw"
  proof -
    have d: "d = (if unat (clk_wall c) < unat n1 \<and> unat ?rw < unat n1 then c\<lparr>clk_wall := n1, clk_logical := 0\<rparr>
      else if unat n1 \<le> unat (clk_wall c) \<and> unat ?rw \<le> unat (clk_wall c) then c\<lparr>clk_logical := ?L + 1\<rparr>
      else if unat n1 \<le> unat ?rw \<and> unat (clk_wall c) \<le> unat ?rw then c\<lparr>clk_wall := ?rw, clk_logical := ?rl + 1\<rparr>
      else c)"
      unfolding d_def hlc_Update_def Let_def cmp ..
    show thesis
    proof (cases "unat (clk_wall c) < unat n1 \<and> unat ?rw < unat n1")
      case True
      with d phys show ?thesis by simp
    next
      case F1: False
      show ?thesis
      proof (cases "unat n1 \<le> unat (clk_wall c) \<and> unat ?rw \<le> unat (clk_wall c)")
        case True
        with F1 d loc show ?thesis by auto
      next
        case False
        with F1 have le: "unat n1 \<le> unat ?rw" "unat (clk_wall c) < unat ?rw" by linarith+
        with F1 False d have "d = c\<lparr>clk_wall := ?rw, clk_logical := ?rl + 1\<rparr>" by auto
        with le rem show ?thesis by blast
      qed
    qed
  qed
  then have d: "wall_ok (clk_wall d) \<and> unat (clk_logical d) < 2 ^ 16 - 1 \<and>
    (unat (clk_wall c) < unat (clk_wall d) \<or> clk_wall c = clk_wall d \<and> unat (clk_logical c) < unat (clk_logical d)) \<and>
    (unat (clk_wall rc) < unat (clk_wall d) \<or> clk_wall rc = clk_wall d \<and> unat (clk_logical rc) < unat (clk_logical d))"
  proof cases
    case phys
    then show ?thesis using assms(3) by (simp add: rc_def)
  next
    case loc
    have L: "unat ?L < 2 ^ 16 - 2" "unat (clk_logical c) \<le> unat ?L" "clk_wall c = ?rw \<longrightarrow> unat ?rl \<le> unat ?L"
      using assms(2,6) ul by (auto simp: word_less_nat_alt)
    have sel: "clk_wall d = clk_wall c" "clk_logical d = ?L + 1" "clk_wall rc = ?rw" "clk_logical rc = ?rl"
      unfolding loc(1) rc_def by simp_all
    have big: "unat (clk_logical c) < unat (?L + 1)" "unat (?L + 1) < 2 ^ 16 - 1"
      "clk_wall c = ?rw \<Longrightarrow> unat ?rl < unat (?L + 1)"
      using L unfolding inc [OF L(1)] by linarith+
    have "unat ?rw < unat (clk_wall c) \<or> ?rw = clk_wall c"
      using loc(3) unfolding le_less word_unat_eq_iff by blast
    then show ?thesis unfolding sel using assms(1) big by metis
  next
    case rem
    then show ?thesis using rw inc [of ?rl] ul assms(6) by (simp add: rc_def)
  qed
  then have dok: "clk_ok d" by (simp add: clk_ok_def)
  have dom: "hlc_stamp c < hlc_stamp d \<and> hlc_stamp rc < hlc_stamp d"
    unfolding stamp_less_iff [OF cok dok] stamp_less_iff [OF rok dok] using d by blast
  have "hlc_stamp d < ts" using Now_step [OF _ _ assms(4), of d ts c'] d assms(7) [folded d_def] by blast
  with dom rem show ?thesis by (metis less_trans)
qed

theorem hlc_update_dominates_witness:
  "(655361 :: u64) < fst (hlc_Now 5 (hlc_Update 5 655361 NewClock))"
proof -
  obtain ts c' where now: "hlc_Now 5 (hlc_Update 5 655361 NewClock) = (ts, c')" by (cases "hlc_Now 5 (hlc_Update 5 655361 NewClock)")
  have "655361 < ts \<and> hlc_stamp NewClock < ts"
    by (rule hlc_update_dominates [OF _ _ _ _ _ _ now]) (simp_all add: NewClock_def wall_ok_def)
  with now show ?thesis by simp
qed

text \<open>
  The bound of 2^16 is sharp: the counter is not confined to its 16 bits, so when it passes 65535
  within an odd millisecond the next timestamp is smaller than the one before, a repetition of the
  first timestamp of that millisecond.
\<close>

theorem hlc_overflow_goes_back:
  assumes "wall_ok w" "odd (unat w)" "sint now \<le> sint w" "c = \<lparr>clk_wall = w, clk_logical = 65535\<rparr>"
    "hlc_Now now c = (ts, c')"
  shows "ts < hlc_stamp c \<and> ts = hlc_stamp \<lparr>clk_wall = w, clk_logical = 0\<rparr>"
proof -
  have ts: "ts = push_bit 16 w OR 65536" using assms(3-5) by (auto simp: hlc_Now_def Let_def hlc_stamp_def)
  have "odd w" using assms(2) by (simp add: bit_unsigned_iff flip: bit_0)
  then have "w OR 1 = w" by (simp add: or_one_eq)
  then have "push_bit 16 w OR push_bit 16 1 = push_bit 16 w" by (metis push_bit_or)
  then have "push_bit 16 w OR 65536 = push_bit 16 w" by simp
  then have "ts = hlc_stamp \<lparr>clk_wall = w, clk_logical = 0\<rparr>" using ts by (simp add: hlc_stamp_def)
  moreover have "hlc_stamp \<lparr>clk_wall = w, clk_logical = 0\<rparr> < hlc_stamp c"
    using assms(1,4) by (subst stamp_less_iff) (simp_all add: clk_ok_def)
  ultimately show ?thesis by simp
qed

theorem hlc_overflow_goes_back_witness:
  "fst (hlc_Now 7 \<lparr>clk_wall = 7, clk_logical = 65535\<rparr>) < hlc_stamp \<lparr>clk_wall = 7, clk_logical = 65535\<rparr>"
proof -
  obtain ts c' where now: "hlc_Now 7 \<lparr>clk_wall = 7, clk_logical = 65535\<rparr> = (ts, c')"
    by (cases "hlc_Now 7 \<lparr>clk_wall = 7, clk_logical = 65535\<rparr>")
  have "ts < hlc_stamp \<lparr>clk_wall = 7, clk_logical = 65535\<rparr> \<and> ts = hlc_stamp \<lparr>clk_wall = 7, clk_logical = 0\<rparr>"
    by (rule hlc_overflow_goes_back [OF _ _ _ refl now]) (simp_all add: wall_ok_def)
  then show ?thesis unfolding now fst_conv by blast
qed

end
