(* ===== verification/Txn.thy ===== *)
theory Txn
  imports Hlc
begin

text \<open>
  The transaction manager of \<^verbatim>\<open>internal/mvcc/txn.go\<close>: snapshot timestamps from the hybrid clock, a set of
  active snapshots, and for each key the timestamp of its last committed write.

  \<open>now\<close> is the physical clock reading of the one clock call an operation makes.  \<^verbatim>\<open>Begin\<close> takes its
  timestamp before it takes the manager's lock, so it is two atomic actions.
\<close>

section \<open>Model\<close>

record TxnManager =
  tm_clock :: Clock
  tm_activeTxns :: "u64 set"
  tm_latestCommits :: "bytes \<rightharpoonup> u64"

record Txn =
  SnapshotTS :: u64
  writeSet :: "bytes set"

definition NewTxnManager :: "Clock \<Rightarrow> TxnManager" where
  "NewTxnManager clock = \<lparr>tm_clock = clock, tm_activeTxns = {}, tm_latestCommits = Map.empty\<rparr>"

definition begin_clock :: "i64 \<Rightarrow> TxnManager \<Rightarrow> u64 \<times> TxnManager" where
  "begin_clock now tm = (case hlc_Now now (tm_clock tm) of (ts, c) \<Rightarrow> (ts, tm\<lparr>tm_clock := c\<rparr>))"

definition begin_register :: "u64 \<Rightarrow> TxnManager \<Rightarrow> Txn \<times> TxnManager" where
  "begin_register ts tm =
     (\<lparr>SnapshotTS = ts, writeSet = {}\<rparr>, tm\<lparr>tm_activeTxns := insert ts (tm_activeTxns tm)\<rparr>)"

definition tm_Begin :: "i64 \<Rightarrow> TxnManager \<Rightarrow> Txn \<times> TxnManager" where
  "tm_Begin now tm = (case begin_clock now tm of (ts, tm1) \<Rightarrow> begin_register ts tm1)"

definition MinActiveSnapshot :: "i64 \<Rightarrow> TxnManager \<Rightarrow> u64 \<times> TxnManager" where
  "MinActiveSnapshot now tm =
     (case hlc_Now now (tm_clock tm) of (ts, c) \<Rightarrow>
        (Min (insert ts (tm_activeTxns tm)), tm\<lparr>tm_clock := c\<rparr>))"

definition tm_conflict :: "Txn \<Rightarrow> TxnManager \<Rightarrow> bool" where
  "tm_conflict txn tm \<longleftrightarrow>
     (\<exists>key \<in> writeSet txn. case tm_latestCommits tm key of None \<Rightarrow> False | Some commitTS \<Rightarrow> SnapshotTS txn < commitTS)"

text \<open>\<open>None\<close> is the aborted outcome \<^verbatim>\<open>(0, false)\<close>.\<close>

definition tm_Commit :: "i64 \<Rightarrow> Txn \<Rightarrow> TxnManager \<Rightarrow> u64 option \<times> TxnManager" where
  "tm_Commit now txn tm =
     (if tm_conflict txn tm
      then (None, tm\<lparr>tm_activeTxns := tm_activeTxns tm - {SnapshotTS txn}\<rparr>)
      else case hlc_Now now (tm_clock tm) of (commitTS, c) \<Rightarrow>
        (Some commitTS,
         tm\<lparr>tm_clock := c,
            tm_latestCommits := (\<lambda>key. if key \<in> writeSet txn then Some commitTS else tm_latestCommits tm key),
            tm_activeTxns := tm_activeTxns tm - {SnapshotTS txn}\<rparr>))"

definition tm_Abort :: "Txn \<Rightarrow> TxnManager \<Rightarrow> TxnManager" where
  "tm_Abort txn tm = tm\<lparr>tm_activeTxns := tm_activeTxns tm - {SnapshotTS txn}\<rparr>"

definition AddWrite :: "bytes \<Rightarrow> Txn \<Rightarrow> Txn" where
  "AddWrite userKey txn = txn\<lparr>writeSet := insert userKey (writeSet txn)\<rparr>"

section \<open>Transactions running side by side\<close>

datatype txn_status = Active | Committed u64 | Aborted

record txn_world =
  tw_tm :: TxnManager
  tw_txns :: "(Txn \<times> txn_status) list"

datatype txn_event =
    TBegin i64
  | TWrite nat bytes
  | TCommit nat i64
  | TAbort nat
  | TMin i64

text \<open>An event on a transaction that is not active changes nothing: its owner is done with it.\<close>

fun txn_exec :: "txn_event \<Rightarrow> txn_world \<Rightarrow> txn_world" where
  "txn_exec (TBegin now) w =
     (case tm_Begin now (tw_tm w) of (txn, tm) \<Rightarrow> \<lparr>tw_tm = tm, tw_txns = tw_txns w @ [(txn, Active)]\<rparr>)"
| "txn_exec (TWrite i key) w =
     (if i < length (tw_txns w) \<and> snd (tw_txns w ! i) = Active
      then w\<lparr>tw_txns := (tw_txns w)[i := (AddWrite key (fst (tw_txns w ! i)), Active)]\<rparr> else w)"
| "txn_exec (TCommit i now) w =
     (if i < length (tw_txns w) \<and> snd (tw_txns w ! i) = Active
      then case tm_Commit now (fst (tw_txns w ! i)) (tw_tm w) of (r, tm) \<Rightarrow>
        \<lparr>tw_tm = tm, tw_txns = (tw_txns w)[i := (fst (tw_txns w ! i),
            case r of None \<Rightarrow> Aborted | Some ts \<Rightarrow> Committed ts)]\<rparr>
      else w)"
| "txn_exec (TAbort i) w =
     (if i < length (tw_txns w) \<and> snd (tw_txns w ! i) = Active
      then \<lparr>tw_tm = tm_Abort (fst (tw_txns w ! i)) (tw_tm w),
            tw_txns = (tw_txns w)[i := (fst (tw_txns w ! i), Aborted)]\<rparr>
      else w)"
| "txn_exec (TMin now) w = w\<lparr>tw_tm := snd (MinActiveSnapshot now (tw_tm w))\<rparr>"

fun event_reading :: "txn_event \<Rightarrow> i64" where
  "event_reading (TBegin now) = now"
| "event_reading (TCommit i now) = now"
| "event_reading (TMin now) = now"
| "event_reading _ = 0"

abbreviation new_txn_world :: txn_world where
  "new_txn_world \<equiv> \<lparr>tw_tm = NewTxnManager NewClock, tw_txns = []\<rparr>"

section \<open>Invariant\<close>

text \<open>A clock that can issue \<open>n\<close> more timestamps without overflowing its counter.\<close>

definition clk_budget :: "nat \<Rightarrow> Clock \<Rightarrow> bool" where
  "clk_budget n c \<longleftrightarrow> wall_ok (clk_wall c) \<and> unat (clk_logical c) + n < 2 ^ 16"

lemma clk_budget_mono: "clk_budget n c \<Longrightarrow> m \<le> n \<Longrightarrow> clk_budget m c"
  by (auto simp: clk_budget_def)

lemma Now_budget:
  assumes "clk_budget (Suc n) c" "wall_ok now" "hlc_Now now c = (ts, c')"
  shows "clk_budget n c' \<and> ts = hlc_stamp c' \<and> hlc_stamp c < ts"
proof -
  have "wall_ok (clk_wall c)" "unat (clk_logical c) < 2 ^ 16 - 1"
    using assms(1) by (auto simp: clk_budget_def)
  from Now_step [OF this assms(2,3)] show ?thesis
    using assms(1) by (auto simp: clk_budget_def clk_ok_def)
qed

definition snap :: "txn_world \<Rightarrow> nat \<Rightarrow> u64" where
  "snap w i = SnapshotTS (fst (tw_txns w ! i))"

definition ws :: "txn_world \<Rightarrow> nat \<Rightarrow> bytes set" where
  "ws w i = writeSet (fst (tw_txns w ! i))"

definition status :: "txn_world \<Rightarrow> nat \<Rightarrow> txn_status" where
  "status w i = snd (tw_txns w ! i)"

definition stamp :: "txn_world \<Rightarrow> u64" where
  "stamp w = hlc_stamp (tm_clock (tw_tm w))"

text \<open>The active set is the set of snapshots of the active transactions, and snapshots are unique.\<close>

definition inv_active :: "txn_world \<Rightarrow> bool" where
  "inv_active w \<longleftrightarrow> (let n = length (tw_txns w) in
     (\<forall>i < n. snap w i \<le> stamp w) \<and> (\<forall>i < n. \<forall>j < n. i \<noteq> j \<longrightarrow> snap w i \<noteq> snap w j) \<and>
     tm_activeTxns (tw_tm w) = {snap w i | i. i < n \<and> status w i = Active})"

text \<open>The last commit of a key is no older than any committed transaction that wrote the key.\<close>

definition inv_commits :: "txn_world \<Rightarrow> bool" where
  "inv_commits w \<longleftrightarrow>
     (\<forall>i < length (tw_txns w). \<forall>ts. status w i = Committed ts \<longrightarrow> snap w i < ts \<and> ts \<le> stamp w \<and>
        (\<forall>k \<in> ws w i. \<exists>c. tm_latestCommits (tw_tm w) k = Some c \<and> ts \<le> c)) \<and>
     (\<forall>k c. tm_latestCommits (tw_tm w) k = Some c \<longrightarrow> c \<le> stamp w)"

text \<open>Snapshot isolation: two committed writers of one key did not run at the same time.\<close>

definition si :: "txn_world \<Rightarrow> bool" where
  "si w \<longleftrightarrow>
     (\<forall>i < length (tw_txns w). \<forall>j < length (tw_txns w). \<forall>ts ts'.
        i \<noteq> j \<longrightarrow> status w i = Committed ts \<longrightarrow> status w j = Committed ts' \<longrightarrow> ws w i \<inter> ws w j \<noteq> {} \<longrightarrow>
        ts \<le> snap w j \<or> ts' \<le> snap w i)"

lemmas txn_views = snap_def ws_def status_def stamp_def

text \<open>Appending a transaction, and replacing the one at position \<open>i\<close>.\<close>

lemma view_snoc:
  assumes "w' = \<lparr>tw_tm = tm, tw_txns = tw_txns w @ [(t, s)]\<rparr>"
  shows "length (tw_txns w') = Suc (length (tw_txns w))"
    "j < length (tw_txns w) \<Longrightarrow> snap w' j = snap w j \<and> ws w' j = ws w j \<and> status w' j = status w j"
    "snap w' (length (tw_txns w)) = SnapshotTS t" "status w' (length (tw_txns w)) = s"
    "tw_tm w' = tm"
  using assms by (auto simp: txn_views nth_append)

lemma view_update:
  assumes "w' = \<lparr>tw_tm = tm, tw_txns = (tw_txns w)[i := (t, s)]\<rparr>" "i < length (tw_txns w)"
    "SnapshotTS t = snap w i"
  shows "length (tw_txns w') = length (tw_txns w)" "snap w' j = snap w j"
    "ws w' j = (if j = i then writeSet t else ws w j)" "status w' j = (if j = i then s else status w j)"
    "tw_tm w' = tm"
  using assms by (auto simp: txn_views nth_list_update)

lemma inv_active_begin:
  assumes "inv_active w" "stamp w < ts" "hlc_stamp (tm_clock tm) = ts"
    "tm_activeTxns tm = insert ts (tm_activeTxns (tw_tm w))"
    "w' = \<lparr>tw_tm = tm, tw_txns = tw_txns w @ [(t, Active)]\<rparr>" "SnapshotTS t = ts"
  shows "inv_active w'"
proof -
  note v = view_snoc [OF assms(5)]
  let ?n = "length (tw_txns w)"
  have st: "stamp w' = ts" using v(5) assms(3) by (simp add: stamp_def)
  have old: "\<forall>i < ?n. snap w i < ts" using assms(1,2) by (auto simp: inv_active_def Let_def intro: le_less_trans)
  have "tm_activeTxns tm = {snap w' i | i. i < Suc ?n \<and> status w' i = Active}"
  proof -
    have "{snap w' i | i. i < Suc ?n \<and> status w' i = Active} =
      insert ts {snap w i | i. i < ?n \<and> status w i = Active}"
      using v(2-4) assms(6) by (auto simp: less_Suc_eq) metis
    then show ?thesis using assms(1,4) by (simp add: inv_active_def Let_def)
  qed
  moreover have "\<forall>i < Suc ?n. snap w' i \<le> ts" using v(2,3) old assms(6) by (auto simp: less_Suc_eq less_imp_le)
  moreover have "\<forall>i < Suc ?n. \<forall>j < Suc ?n. i \<noteq> j \<longrightarrow> snap w' i \<noteq> snap w' j"
    using v(2,3) old assms(1,6) by (auto simp: less_Suc_eq inv_active_def Let_def)
  ultimately show ?thesis using v(1,5) st by (simp add: inv_active_def Let_def)
qed

lemma inv_active_update:
  assumes inv: "inv_active w" and w': "w' = \<lparr>tw_tm = tm, tw_txns = (tw_txns w)[i := (t, s)]\<rparr>"
    and i: "i < length (tw_txns w)" "SnapshotTS t = snap w i" "status w i = Active"
    and tm: "stamp w \<le> hlc_stamp (tm_clock tm)"
      "tm_activeTxns tm = (if s = Active then tm_activeTxns (tw_tm w) else tm_activeTxns (tw_tm w) - {snap w i})"
  shows "inv_active w'"
proof -
  note v = view_update [OF w' i(1,2)]
  let ?n = "length (tw_txns w)"
  have "tm_activeTxns tm = {snap w' j | j. j < ?n \<and> status w' j = Active}"
    using tm(2) inv i v by (auto simp: inv_active_def Let_def split: if_splits; metis)
  moreover have "\<forall>j < ?n. snap w' j \<le> stamp w'"
    using inv tm(1) v by (auto simp: inv_active_def Let_def stamp_def intro: order_trans)
  moreover have "\<forall>j < ?n. \<forall>k < ?n. j \<noteq> k \<longrightarrow> snap w' j \<noteq> snap w' k" using inv v by (simp add: inv_active_def Let_def)
  ultimately show ?thesis using v(1,5) by (simp add: inv_active_def Let_def)
qed

lemma inv_commits_mono:
  assumes "inv_commits w" "stamp w \<le> hlc_stamp (tm_clock tm)" "tm_latestCommits tm = tm_latestCommits (tw_tm w)"
    "tw_tm w' = tm" "length (tw_txns w) \<le> length (tw_txns w')"
    "\<And>j. j < length (tw_txns w') \<Longrightarrow>
       (j < length (tw_txns w) \<and> snap w' j = snap w j \<and> ws w' j = ws w j \<and> status w' j = status w j) \<or>
       (\<forall>ts. status w' j \<noteq> Committed ts)"
  shows "inv_commits w'"
proof -
  have st: "stamp w \<le> stamp w'" using assms(2,4) by (simp add: stamp_def)
  show ?thesis
    unfolding inv_commits_def
  proof (intro conjI allI impI)
    fix j ts assume "j < length (tw_txns w')" "status w' j = Committed ts"
    with assms(6) [of j] have j: "j < length (tw_txns w)" "snap w' j = snap w j" "ws w' j = ws w j"
      "status w j = Committed ts" by auto
    then have old: "snap w j < ts \<and> ts \<le> stamp w \<and>
        (\<forall>k \<in> ws w j. \<exists>c. tm_latestCommits (tw_tm w) k = Some c \<and> ts \<le> c)"
      using assms(1) by (simp add: inv_commits_def)
    show "snap w' j < ts" "ts \<le> stamp w'" using old j st by auto
    show "\<forall>k \<in> ws w' j. \<exists>c. tm_latestCommits (tw_tm w') k = Some c \<and> ts \<le> c"
      using old j assms(3,4) by simp
  next
    fix k c assume "tm_latestCommits (tw_tm w') k = Some c"
    then show "c \<le> stamp w'" using assms(1,3,4) st unfolding inv_commits_def by (metis order_trans)
  qed
qed

lemma si_mono:
  assumes "si w"
    "\<And>j. j < length (tw_txns w') \<Longrightarrow>
       (j < length (tw_txns w) \<and> snap w' j = snap w j \<and> ws w' j = ws w j \<and> status w' j = status w j) \<or>
       (\<forall>ts. status w' j \<noteq> Committed ts)"
  shows "si w'"
  unfolding si_def
proof (intro allI impI)
  fix i j ts ts'
  assume a: "i < length (tw_txns w')" "j < length (tw_txns w')" "i \<noteq> j" "status w' i = Committed ts"
    "status w' j = Committed ts'" "ws w' i \<inter> ws w' j \<noteq> {}"
  with assms(2) [of i] assms(2) [of j] assms(1) show "ts \<le> snap w' j \<or> ts' \<le> snap w' i"
    unfolding si_def by metis
qed

text \<open>A successful commit, with a fresh timestamp and no conflict.\<close>

lemma commit_ok:
  assumes inv: "inv_commits w" "inv_active w" "si w" and i: "i < length (tw_txns w)" "status w i = Active"
    and w': "w' = \<lparr>tw_tm = tm, tw_txns = (tw_txns w)[i := (fst (tw_txns w ! i), Committed ts)]\<rparr>"
    and ts: "stamp w < ts" "hlc_stamp (tm_clock tm) = ts"
    and lc: "tm_latestCommits tm = (\<lambda>k. if k \<in> ws w i then Some ts else tm_latestCommits (tw_tm w) k)"
    and nc: "\<And>k c. k \<in> ws w i \<Longrightarrow> tm_latestCommits (tw_tm w) k = Some c \<Longrightarrow> c \<le> snap w i"
  shows "inv_commits w' \<and> si w'"
proof
  have sn: "SnapshotTS (fst (tw_txns w ! i)) = snap w i" "writeSet (fst (tw_txns w ! i)) = ws w i"
    by (simp_all add: snap_def ws_def)
  note v = view_update [OF w' i(1) sn(1), unfolded sn]
  have st: "stamp w' = ts" using v(5) ts(2) by (simp add: stamp_def)
  have old: "snap w j < t \<and> t \<le> stamp w \<and> (\<forall>k \<in> ws w j. \<exists>c. tm_latestCommits (tw_tm w) k = Some c \<and> t \<le> c)"
    if "j < length (tw_txns w)" "status w j = Committed t" for j t
    using inv(1) that unfolding inv_commits_def by blast
  have ws_eq: "ws w' j = ws w j" for j using v(3) [of j] by simp
  show "inv_commits w'"
    unfolding inv_commits_def
  proof (intro conjI allI impI)
    fix j t assume j: "j < length (tw_txns w')" "status w' j = Committed t"
    have "snap w' j < t \<and> t \<le> stamp w' \<and> (\<forall>k \<in> ws w' j. \<exists>c. tm_latestCommits (tw_tm w') k = Some c \<and> t \<le> c)"
    proof (cases "j = i")
      case True
      then have "t = ts" using j(2) v(4) by simp
      moreover have "snap w i < ts" using inv(2) i(1) ts(1) by (auto simp: inv_active_def Let_def intro: le_less_trans)
      ultimately show ?thesis using True st v(2,5) lc ws_eq by auto
    next
      case False
      then have "status w j = Committed t" "j < length (tw_txns w)" using j v(1,4) by simp_all
      note o = old [OF this(2,1)]
      have "\<exists>c. tm_latestCommits tm k = Some c \<and> t \<le> c" if "k \<in> ws w j" for k
        using o that ts(1) lc by (cases "k \<in> ws w i") auto
      with o ts(1) show ?thesis using st v(2,5) ws_eq by auto
    qed
    then show "snap w' j < t" "t \<le> stamp w'" "\<forall>k \<in> ws w' j. \<exists>c. tm_latestCommits (tw_tm w') k = Some c \<and> t \<le> c"
      by blast+
  next
    fix k c assume c: "tm_latestCommits (tw_tm w') k = Some c"
    have "c = ts \<or> tm_latestCommits (tw_tm w) k = Some c" using c unfolding v(5) lc by (simp split: if_splits)
    moreover have "tm_latestCommits (tw_tm w) k = Some c \<Longrightarrow> c \<le> stamp w" using inv(1) by (simp add: inv_commits_def)
    ultimately show "c \<le> stamp w'" using ts(1) unfolding st by force
  qed
  have key: "t \<le> snap w i" if "j < length (tw_txns w)" "status w j = Committed t" "ws w i \<inter> ws w j \<noteq> {}" for j t
  proof -
    obtain k where "k \<in> ws w i" "k \<in> ws w j" using \<open>ws w i \<inter> ws w j \<noteq> {}\<close> by blast
    then show ?thesis using old [OF that(1,2)] nc order_trans by blast
  qed
  show "si w'"
    unfolding si_def
  proof (intro allI impI)
    fix a b t t'
    assume ab: "a < length (tw_txns w')" "b < length (tw_txns w')" "a \<noteq> b" "status w' a = Committed t"
      "status w' b = Committed t'" "ws w' a \<inter> ws w' b \<noteq> {}"
    consider "a = i" | "b = i" | "a \<noteq> i" "b \<noteq> i" by blast
    then show "t \<le> snap w' b \<or> t' \<le> snap w' a"
    proof cases
      case 1
      with ab have "t' \<le> snap w i" using v(1,4) ws_eq by (intro key [of b]) (simp_all add: Int_commute)
      with 1 show ?thesis using v(2) by simp
    next
      case 2
      with ab have "t \<le> snap w i" using v(1,4) ws_eq by (intro key [of a]) (simp_all add: Int_commute)
      with 2 show ?thesis using v(2) by simp
    next
      case 3
      with ab inv(3) show ?thesis using v(1,2,4) ws_eq unfolding si_def by simp
    qed
  qed
qed

definition txn_inv :: "nat \<Rightarrow> txn_world \<Rightarrow> bool" where
  "txn_inv n w \<longleftrightarrow> inv_active w \<and> inv_commits w \<and> si w \<and> clk_budget n (tm_clock (tw_tm w))"

lemma txn_inv_mono: "txn_inv (Suc n) w \<Longrightarrow> txn_inv n w"
  by (auto simp: txn_inv_def intro: clk_budget_mono)

lemma txn_inv_begin:
  assumes inv: "txn_inv (Suc n) w" and now: "wall_ok now"
  shows "txn_inv n (txn_exec (TBegin now) w)"
proof -
  obtain ts c where nw: "hlc_Now now (tm_clock (tw_tm w)) = (ts, c)" by (cases "hlc_Now now (tm_clock (tw_tm w))")
  let ?tm = "(tw_tm w)\<lparr>tm_clock := c, tm_activeTxns := insert ts (tm_activeTxns (tw_tm w))\<rparr>"
  define w' where "w' = \<lparr>tw_tm = ?tm, tw_txns = tw_txns w @ [(\<lparr>SnapshotTS = ts, writeSet = {}\<rparr>, Active)]\<rparr>"
  have exec: "txn_exec (TBegin now) w = w'"
    using nw by (simp add: w'_def tm_Begin_def begin_clock_def begin_register_def)
  have b: "clk_budget n c" "ts = hlc_stamp c" "stamp w < ts"
    using Now_budget [OF _ now nw] inv by (auto simp: txn_inv_def stamp_def)
  note v = view_snoc [OF w'_def]
  have same: "j < length (tw_txns w) \<and> snap w' j = snap w j \<and> ws w' j = ws w j \<and> status w' j = status w j \<or>
      (\<forall>t. status w' j \<noteq> Committed t)" if "j < length (tw_txns w')" for j
    using that v by (auto simp: less_Suc_eq)
  have "inv_active w'"
    by (rule inv_active_begin [OF _ b(3) _ _ w'_def]) (use inv b(2) in \<open>simp_all add: txn_inv_def\<close>)
  moreover have "inv_commits w'"
    by (rule inv_commits_mono [OF _ _ _ v(5) _ same]) (use inv b v in \<open>auto simp: txn_inv_def less_imp_le\<close>)
  moreover have "si w'" using inv by (intro si_mono [OF _ same]) (auto simp: txn_inv_def)
  ultimately show ?thesis using b(1) v(5) exec by (simp add: txn_inv_def)
qed

text \<open>An event that touches only an active transaction and neither issues a timestamp nor commits.\<close>

lemma txn_inv_local:
  assumes inv: "txn_inv n w" and i: "i < length (tw_txns w)" "status w i = Active"
    and w': "w' = \<lparr>tw_tm = tm, tw_txns = (tw_txns w)[i := (t, s)]\<rparr>" and t: "SnapshotTS t = snap w i"
    and s: "\<And>ts. s \<noteq> Committed ts" and tm: "tm_clock tm = tm_clock (tw_tm w)"
      "tm_latestCommits tm = tm_latestCommits (tw_tm w)"
      "tm_activeTxns tm = (if s = Active then tm_activeTxns (tw_tm w) else tm_activeTxns (tw_tm w) - {snap w i})"
  shows "txn_inv n w'"
proof -
  note v = view_update [OF w' i(1) t]
  have same: "j < length (tw_txns w) \<and> snap w' j = snap w j \<and> ws w' j = ws w j \<and> status w' j = status w j \<or>
      (\<forall>t. status w' j \<noteq> Committed t)" if "j < length (tw_txns w')" for j
    using that v s by auto
  have st: "stamp w \<le> hlc_stamp (tm_clock tm)" using tm(1) by (simp add: stamp_def)
  have "inv_active w'" using inv by (intro inv_active_update [OF _ w' i(1) t i(2) st tm(3)]) (simp add: txn_inv_def)
  moreover have "inv_commits w'"
    using inv v(1) by (intro inv_commits_mono [OF _ st tm(2) v(5) _ same]) (simp_all add: txn_inv_def)
  moreover have "si w'" using inv by (intro si_mono [OF _ same]) (auto simp: txn_inv_def)
  ultimately show ?thesis using inv tm(1) v(5) by (simp add: txn_inv_def)
qed

lemma world_eta: "w\<lparr>tw_txns := xs\<rparr> = \<lparr>tw_tm = tw_tm w, tw_txns = xs\<rparr>" for w :: txn_world
  by simp

lemma txn_inv_commit:
  assumes inv: "txn_inv (Suc n) w" and now: "wall_ok now" and i: "i < length (tw_txns w)" "status w i = Active"
  shows "txn_inv n (txn_exec (TCommit i now) w)"
proof (cases "tm_conflict (fst (tw_txns w ! i)) (tw_tm w)")
  case True
  let ?tm = "(tw_tm w)\<lparr>tm_activeTxns := tm_activeTxns (tw_tm w) - {snap w i}\<rparr>"
  have "txn_exec (TCommit i now) w = \<lparr>tw_tm = ?tm, tw_txns = (tw_txns w)[i := (fst (tw_txns w ! i), Aborted)]\<rparr>"
    using True i by (simp add: tm_Commit_def status_def snap_def)
  from txn_inv_local [OF txn_inv_mono [OF inv] i this] show ?thesis by (simp add: snap_def)
next
  case False
  obtain ts c where nw: "hlc_Now now (tm_clock (tw_tm w)) = (ts, c)" by (cases "hlc_Now now (tm_clock (tw_tm w))")
  define tm where "tm = (tw_tm w)\<lparr>tm_clock := c,
    tm_latestCommits := (\<lambda>k. if k \<in> ws w i then Some ts else tm_latestCommits (tw_tm w) k),
    tm_activeTxns := tm_activeTxns (tw_tm w) - {snap w i}\<rparr>"
  define w' where "w' = \<lparr>tw_tm = tm, tw_txns = (tw_txns w)[i := (fst (tw_txns w ! i), Committed ts)]\<rparr>"
  have exec: "txn_exec (TCommit i now) w = w'"
    using False i nw by (simp add: tm_Commit_def status_def snap_def ws_def w'_def tm_def)
  have b: "clk_budget n c" "ts = hlc_stamp c" "stamp w < ts"
    using Now_budget [OF _ now nw] inv by (auto simp: txn_inv_def stamp_def)
  have "inv_active w'"
    by (rule inv_active_update [OF _ w'_def i(1) _ i(2)])
      (use inv b in \<open>auto simp: txn_inv_def tm_def snap_def less_imp_le\<close>)
  moreover have "inv_commits w' \<and> si w'"
  proof (rule commit_ok [OF _ _ _ i w'_def b(3)])
    fix k c' assume "k \<in> ws w i" "tm_latestCommits (tw_tm w) k = Some c'"
    then show "c' \<le> snap w i" using False by (fastforce simp: tm_conflict_def ws_def snap_def)
  qed (use inv b in \<open>simp_all add: txn_inv_def tm_def\<close>)
  moreover have "tm_clock (tw_tm w') = c" by (simp add: w'_def tm_def)
  ultimately show ?thesis unfolding exec txn_inv_def using b(1) by simp
qed

lemma txn_inv_step:
  assumes inv: "txn_inv (Suc n) w" and now: "wall_ok (event_reading e)"
  shows "txn_inv n (txn_exec e w)"
proof (cases e)
  case (TBegin nw)
  then show ?thesis using txn_inv_begin [OF inv] now by simp
next
  case (TWrite i key)
  show ?thesis
  proof (cases "i < length (tw_txns w) \<and> status w i = Active")
    case True
    have "txn_exec e w = \<lparr>tw_tm = tw_tm w, tw_txns = (tw_txns w)[i := (AddWrite key (fst (tw_txns w ! i)), Active)]\<rparr>"
      using TWrite True by (simp add: status_def)
    from txn_inv_local [OF txn_inv_mono [OF inv] _ _ this] True show ?thesis by (simp add: AddWrite_def snap_def)
  next
    case False
    then show ?thesis using TWrite txn_inv_mono [OF inv] by (auto simp: status_def)
  qed
next
  case (TCommit i nw)
  show ?thesis
  proof (cases "i < length (tw_txns w) \<and> status w i = Active")
    case True
    then show ?thesis using TCommit txn_inv_commit [OF inv] now by simp
  next
    case False
    then show ?thesis using TCommit txn_inv_mono [OF inv] by (auto simp: status_def)
  qed
next
  case (TAbort i)
  show ?thesis
  proof (cases "i < length (tw_txns w) \<and> status w i = Active")
    case True
    have "txn_exec e w = \<lparr>tw_tm = tm_Abort (fst (tw_txns w ! i)) (tw_tm w),
        tw_txns = (tw_txns w)[i := (fst (tw_txns w ! i), Aborted)]\<rparr>"
      using TAbort True by (simp add: status_def)
    from txn_inv_local [OF txn_inv_mono [OF inv] _ _ this] True show ?thesis by (simp add: tm_Abort_def snap_def)
  next
    case False
    then show ?thesis using TAbort txn_inv_mono [OF inv] by (auto simp: status_def)
  qed
next
  case (TMin nw)
  obtain ts c where hn: "hlc_Now nw (tm_clock (tw_tm w)) = (ts, c)" by (cases "hlc_Now nw (tm_clock (tw_tm w))")
  define w' where "w' = w\<lparr>tw_tm := (tw_tm w)\<lparr>tm_clock := c\<rparr>\<rparr>"
  have exec: "txn_exec e w = w'" using TMin hn by (simp add: MinActiveSnapshot_def w'_def)
  have b: "clk_budget n c" "ts = hlc_stamp c" "stamp w < ts"
    using Now_budget [OF _ _ hn] inv now TMin by (auto simp: txn_inv_def stamp_def)
  have v: "snap w' j = snap w j" "ws w' j = ws w j" "status w' j = status w j" "tw_txns w' = tw_txns w"
    "tm_activeTxns (tw_tm w') = tm_activeTxns (tw_tm w)" "stamp w' = ts" "tw_tm w' = (tw_tm w)\<lparr>tm_clock := c\<rparr>" for j
    using b by (simp_all add: w'_def txn_views)
  have "inv_active w'" using inv b(3) v unfolding txn_inv_def inv_active_def Let_def
    by (auto intro: less_imp_le [OF le_less_trans])
  moreover have same: "j < length (tw_txns w) \<and> snap w' j = snap w j \<and> ws w' j = ws w j \<and> status w' j = status w j \<or>
      (\<forall>t. status w' j \<noteq> Committed t)" if "j < length (tw_txns w')" for j
    using that unfolding v(4) by (simp add: v(1-3))
  have le: "stamp w \<le> hlc_stamp (tm_clock ((tw_tm w)\<lparr>tm_clock := c\<rparr>))" using b(2,3) by (simp add: less_imp_le)
  have "inv_commits w" "si w" using inv by (simp_all add: txn_inv_def)
  then have "inv_commits w'" "si w'"
    using inv_commits_mono [OF _ le _ v(7) _ same] si_mono [OF _ same] by (simp_all add: v(4))
  ultimately show ?thesis using b(1) v(7) exec by (simp add: txn_inv_def)
qed

lemma txn_inv_run:
  "txn_inv (length es + n) w \<Longrightarrow> \<forall>e \<in> set es. wall_ok (event_reading e) \<Longrightarrow> txn_inv n (fold txn_exec es w)"
  by (induction es arbitrary: w) (auto intro: txn_inv_step)

lemma txn_inv_new: "n < 2 ^ 16 \<Longrightarrow> txn_inv n new_txn_world"
  by (simp add: txn_inv_def inv_active_def inv_commits_def si_def NewTxnManager_def NewClock_def
      clk_budget_def wall_ok_def Let_def)

section \<open>Properties\<close>

lemma txn_reach:
  assumes "length es < 2 ^ 16" "\<forall>e \<in> set es. wall_ok (event_reading e)"
  shows "txn_inv 0 (fold txn_exec es new_txn_world)"
  using txn_inv_run [of es 0 new_txn_world] txn_inv_new [of "length es"] assms by simp



text \<open>
  C30. The garbage-collection horizon is safe for registered transactions: \<^verbatim>\<open>MinActiveSnapshot\<close> never exceeds
  the snapshot of a transaction that is active.
\<close>

theorem min_active_snapshot_bound:
  assumes "length es < 2 ^ 16" "\<forall>e \<in> set es. wall_ok (event_reading e)"
    "w = fold txn_exec es new_txn_world" "i < length (tw_txns w)" "tw_txns w ! i = (t, Active)"
  shows "fst (MinActiveSnapshot now (tw_tm w)) \<le> SnapshotTS t"
proof -
  have inv: "inv_active w" using txn_reach [OF assms(1,2)] assms(3) by (simp add: txn_inv_def)
  have "tm_activeTxns (tw_tm w) = snap w ` {i. i < length (tw_txns w) \<and> status w i = Active}"
    using inv by (auto simp: inv_active_def Let_def)
  then have "finite (tm_activeTxns (tw_tm w))" "SnapshotTS t \<in> tm_activeTxns (tw_tm w)"
    using assms(4,5) by (auto simp: snap_def status_def image_iff intro: bexI [of _ i])
  then show ?thesis by (auto simp: MinActiveSnapshot_def split: prod.splits intro: Min_le)
qed

theorem min_active_snapshot_bound_witness:
  "fst (MinActiveSnapshot 9 (tw_tm (fold txn_exec [TBegin 5, TBegin 5] new_txn_world))) \<le> 327680"
proof -
  let ?w = "fold txn_exec [TBegin 5, TBegin 5] new_txn_world"
  obtain t t' where w: "tw_txns ?w = [(t, Active), (t', Active)]" "SnapshotTS t = 327680"
    by (simp add: NewTxnManager_def NewClock_def tm_Begin_def begin_clock_def begin_register_def hlc_Now_def
        hlc_stamp_def Let_def)
  have "fst (MinActiveSnapshot 9 (tw_tm ?w)) \<le> SnapshotTS t"
    by (rule min_active_snapshot_bound [OF _ _ refl, where es = "[TBegin 5, TBegin 5]" and i = 0])
      (use w in \<open>simp_all add: wall_ok_def\<close>)
  then show ?thesis unfolding w(2) .
qed

text \<open>
  C21. The horizon is not safe for a transaction that is just starting: \<^verbatim>\<open>Begin\<close> draws its timestamp before
  it registers, and a \<^verbatim>\<open>MinActiveSnapshot\<close> in between, with nothing else active, returns a horizon
  above that timestamp, so compaction may drop versions the new transaction reads.
\<close>

theorem min_active_snapshot_race:
  assumes "clk_budget 2 (tm_clock tm)" "wall_ok n1" "wall_ok n2" "tm_activeTxns tm = {}"
    "begin_clock n1 tm = (ts, tm1)" "MinActiveSnapshot n2 tm1 = (m, tm2)" "begin_register ts tm2 = (txn, tm3)"
  shows "SnapshotTS txn < m \<and> SnapshotTS txn \<in> tm_activeTxns tm3"
proof -
  obtain c where c: "hlc_Now n1 (tm_clock tm) = (ts, c)" "tm1 = tm\<lparr>tm_clock := c\<rparr>"
    using assms(5) by (auto simp: begin_clock_def split: prod.splits)
  obtain ts2 c2 where c2: "hlc_Now n2 c = (ts2, c2)" by (cases "hlc_Now n2 c")
  have "clk_budget 1 c" "ts = hlc_stamp c"
    using Now_budget [OF _ assms(2) c(1), of 1] assms(1) by (simp_all add: numeral_2_eq_2)
  then have "ts < ts2" using Now_budget [OF _ assms(3) c2, of 0] by (metis One_nat_def)
  moreover have "m = ts2" using assms(4,6) c(2) c2 by (auto simp: MinActiveSnapshot_def)
  ultimately show ?thesis using assms(7) by (auto simp: begin_register_def)
qed

theorem min_active_snapshot_race_witness:
  "\<exists>ts tm1 m tm2 txn tm3. begin_clock 5 (NewTxnManager NewClock) = (ts, tm1) \<and>
     MinActiveSnapshot 5 tm1 = (m, tm2) \<and> begin_register ts tm2 = (txn, tm3) \<and> SnapshotTS txn < m"
proof -
  obtain ts tm1 where 1: "begin_clock 5 (NewTxnManager NewClock) = (ts, tm1)" by (cases "begin_clock 5 (NewTxnManager NewClock)")
  obtain m tm2 where 2: "MinActiveSnapshot 5 tm1 = (m, tm2)" by (cases "MinActiveSnapshot 5 tm1")
  obtain txn tm3 where 3: "begin_register ts tm2 = (txn, tm3)" by (cases "begin_register ts tm2")
  have "SnapshotTS txn < m \<and> SnapshotTS txn \<in> tm_activeTxns tm3"
    by (rule min_active_snapshot_race [OF _ _ _ _ 1 2 3])
      (simp_all add: clk_budget_def NewTxnManager_def NewClock_def wall_ok_def)
  with 1 2 3 show ?thesis by blast
qed

end
