(* ===== verification/ByteReader.thy ===== *)
theory ByteReader
  imports Prelude "HOL-Library.Monad_Syntax"
begin

text \<open>
  Reading fields off a byte slice.  A Go decoder keeps an offset into its input, checks
  \<^verbatim>\<open>offset+n > len(data)\<close>, slices and advances; here the input is what is left after the offset,
  and a failed check is \<^term>\<open>None\<close>.
\<close>

definition read_n :: "nat \<Rightarrow> bytes \<Rightarrow> (bytes \<times> bytes) option" where
  "read_n n d = (if length d < n then None else Some (take n d, drop n d))"

definition read_u32 :: "bytes \<Rightarrow> (u32 \<times> bytes) option" where
  "read_u32 d = do { (b, d) \<leftarrow> read_n 4 d; Some (get_le b, d) }"

definition read_u64 :: "bytes \<Rightarrow> (u64 \<times> bytes) option" where
  "read_u64 d = do { (b, d) \<leftarrow> read_n 8 d; Some (get_le b, d) }"

text \<open>A field preceded by its length in 32 bits.\<close>

definition read_blob :: "bytes \<Rightarrow> (bytes \<times> bytes) option" where
  "read_blob d = do { (n, d) \<leftarrow> read_u32 d; read_n (unat n) d }"

definition put_blob :: "bytes \<Rightarrow> bytes" where
  "put_blob bs = put_le 4 (of_nat (length bs) :: u32) @ bs"

lemma read_n_append [simp]: "length x = n \<Longrightarrow> read_n n (x @ r) = Some (x, r)"
  by (simp add: read_n_def)

lemma read_n_all [simp]: "length x = n \<Longrightarrow> read_n n x = Some (x, [])"
  by (simp add: read_n_def)

lemma read_n_Some: "read_n n d = Some (x, r) \<longleftrightarrow> d = x @ r \<and> length x = n"
  by (auto simp: read_n_def)

lemma read_n_None: "read_n n d = None \<longleftrightarrow> length d < n"
  by (simp add: read_n_def)

lemma read_u32_append [simp, codec_simps]: "read_u32 (put_le 4 w @ r) = Some (w, r)"
  by (simp add: read_u32_def)

lemma read_u64_append [simp, codec_simps]: "read_u64 (put_le 8 w @ r) = Some (w, r)"
  by (simp add: read_u64_def)

lemma read_blob_append [simp, codec_simps]:
  "length bs < 2 ^ 32 \<Longrightarrow> read_blob (put_blob bs @ r) = Some (bs, r)"
  by (simp add: read_blob_def put_blob_def)

lemma length_put_blob [simp, length_simps]: "length (put_blob bs) = 4 + length bs"
  by (simp add: put_blob_def)

lemma read_u32_length: "read_u32 d = Some (w, r) \<Longrightarrow> length d = 4 + length r"
  by (auto simp: read_u32_def read_n_Some split: bind_splits)

lemma read_blob_length: "read_blob d = Some (x, r) \<Longrightarrow> length d = 4 + length x + length r"
  by (auto simp: read_blob_def read_n_Some dest!: read_u32_length split: bind_splits)

lemma read_u32_None: "read_u32 d = None \<longleftrightarrow> length d < 4"
  by (auto simp: read_u32_def read_n_None read_n_Some split: bind_splits)

text \<open>A torn field: a proper prefix of a blob does not read.\<close>

lemma read_blob_torn:
  assumes "length bs < 2 ^ 32" "n < 4 + length bs"
  shows "read_blob (take n (put_blob bs @ r)) = None"
proof (cases "n < 4")
  case True
  then have "read_u32 (take n (put_blob bs @ r)) = None" by (simp add: read_u32_None)
  then show ?thesis by (simp add: read_blob_def)
next
  case False
  then have "take n (put_blob bs @ r) = put_le 4 (of_nat (length bs) :: u32) @ take (n - 4) (bs @ r)"
    by (simp add: put_blob_def)
  then show ?thesis using assms False by (simp add: read_blob_def read_n_None)
qed

end
