(* ===== verification/Levels.thy ===== *)
theory Levels
  imports Keys ByteReader Complex_Main "HOL-Library.Multiset"
begin

text \<open>
  File metadata (\<^verbatim>\<open>internal/lsm/manifest.go\<close>) and the level arithmetic of \<^verbatim>\<open>internal/lsm/level.go\<close>.

  \<^verbatim>\<open>sort.Slice\<close> leaves the order of equal elements open; files of a sorted level have different
  smallest keys, and the model keeps equal ones in their order.  A \<^verbatim>\<open>float64\<close> quotient is the exact
  quotient under a rounding function \<open>rnd\<close>, a parameter of the scores.
\<close>

section \<open>Files\<close>

definition MaxLevels :: nat where
  "MaxLevels = 7"

record FileMetadata =
  fm_Level :: int
  fm_FileNum :: u64
  fm_FileSize :: u64
  fm_SmallestKey :: bytes
  fm_LargestKey :: bytes
  fm_NumEntries :: u64

type_synonym Version = "FileMetadata list list"

section \<open>Level arithmetic\<close>

definition L0CompactionTrigger :: nat where
  "L0CompactionTrigger = 4"

definition LevelSizeRatio :: u64 where
  "LevelSizeRatio = 10"

definition BaseLevelSize :: u64 where
  "BaseLevelSize = 10 * 1024 * 1024"

fun GetOverlappingFiles :: "FileMetadata list \<Rightarrow> bytes \<Rightarrow> bytes \<Rightarrow> FileMetadata list" where
  "GetOverlappingFiles [] smallest largest = []"
| "GetOverlappingFiles (f # fs) smallest largest =
     (if 0 \<le> CompareKeys (fm_LargestKey f) smallest \<and> CompareKeys (fm_SmallestKey f) largest \<le> 0
      then f # GetOverlappingFiles fs smallest largest
      else GetOverlappingFiles fs smallest largest)"

fun insert_file :: "FileMetadata \<Rightarrow> FileMetadata list \<Rightarrow> FileMetadata list" where
  "insert_file f [] = [f]"
| "insert_file f (g # gs) =
     (if CompareKeys (fm_SmallestKey g) (fm_SmallestKey f) < 0 then g # insert_file f gs else f # g # gs)"

definition SortBySmallestKey :: "FileMetadata list \<Rightarrow> FileMetadata list" where
  "SortBySmallestKey files = foldr insert_file files []"

definition TargetSize :: "int \<Rightarrow> u64" where
  "TargetSize level = (if level \<le> 0 then 0 else ((\<lambda>size. size * LevelSizeRatio) ^^ (nat level - 1)) BaseLevelSize)"

definition CompactionScore :: "(rat \<Rightarrow> rat) \<Rightarrow> nat \<Rightarrow> FileMetadata list \<Rightarrow> rat" where
  "CompactionScore rnd level files =
     (if level = 0 then rnd (of_nat (length files) / of_nat L0CompactionTrigger)
      else rnd (of_nat (unat (sum_list (map fm_FileSize files))) / of_nat (unat (TargetSize (int level)))))"

section \<open>Facts\<close>

lemma GetOverlappingFiles_filter:
  "GetOverlappingFiles fs s l =
     filter (\<lambda>f. 0 \<le> CompareKeys (fm_LargestKey f) s \<and> CompareKeys (fm_SmallestKey f) l \<le> 0) fs"
  by (induction fs) auto

lemma mset_insert_file [simp]: "mset (insert_file f fs) = add_mset f (mset fs)"
  by (induction fs) auto

lemma mset_SortBySmallestKey [simp]: "mset (SortBySmallestKey fs) = mset fs"
  by (induction fs) (auto simp: SortBySmallestKey_def)

lemma set_SortBySmallestKey [simp]: "set (SortBySmallestKey fs) = set fs"
  using mset_SortBySmallestKey [of fs] by (metis set_mset_mset)

lemma length_SortBySmallestKey [simp]: "length (SortBySmallestKey fs) = length fs"
  using mset_SortBySmallestKey [of fs] by (metis size_mset)

definition smallest_le :: "FileMetadata \<Rightarrow> FileMetadata \<Rightarrow> bool" where
  "smallest_le f g \<longleftrightarrow> CompareKeys (fm_SmallestKey f) (fm_SmallestKey g) \<le> 0"

lemma set_insert_file [simp]: "set (insert_file f fs) = insert f (set fs)"
  using mset_insert_file [of f fs] by (metis set_mset_add_mset_insert set_mset_mset)

lemma sorted_insert_file: "sorted_wrt smallest_le fs \<Longrightarrow> sorted_wrt smallest_le (insert_file f fs)"
proof (induction fs)
  case (Cons g gs)
  show ?case
  proof (cases "CompareKeys (fm_SmallestKey g) (fm_SmallestKey f) < 0")
    case True
    then show ?thesis using Cons by (auto simp: smallest_le_def ck_ord)
  next
    case False
    then show ?thesis using Cons.prems by (auto simp: smallest_le_def ck_ord intro: order_trans)
  qed
qed simp

lemma sorted_SortBySmallestKey: "sorted_wrt smallest_le (SortBySmallestKey fs)"
  unfolding SortBySmallestKey_def by (induction fs) (auto intro: sorted_insert_file)

lemma insert_file_head:
  "\<forall>g \<in> set fs. CompareKeys (fm_SmallestKey f) (fm_SmallestKey g) \<le> 0 \<Longrightarrow> insert_file f fs = f # fs"
  by (cases fs) (auto simp: ck_ord)

lemma SortBySmallestKey_sorted: "sorted_wrt smallest_le fs \<Longrightarrow> SortBySmallestKey fs = fs"
proof (induction fs)
  case (Cons f fs)
  then show ?case by (simp add: SortBySmallestKey_def insert_file_head smallest_le_def)
qed (simp add: SortBySmallestKey_def)

text \<open>
  Level targets grow tenfold per level and never wrap around: for the levels the store has, the
  64-bit target is the exact power-of-ten multiple of 10 MB.
\<close>

theorem TargetSize_exact:
  assumes "1 \<le> level" "level \<le> 13"
  shows "unat (TargetSize (int level)) = 10485760 * 10 ^ (level - 1)"
proof -
  have "unat (((\<lambda>size. size * LevelSizeRatio) ^^ n) BaseLevelSize) = 10485760 * 10 ^ n" if "n \<le> 12" for n
    using that
  proof (induction n)
    case 0
    then show ?case by (simp add: BaseLevelSize_def)
  next
    case (Suc n)
    have "(10::nat) ^ n \<le> 10 ^ 11" using Suc.prems by (intro power_increasing) simp_all
    then have "10485760 * 10 ^ n * 10 < (2::nat) ^ 64" by simp
    then show ?case using Suc by (simp add: LevelSizeRatio_def unat_word_ariths mult.commute)
  qed
  from this [of "level - 1"] show ?thesis using assms by (simp add: TargetSize_def)
qed

theorem TargetSize_exact_witness: "unat (TargetSize (int 6)) = 1048576000000"
  using TargetSize_exact [of 6] by simp

end
