(* ===== verification/Manifest.thy ===== *)
theory Manifest
  imports Levels
begin

text \<open>
  The manifest of \<^verbatim>\<open>internal/lsm/manifest.go\<close>: version edits, their encoding, and the append-only file
  that replays into the current version.  A version is the list of its \<^const>\<open>MaxLevels\<close> levels.  An
  edit that names a level out of range makes the program panic: \<open>Panic\<close>.
\<close>

section \<open>Version edits\<close>

record DeletedFile =
  df_Level :: int
  df_FileNum :: u64

record VersionEdit =
  ve_AddedFiles :: "FileMetadata list"
  ve_DeletedFiles :: "DeletedFile list"
  ve_NextFileNum :: u64

datatype manifest_error = ErrInvalid | ErrManifestIO | Panic

definition encode_deleted :: "DeletedFile \<Rightarrow> bytes" where
  "encode_deleted df = put_le 4 (word_of_int (df_Level df) :: u32) @ put_le 8 (df_FileNum df)"

definition encode_added :: "FileMetadata \<Rightarrow> bytes" where
  "encode_added af =
     put_le 4 (word_of_int (fm_Level af) :: u32) @ put_le 8 (fm_FileNum af) @ put_le 8 (fm_FileSize af) @
     put_le 8 (fm_NumEntries af) @
     put_le 4 (of_nat (length (fm_SmallestKey af)) :: u32) @ fm_SmallestKey af @
     put_le 4 (of_nat (length (fm_LargestKey af)) :: u32) @ fm_LargestKey af"

definition edit_Encode :: "VersionEdit \<Rightarrow> bytes" where
  "edit_Encode v =
     put_le 8 (ve_NextFileNum v) @
     put_le 4 (of_nat (length (ve_DeletedFiles v)) :: u32) @ concat (map encode_deleted (ve_DeletedFiles v)) @
     put_le 4 (of_nat (length (ve_AddedFiles v)) :: u32) @ concat (map encode_added (ve_AddedFiles v))"

fun decode_deleted :: "nat \<Rightarrow> bytes \<Rightarrow> (DeletedFile list \<times> bytes) option" where
  "decode_deleted 0 d = Some ([], d)"
| "decode_deleted (Suc n) d = do {
     (b, d) \<leftarrow> read_n 12 d;
     (dfs, d) \<leftarrow> decode_deleted n d;
     Some (\<lparr>df_Level = uint (get_le (gslice 0 4 b) :: u32), df_FileNum = get_le (gslice 4 12 b)\<rparr> # dfs, d) }"

fun decode_added :: "nat \<Rightarrow> bytes \<Rightarrow> (FileMetadata list \<times> bytes) option" where
  "decode_added 0 d = Some ([], d)"
| "decode_added (Suc n) d = do {
     (b, d) \<leftarrow> read_n 28 d;
     (small, d) \<leftarrow> read_blob d;
     (large, d) \<leftarrow> read_blob d;
     (afs, d) \<leftarrow> decode_added n d;
     Some (\<lparr>fm_Level = uint (get_le (gslice 0 4 b) :: u32), fm_FileNum = get_le (gslice 4 12 b),
            fm_FileSize = get_le (gslice 12 20 b), fm_SmallestKey = small, fm_LargestKey = large,
            fm_NumEntries = get_le (gslice 20 28 b)\<rparr> # afs, d) }"

definition DecodeVersionEdit :: "bytes \<Rightarrow> VersionEdit option" where
  "DecodeVersionEdit data = do {
     (next, d) \<leftarrow> read_u64 data;
     (numDeleted, d) \<leftarrow> read_u32 d;
     (dfs, d) \<leftarrow> decode_deleted (unat numDeleted) d;
     (numAdded, d) \<leftarrow> read_u32 d;
     (afs, d) \<leftarrow> decode_added (unat numAdded) d;
     Some \<lparr>ve_AddedFiles = afs, ve_DeletedFiles = dfs, ve_NextFileNum = next\<rparr> }"

section \<open>The manifest\<close>

record Manifest =
  mf_file :: osfile
  mf_current :: Version
  mf_nextFileNum :: u64

definition empty_version :: Version where
  "empty_version = replicate MaxLevels []"

definition delete_file :: "DeletedFile \<Rightarrow> Version \<Rightarrow> Version option" where
  "delete_file df v =
     (if 0 \<le> df_Level df \<and> df_Level df < int MaxLevels
      then Some (v[nat (df_Level df) := filter (\<lambda>f. fm_FileNum f \<noteq> df_FileNum df) (v ! nat (df_Level df))])
      else None)"

definition add_file :: "FileMetadata \<Rightarrow> Version \<Rightarrow> Version option" where
  "add_file af v =
     (if 0 \<le> fm_Level af \<and> fm_Level af < int MaxLevels
      then Some (v[nat (fm_Level af) := v ! nat (fm_Level af) @ [af]]) else None)"

definition sort_levels :: "Version \<Rightarrow> Version" where
  "sort_levels v = (case v of [] \<Rightarrow> [] | l0 # ls \<Rightarrow> l0 # map (\<lambda>fs. if 1 < length fs then SortBySmallestKey fs else fs) ls)"

definition edit_version :: "VersionEdit \<Rightarrow> Version \<Rightarrow> Version option" where
  "edit_version e v = do {
     v \<leftarrow> run_opt delete_file (ve_DeletedFiles e) v;
     v \<leftarrow> run_opt add_file (ve_AddedFiles e) v;
     Some (sort_levels v) }"

definition applyEditToMemory :: "VersionEdit \<Rightarrow> Manifest \<Rightarrow> Manifest option" where
  "applyEditToMemory e m = do {
     v \<leftarrow> edit_version e (mf_current m);
     Some (m\<lparr>mf_current := v,
             mf_nextFileNum := (if mf_nextFileNum m < ve_NextFileNum e then ve_NextFileNum e else mf_nextFileNum m)\<rparr>) }"

text \<open>The replay loop of \<^verbatim>\<open>OpenManifest\<close> over what is left of the file.\<close>

function replay :: "bytes \<Rightarrow> Manifest \<Rightarrow> manifest_error + Manifest" where
  "replay data m =
     (if data = [] then Inr m
      else case read_blob data of
             None \<Rightarrow> Inr m
           | Some (editData, rest) \<Rightarrow>
               (case DecodeVersionEdit editData of
                  None \<Rightarrow> Inl ErrInvalid
                | Some e \<Rightarrow> (case applyEditToMemory e m of None \<Rightarrow> Inl Panic | Some m1 \<Rightarrow> replay rest m1)))"
  by pat_completeness auto
termination
  by (relation "measure (length \<circ> fst)") (auto dest!: read_blob_length)

declare replay.simps [simp del]

definition OpenManifest :: "osfile \<Rightarrow> manifest_error + Manifest" where
  "OpenManifest f = replay (f_data f) \<lparr>mf_file = f, mf_current = empty_version, mf_nextFileNum = 1\<rparr>"

definition manifest_Apply :: "VersionEdit \<Rightarrow> Manifest \<Rightarrow> manifest_error option \<times> Manifest" where
  "manifest_Apply e m =
     (let data = edit_Encode e in
      case file_write (mf_file m) (put_le 4 (of_nat (length data) :: u32)) of
        (False, f) \<Rightarrow> (Some ErrManifestIO, m\<lparr>mf_file := f\<rparr>)
      | (True, f) \<Rightarrow>
     (case file_write f data of
        (False, f) \<Rightarrow> (Some ErrManifestIO, m\<lparr>mf_file := f\<rparr>)
      | (True, f) \<Rightarrow>
     (case file_sync f of
        (False, f) \<Rightarrow> (Some ErrManifestIO, m\<lparr>mf_file := f\<rparr>)
      | (True, f) \<Rightarrow>
          (case applyEditToMemory e (m\<lparr>mf_file := f\<rparr>) of
             None \<Rightarrow> (Some Panic, m\<lparr>mf_file := f\<rparr>)
           | Some m1 \<Rightarrow> (None, m1)))))"

definition NextFileNumber :: "Manifest \<Rightarrow> u64 \<times> Manifest" where
  "NextFileNumber m = (mf_nextFileNum m, m\<lparr>mf_nextFileNum := mf_nextFileNum m + 1\<rparr>)"

section \<open>The codec\<close>

definition level_fits :: "int \<Rightarrow> bool" where
  "level_fits l \<longleftrightarrow> 0 \<le> l \<and> l < 2 ^ 32"

definition edit_fits :: "VersionEdit \<Rightarrow> bool" where
  "edit_fits v \<longleftrightarrow>
     length (ve_DeletedFiles v) < 2 ^ 32 \<and> length (ve_AddedFiles v) < 2 ^ 32 \<and>
     (\<forall>df \<in> set (ve_DeletedFiles v). level_fits (df_Level df)) \<and>
     (\<forall>af \<in> set (ve_AddedFiles v). level_fits (fm_Level af) \<and> length (fm_SmallestKey af) < 2 ^ 32 \<and>
        length (fm_LargestKey af) < 2 ^ 32)"

lemma level_codec: "level_fits l \<Longrightarrow> uint (word_of_int l :: u32) = l"
  by (simp add: level_fits_def unsigned_of_int take_bit_int_eq_self)

lemma decode_deleted_encode:
  "\<forall>df \<in> set dfs. level_fits (df_Level df) \<Longrightarrow>
     decode_deleted (length dfs) (concat (map encode_deleted dfs) @ r) = Some (dfs, r)"
proof (induction dfs)
  case (Cons df dfs)
  let ?b = "put_le 4 (word_of_int (df_Level df) :: u32) @ put_le 8 (df_FileNum df)"
  have b: "length ?b = 12" "gslice 0 4 ?b = put_le 4 (word_of_int (df_Level df) :: u32)"
    "gslice 4 12 ?b = put_le 8 (df_FileNum df)" by (simp_all add: gslice_def)
  have "read_n 12 (?b @ concat (map encode_deleted dfs) @ r) = Some (?b, concat (map encode_deleted dfs) @ r)"
    using b(1) by (rule read_n_append)
  then show ?case using Cons b by (simp add: encode_deleted_def [of df] level_codec)
qed simp

lemma encode_added_blob:
  "encode_added af =
     (put_le 4 (word_of_int (fm_Level af) :: u32) @ put_le 8 (fm_FileNum af) @ put_le 8 (fm_FileSize af) @
      put_le 8 (fm_NumEntries af)) @ put_blob (fm_SmallestKey af) @ put_blob (fm_LargestKey af)"
  by (simp add: encode_added_def put_blob_def)

lemma decode_added_encode:
  "\<forall>af \<in> set afs. level_fits (fm_Level af) \<and> length (fm_SmallestKey af) < 2 ^ 32 \<and> length (fm_LargestKey af) < 2 ^ 32 \<Longrightarrow>
     decode_added (length afs) (concat (map encode_added afs) @ r) = Some (afs, r)"
proof (induction afs)
  case (Cons af afs)
  let ?b = "put_le 4 (word_of_int (fm_Level af) :: u32) @ put_le 8 (fm_FileNum af) @ put_le 8 (fm_FileSize af) @
    put_le 8 (fm_NumEntries af)"
  let ?r = "put_blob (fm_SmallestKey af) @ put_blob (fm_LargestKey af) @ concat (map encode_added afs) @ r"
  have b: "length ?b = 28" "gslice 0 4 ?b = put_le 4 (word_of_int (fm_Level af) :: u32)"
    "gslice 4 12 ?b = put_le 8 (fm_FileNum af)" "gslice 12 20 ?b = put_le 8 (fm_FileSize af)"
    "gslice 20 28 ?b = put_le 8 (fm_NumEntries af)" by (simp_all add: gslice_def)
  have "concat (map encode_added (af # afs)) @ r = ?b @ ?r" by (simp add: encode_added_blob)
  moreover have "read_n 28 (?b @ ?r) = Some (?b, ?r)" using b(1) by (rule read_n_append)
  ultimately show ?case using Cons b by (simp add: level_codec)
qed simp

lemma decode_edit:
  assumes "edit_fits v"
  shows "DecodeVersionEdit (edit_Encode v @ r) = Some v"
  using assms decode_deleted_encode [of "ve_DeletedFiles v"] decode_added_encode [of "ve_AddedFiles v"]
  by (simp add: DecodeVersionEdit_def edit_Encode_def edit_fits_def)

text \<open>
  Round trip of version edits: decoding an encoded edit, whatever follows it, gives back the edit,
  as long as its counts, key lengths and levels fit their 32-bit fields.
\<close>

theorem DecodeVersionEdit_Encode:
  assumes "edit_fits v"
  shows "DecodeVersionEdit (edit_Encode v @ r) = Some v"
  using assms by (rule decode_edit)

theorem DecodeVersionEdit_Encode_witness:
  "DecodeVersionEdit (edit_Encode \<lparr>ve_AddedFiles = [\<lparr>fm_Level = 1, fm_FileNum = 7, fm_FileSize = 100,
       fm_SmallestKey = [1], fm_LargestKey = [2, 3], fm_NumEntries = 5\<rparr>],
     ve_DeletedFiles = [\<lparr>df_Level = 0, df_FileNum = 3\<rparr>], ve_NextFileNum = 0\<rparr> @ [9]) =
   Some \<lparr>ve_AddedFiles = [\<lparr>fm_Level = 1, fm_FileNum = 7, fm_FileSize = 100,
       fm_SmallestKey = [1], fm_LargestKey = [2, 3], fm_NumEntries = 5\<rparr>],
     ve_DeletedFiles = [\<lparr>df_Level = 0, df_FileNum = 3\<rparr>], ve_NextFileNum = 0\<rparr>"
  by (rule DecodeVersionEdit_Encode) (simp add: edit_fits_def level_fits_def)

section \<open>Replay\<close>

definition edit_ok :: "VersionEdit \<Rightarrow> bool" where
  "edit_ok e \<longleftrightarrow> edit_fits e \<and> length (edit_Encode e) < 2 ^ 32"

definition frame :: "VersionEdit \<Rightarrow> bytes" where
  "frame e = put_blob (edit_Encode e)"

lemma length_frame: "length (frame e) = 4 + length (edit_Encode e)"
  by (simp add: frame_def)

lemma frame_neq_Nil [simp]: "frame e \<noteq> []"
  using length_frame [of e] by auto

lemma replay_frame:
  assumes "edit_ok e" "applyEditToMemory e m = Some m1"
  shows "replay (frame e @ r) m = replay r m1"
proof -
  have "read_blob (frame e @ r) = Some (edit_Encode e, r)" using assms(1) by (simp add: frame_def edit_ok_def)
  then show ?thesis
    using assms decode_edit [of e "[]"] by (subst replay.simps) (simp add: edit_ok_def)
qed

lemma replay_torn:
  assumes "edit_ok e" "n < length (frame e)"
  shows "replay (take n (frame e @ r)) m = Inr m"
proof -
  have "read_blob (take n (frame e @ r)) = None"
    unfolding frame_def using assms by (intro read_blob_torn) (auto simp: edit_ok_def length_frame)
  then show ?thesis by (subst replay.simps) simp
qed

lemma replay_prefix:
  assumes "\<forall>e \<in> set es. edit_ok e" "run_opt applyEditToMemory es m = Some m'"
  shows "\<exists>j mj. replay (take n (concat (map frame es))) m = Inr mj \<and> j \<le> length es \<and>
    run_opt applyEditToMemory (take j es) m = Some mj \<and>
    (\<forall>i \<le> length es. length (concat (map frame (take i es))) \<le> n \<longrightarrow> i \<le> j)"
  using assms
proof (induction es arbitrary: n m)
  case Nil
  then show ?case by (auto simp: replay.simps [of "[]"])
next
  case (Cons e es)
  obtain m1 where m1: "applyEditToMemory e m = Some m1" "run_opt applyEditToMemory es m1 = Some m'"
    using Cons.prems(2) by (auto split: option.splits)
  show ?case
  proof (cases "n < length (frame e)")
    case True
    have "replay (take n (frame e @ concat (map frame es))) m = Inr m"
      using Cons.prems(1) True by (intro replay_torn) simp_all
    moreover have "i = 0" if "i \<le> Suc (length es)" "length (concat (map frame (take i (e # es)))) \<le> n" for i
      using that True by (cases i) auto
    ultimately show ?thesis by (intro exI [of _ 0] exI [of _ m]) auto
  next
    case False
    let ?n = "n - length (frame e)"
    obtain j mj where IH: "replay (take ?n (concat (map frame es))) m1 = Inr mj" "j \<le> length es"
      "run_opt applyEditToMemory (take j es) m1 = Some mj"
      "\<forall>i \<le> length es. length (concat (map frame (take i es))) \<le> ?n \<longrightarrow> i \<le> j"
      using Cons.IH [of m1 ?n] Cons.prems(1) m1(2) by auto
    have eq: "take n (concat (map frame (e # es))) = frame e @ take ?n (concat (map frame es))"
      using False by simp
    have rp: "replay (take n (concat (map frame (e # es)))) m = Inr mj"
      unfolding eq using replay_frame [OF _ m1(1)] Cons.prems(1) IH(1) by simp
    have mx: "i \<le> Suc j" if "i \<le> length (e # es)" "length (concat (map frame (take i (e # es)))) \<le> n" for i
      using that IH(4) False by (cases i) auto
    have "run_opt applyEditToMemory (take (Suc j) (e # es)) m = Some mj" using m1(1) IH(3) by simp
    with rp mx IH(2) show ?thesis by (intro exI [of _ "Suc j"] exI [of _ mj]) auto
  qed
qed

section \<open>Applying edits\<close>

lemma applyEdit_file:
  "applyEditToMemory e m = Some m1 \<Longrightarrow> mf_file m1 = mf_file m \<and> edit_version e (mf_current m) = Some (mf_current m1)"
  by (auto simp: applyEditToMemory_def split: bind_splits)

lemma applyEdit_set_file:
  "applyEditToMemory e (m\<lparr>mf_file := f\<rparr>) = map_option (\<lambda>m1. m1\<lparr>mf_file := f\<rparr>) (applyEditToMemory e m)"
  by (cases "edit_version e (mf_current m)") (simp_all add: applyEditToMemory_def)

lemma manifest_Apply_good:
  assumes "f_script (mf_file m) = []" "applyEditToMemory e m = Some m1"
  shows "manifest_Apply e m = (None, m1\<lparr>mf_file := good_file (f_data (mf_file m) @ frame e)\<rparr>)"
proof -
  have "(mf_file m)\<lparr>f_data := (f_data (mf_file m) @ put_le 4 (of_nat (length (edit_Encode e)) :: u32)) @ edit_Encode e\<rparr> =
    good_file (f_data (mf_file m) @ frame e)"
    using assms(1) by (simp add: good_file_def frame_def put_blob_def)
  then show ?thesis
    using assms by (simp add: manifest_Apply_def applyEdit_set_file)
qed

text \<open>A run of edits on a manifest, stopping at the first error.\<close>

fun apply_all :: "VersionEdit list \<Rightarrow> Manifest \<Rightarrow> manifest_error option \<times> Manifest" where
  "apply_all [] m = (None, m)"
| "apply_all (e # es) m =
     (case manifest_Apply e m of (Some err, m1) \<Rightarrow> (Some err, m1) | (None, m1) \<Rightarrow> apply_all es m1)"

lemma run_opt_set_file:
  "run_opt applyEditToMemory es (m\<lparr>mf_file := f\<rparr>) =
     map_option (\<lambda>m1. m1\<lparr>mf_file := f\<rparr>) (run_opt applyEditToMemory es m)"
  by (induction es arbitrary: m) (auto simp: applyEdit_set_file split: option.splits)

lemma apply_all_good:
  assumes "f_script (mf_file m) = []" "run_opt applyEditToMemory es m = Some m1"
  shows "apply_all es m = (None, m1\<lparr>mf_file := good_file (f_data (mf_file m) @ concat (map frame es))\<rparr>)"
  using assms
proof (induction es arbitrary: m m1)
  case Nil
  then show ?case by (cases m) (auto simp: good_file_def)
next
  case (Cons e es)
  obtain m2 where m2: "applyEditToMemory e m = Some m2" "run_opt applyEditToMemory es m2 = Some m1"
    using Cons.prems(2) by (auto split: option.splits)
  let ?m = "m2\<lparr>mf_file := good_file (f_data (mf_file m) @ frame e)\<rparr>"
  have "run_opt applyEditToMemory es ?m = Some (m1\<lparr>mf_file := good_file (f_data (mf_file m) @ frame e)\<rparr>)"
    using m2(2) by (simp add: run_opt_set_file)
  from Cons.IH [OF _ this] manifest_Apply_good [OF Cons.prems(1) m2(1)] show ?case by simp
qed

lemma run_opt_version:
  "run_opt applyEditToMemory es m = Some m1 \<Longrightarrow> run_opt edit_version es (mf_current m) = Some (mf_current m1)"
  by (induction es arbitrary: m) (auto dest!: applyEdit_file split: option.splits)

lemma version_run_opt:
  "run_opt edit_version es (mf_current m) = Some v \<Longrightarrow> \<exists>m1. run_opt applyEditToMemory es m = Some m1 \<and> mf_current m1 = v"
proof (induction es arbitrary: m)
  case (Cons e es)
  then obtain v1 where v1: "edit_version e (mf_current m) = Some v1" "run_opt edit_version es v1 = Some v"
    by (auto split: option.splits)
  then obtain m2 where m2: "applyEditToMemory e m = Some m2" "mf_current m2 = v1"
    by (auto simp: applyEditToMemory_def)
  with Cons.IH [of m2] v1(2) show ?case by simp
qed simp

abbreviation fresh_manifest :: Manifest where
  "fresh_manifest \<equiv> \<lparr>mf_file = good_file [], mf_current = empty_version, mf_nextFileNum = 1\<rparr>"

text \<open>
  C33. Crash recovery of the manifest.  After any sequence of edits applied to a new manifest, every
  edit is acknowledged, and if a crash keeps the first \<open>n\<close> bytes of the file, reopening succeeds
  with the version that a prefix of the edits produces, a prefix that contains every edit whose
  bytes survived whole.
\<close>

theorem manifest_crash_recovery:
  assumes "\<forall>e \<in> set es. edit_ok e" "run_opt edit_version es empty_version = Some v"
  shows "\<exists>m. apply_all es fresh_manifest = (None, m) \<and> mf_current m = v \<and>
    (\<exists>j mj. OpenManifest (good_file (take n (f_data (mf_file m)))) = Inr mj \<and> j \<le> length es \<and>
       run_opt edit_version (take j es) empty_version = Some (mf_current mj) \<and>
       (\<forall>i \<le> length es. length (concat (map frame (take i es))) \<le> n \<longrightarrow> i \<le> j))"
proof -
  obtain m1 where m1: "run_opt applyEditToMemory es fresh_manifest = Some m1" "mf_current m1 = v"
    using version_run_opt [of es fresh_manifest v] assms(2) by auto
  let ?F = "concat (map frame es)"
  let ?m0 = "\<lparr>mf_file = good_file (take n ?F), mf_current = empty_version, mf_nextFileNum = 1\<rparr>"
  have ap: "apply_all es fresh_manifest = (None, m1\<lparr>mf_file := good_file ?F\<rparr>)"
    using apply_all_good [OF _ m1(1)] by simp
  have "run_opt applyEditToMemory es ?m0 = Some (m1\<lparr>mf_file := good_file (take n ?F)\<rparr>)"
    using m1(1) run_opt_set_file [where m = fresh_manifest and f = "good_file (take n ?F)"] by simp
  from replay_prefix [OF assms(1) this] obtain j mj where
    j: "replay (take n ?F) ?m0 = Inr mj" "j \<le> length es" "run_opt applyEditToMemory (take j es) ?m0 = Some mj"
      "\<forall>i \<le> length es. length (concat (map frame (take i es))) \<le> n \<longrightarrow> i \<le> j" by blast
  have "OpenManifest (good_file (take n ?F)) = Inr mj" using j(1) by (simp add: OpenManifest_def)
  with ap m1(2) j run_opt_version [OF j(3)] show ?thesis by auto
qed

abbreviation sample_edit :: "u64 \<Rightarrow> u64 \<Rightarrow> VersionEdit" where
  "sample_edit old new \<equiv> \<lparr>ve_AddedFiles = [\<lparr>fm_Level = 0, fm_FileNum = new, fm_FileSize = 100,
       fm_SmallestKey = [1], fm_LargestKey = [2], fm_NumEntries = 5\<rparr>],
     ve_DeletedFiles = [\<lparr>df_Level = 0, df_FileNum = old\<rparr>], ve_NextFileNum = 0\<rparr>"

lemma sample_edit_ok: "edit_ok (sample_edit old new)"
  by (simp add: edit_ok_def edit_fits_def level_fits_def edit_Encode_def encode_added_def encode_deleted_def)

theorem manifest_crash_recovery_witness:
  "\<exists>v m. apply_all [sample_edit 9 1, sample_edit 1 2] fresh_manifest = (None, m) \<and> mf_current m = v \<and>
    (\<exists>j mj. OpenManifest (good_file (take 70 (f_data (mf_file m)))) = Inr mj \<and> j \<le> 2 \<and>
       run_opt edit_version (take j [sample_edit 9 1, sample_edit 1 2]) empty_version = Some (mf_current mj))"
proof -
  obtain v where "run_opt edit_version [sample_edit 9 1, sample_edit 1 2] empty_version = Some v"
    by (auto simp: edit_version_def delete_file_def add_file_def MaxLevels_def)
  from manifest_crash_recovery [OF _ this, of 70] sample_edit_ok
  show ?thesis by (auto simp del: apply_all.simps run_opt.simps simp: numeral_2_eq_2)
qed

text \<open>
  C24. A failed \<^verbatim>\<open>Apply\<close> poisons the file: the length prefix of the failed edit stays in it, so the next
  edit, though acknowledged and visible in memory, is read as a part of the failed one and is lost
  when the manifest is reopened.
\<close>

theorem manifest_edit_after_failure_lost:
  assumes "edit_ok e1" "edit_version e2 empty_version = Some v" "length (frame e2) < length (edit_Encode e1)"
  shows "\<exists>m1 m2 m3. manifest_Apply e1 (fresh_manifest\<lparr>mf_file := \<lparr>f_data = [], f_script = [IoOk, IoFail 0]\<rparr>\<rparr>) =
       (Some ErrManifestIO, m1) \<and>
     manifest_Apply e2 m1 = (None, m2) \<and> mf_current m2 = v \<and>
     OpenManifest (mf_file m2) = Inr m3 \<and> mf_current m3 = empty_version"
proof -
  let ?p = "put_le 4 (of_nat (length (edit_Encode e1)) :: u32)"
  let ?m1 = "fresh_manifest\<lparr>mf_file := good_file ?p\<rparr>"
  have a1: "manifest_Apply e1 (fresh_manifest\<lparr>mf_file := \<lparr>f_data = [], f_script = [IoOk, IoFail 0]\<rparr>\<rparr>) =
    (Some ErrManifestIO, ?m1)"
    by (simp add: manifest_Apply_def file_write_def good_file_def)
  obtain m2 where m2: "applyEditToMemory e2 ?m1 = Some m2" "mf_current m2 = v"
    using assms(2) by (auto simp: applyEditToMemory_def)
  have a2: "manifest_Apply e2 ?m1 = (None, m2\<lparr>mf_file := good_file (?p @ frame e2)\<rparr>)"
    using manifest_Apply_good [OF _ m2(1)] by simp
  have "read_blob (?p @ frame e2) = None"
    using assms(1,3) by (simp add: read_blob_def read_n_def edit_ok_def read_u32_append)
  then have "OpenManifest (good_file (?p @ frame e2)) = Inr (fresh_manifest\<lparr>mf_file := good_file (?p @ frame e2)\<rparr>)"
    unfolding OpenManifest_def by (subst replay.simps) simp
  with a1 a2 m2(2) show ?thesis by auto
qed

theorem manifest_edit_after_failure_lost_witness:
  "\<exists>v m1 m2 m3. manifest_Apply (sample_edit 9 1)
       (fresh_manifest\<lparr>mf_file := \<lparr>f_data = [], f_script = [IoOk, IoFail 0]\<rparr>\<rparr>) = (Some ErrManifestIO, m1) \<and>
     manifest_Apply \<lparr>ve_AddedFiles = [], ve_DeletedFiles = [], ve_NextFileNum = 5\<rparr> m1 = (None, m2) \<and> mf_current m2 = v \<and>
     OpenManifest (mf_file m2) = Inr m3 \<and> mf_current m3 = empty_version"
proof -
  let ?e = "\<lparr>ve_AddedFiles = [], ve_DeletedFiles = [], ve_NextFileNum = 5\<rparr>"
  obtain v where "edit_version ?e empty_version = Some v" by (auto simp: edit_version_def)
  moreover have "length (frame ?e) < length (edit_Encode (sample_edit 9 1))"
    by (simp add: length_frame edit_Encode_def encode_added_def encode_deleted_def)
  ultimately show ?thesis
    using manifest_edit_after_failure_lost [OF sample_edit_ok [where old = 9 and new = 1], of ?e v] by blast
qed

section \<open>File numbers\<close>

lemma run_opt_nextFileNum:
  assumes "run_opt applyEditToMemory es m = Some m1" "\<forall>e \<in> set es. ve_NextFileNum e = 0"
  shows "mf_nextFileNum m1 = mf_nextFileNum m"
  using assms
proof (induction es arbitrary: m)
  case (Cons e es)
  then obtain m2 where m2: "applyEditToMemory e m = Some m2" "run_opt applyEditToMemory es m2 = Some m1"
    by (auto split: option.splits)
  then have "mf_nextFileNum m2 = mf_nextFileNum m"
    using Cons.prems(2) by (auto simp: applyEditToMemory_def split: bind_splits)
  with Cons.IH [OF m2(2)] Cons.prems(2) show ?case by simp
qed simp

text \<open>
  C34. File numbers start over.  Edits that leave \<^verbatim>\<open>NextFileNum\<close> at zero, as all edits of the tree do,
  never record the allocation, so a reopened manifest hands out file number 1 again, whatever files
  its version holds.
\<close>

theorem file_numbers_start_over:
  assumes "\<forall>e \<in> set es. edit_ok e \<and> ve_NextFileNum e = 0" "run_opt edit_version es empty_version = Some v"
  shows "\<exists>m m1. apply_all es fresh_manifest = (None, m) \<and> OpenManifest (mf_file m) = Inr m1 \<and>
    mf_current m1 = v \<and> fst (NextFileNumber m1) = 1"
proof -
  obtain m1 where m1: "run_opt applyEditToMemory es fresh_manifest = Some m1" "mf_current m1 = v"
    using version_run_opt [of es fresh_manifest v] assms(2) by auto
  let ?F = "concat (map frame es)"
  let ?m0 = "\<lparr>mf_file = good_file ?F, mf_current = empty_version, mf_nextFileNum = 1\<rparr>"
  have ap: "apply_all es fresh_manifest = (None, m1\<lparr>mf_file := good_file ?F\<rparr>)"
    using apply_all_good [OF _ m1(1)] by simp
  have run: "run_opt applyEditToMemory es ?m0 = Some (m1\<lparr>mf_file := good_file ?F\<rparr>)"
    using m1(1) run_opt_set_file [where m = fresh_manifest and f = "good_file ?F"] by simp
  from replay_prefix [OF _ this, of "length ?F"] assms(1) obtain j mj where
    "replay ?F ?m0 = Inr mj" "j \<le> length es" "run_opt applyEditToMemory (take j es) ?m0 = Some mj"
      "\<forall>i \<le> length es. length (concat (map frame (take i es))) \<le> length ?F \<longrightarrow> i \<le> j" by auto
  moreover from this have "j = length es" by (simp add: le_antisym)
  ultimately have "replay ?F ?m0 = Inr (m1\<lparr>mf_file := good_file ?F\<rparr>)" using run by simp
  then have "OpenManifest (good_file ?F) = Inr (m1\<lparr>mf_file := good_file ?F\<rparr>)" by (simp add: OpenManifest_def)
  with ap m1(2) run_opt_nextFileNum [OF m1(1)] assms(1) show ?thesis by (simp add: NextFileNumber_def)
qed

theorem file_numbers_start_over_witness:
  "\<exists>v m m1. apply_all [sample_edit 9 1] fresh_manifest = (None, m) \<and> OpenManifest (mf_file m) = Inr m1 \<and>
    mf_current m1 = v \<and> fst (NextFileNumber m1) = 1 \<and> fm_FileNum (hd (v ! 0)) = 1"
proof -
  obtain v where v: "run_opt edit_version [sample_edit 9 1] empty_version = Some v" "fm_FileNum (hd (v ! 0)) = 1"
    by (auto simp: edit_version_def delete_file_def add_file_def MaxLevels_def empty_version_def sort_levels_def
        eval_nat_numeral)
  have "\<forall>e \<in> set [sample_edit 9 1]. edit_ok e \<and> ve_NextFileNum e = 0" using sample_edit_ok by simp
  from file_numbers_start_over [OF this v(1)] v(2) show ?thesis by blast
qed

end
