(* ===== verification/SstFormat.thy ===== *)
theory SstFormat
  imports ByteReader Keys
begin

text \<open>
  The on-disk format of SSTables: block handles and footer (\<^verbatim>\<open>internal/sstable/format.go\<close>), index
  entries, and the entries of data blocks as \<^verbatim>\<open>Writer.Add\<close> writes them and \<^verbatim>\<open>Reader.Get\<close> and
  \<^verbatim>\<open>Iterator.parseCurrent\<close> read them.  A nil value, written with length 0xFFFFFFFF, is a tombstone.
\<close>

definition DefaultBlockSize :: nat where
  "DefaultBlockSize = 4096"

definition FooterSize :: nat where
  "FooterSize = 48"

definition MagicNumber :: u64 where
  "MagicNumber = 0x5354524154554D00"

record BlockHandle =
  bh_Offset :: u64
  bh_Size :: u64

definition bh_Encode :: "BlockHandle \<Rightarrow> bytes" where
  "bh_Encode h = put_le 8 (bh_Offset h) @ put_le 8 (bh_Size h)"

definition DecodeBlockHandle :: "bytes \<Rightarrow> BlockHandle" where
  "DecodeBlockHandle data =
     (if length data < 16 then \<lparr>bh_Offset = 0, bh_Size = 0\<rparr>
      else \<lparr>bh_Offset = get_le (gslice 0 8 data), bh_Size = get_le (gslice 8 16 data)\<rparr>)"

record Footer =
  ft_IndexHandle :: BlockHandle
  ft_BloomHandle :: BlockHandle
  ft_NumEntries :: u64
  ft_Magic :: u64

definition ft_Encode :: "Footer \<Rightarrow> bytes" where
  "ft_Encode f =
     bh_Encode (ft_IndexHandle f) @ bh_Encode (ft_BloomHandle f) @ put_le 8 (ft_NumEntries f) @ put_le 8 (ft_Magic f)"

definition DecodeFooter :: "bytes \<Rightarrow> Footer option" where
  "DecodeFooter data =
     (if length data < FooterSize then None
      else let magic = get_le (gslice 40 48 data) in
        if magic \<noteq> MagicNumber then None
        else Some \<lparr>ft_IndexHandle = DecodeBlockHandle (gslice 0 16 data),
                   ft_BloomHandle = DecodeBlockHandle (gslice 16 32 data),
                   ft_NumEntries = get_le (gslice 32 40 data), ft_Magic = magic\<rparr>)"

record IndexEntry =
  ie_Key :: bytes
  ie_Handle :: BlockHandle

definition encode_index :: "IndexEntry \<Rightarrow> bytes" where
  "encode_index ie = put_le 4 (of_nat (length (ie_Key ie)) :: u32) @ ie_Key ie @ bh_Encode (ie_Handle ie)"

text \<open>The index loop of \<^verbatim>\<open>OpenReader\<close>; \<^term>\<open>None\<close> is \<^verbatim>\<open>ErrCorrupt\<close>.\<close>

function decode_index :: "bytes \<Rightarrow> IndexEntry list option" where
  "decode_index d =
     (if d = [] then Some []
      else case read_u32 d of
             None \<Rightarrow> None
           | Some (keyLen, d1) \<Rightarrow>
               if length d1 < unat keyLen + 16 then None
               else map_option (Cons \<lparr>ie_Key = take (unat keyLen) d1,
                                      ie_Handle = DecodeBlockHandle (gslice (unat keyLen) (unat keyLen + 16) d1)\<rparr>)
                      (decode_index (drop (unat keyLen + 16) d1)))"
  by pat_completeness auto
termination
  by (relation "measure length") (auto dest!: read_u32_length)

declare decode_index.simps [simp del]

section \<open>Entries of data blocks\<close>

definition encode_kv :: "bytes \<times> bytes option \<Rightarrow> bytes" where
  "encode_kv e =
     put_le 4 (of_nat (length (fst e)) :: u32) @
     put_le 4 (case snd e of None \<Rightarrow> 0xFFFFFFFF | Some v \<Rightarrow> (of_nat (length v) :: u32)) @
     fst e @ (case snd e of None \<Rightarrow> [] | Some v \<Rightarrow> v)"

text \<open>One entry off the front of what is left of a block.\<close>

definition decode_kv :: "bytes \<Rightarrow> ((bytes \<times> bytes option) \<times> bytes) option" where
  "decode_kv d =
     (if length d < 8 then None
      else let keyLen = unat (get_le (gslice 0 4 d) :: u32);
               valLenRaw = (get_le (gslice 4 8 d) :: u32);
               isTombstone = (valLenRaw = 0xFFFFFFFF);
               valLen = (if isTombstone then 0 else unat valLenRaw);
               d1 = drop 8 d
           in if length d1 < keyLen + valLen then None
              else Some ((take keyLen d1, if isTombstone then None else Some (take valLen (drop keyLen d1))),
                         drop (keyLen + valLen) d1))"

section \<open>Round trips\<close>

lemma length_bh_Encode [simp, length_simps]: "length (bh_Encode h) = 16"
  by (simp add: bh_Encode_def)

lemma DecodeBlockHandle_Encode [simp, codec_simps]: "DecodeBlockHandle (bh_Encode h @ r) = h"
  by (simp add: DecodeBlockHandle_def bh_Encode_def gslice_append_left gslice_append_right)

lemma DecodeBlockHandle_Encode' [simp, codec_simps]: "DecodeBlockHandle (bh_Encode h) = h"
  using DecodeBlockHandle_Encode [of h "[]"] by simp

lemma length_ft_Encode [simp, length_simps]: "length (ft_Encode f) = FooterSize"
  by (simp add: ft_Encode_def FooterSize_def)

lemma DecodeFooter_Encode:
  "ft_Magic f = MagicNumber \<Longrightarrow> DecodeFooter (ft_Encode f) = Some f"
  by (simp add: DecodeFooter_def ft_Encode_def FooterSize_def Let_def gslice_append_left gslice_append_right)

lemma decode_index_Nil [simp]: "decode_index [] = Some []"
  by (simp add: decode_index.simps)

lemma decode_index_encode:
  "\<forall>ie \<in> set ies. length (ie_Key ie) < 2 ^ 32 \<Longrightarrow> decode_index (concat (map encode_index ies)) = Some ies"
proof (induction ies)
  case (Cons ie ies)
  let ?r = "concat (map encode_index ies)" let ?k = "ie_Key ie"
  have "read_u32 (encode_index ie @ ?r) = Some (of_nat (length ?k), ?k @ bh_Encode (ie_Handle ie) @ ?r)"
    by (simp add: encode_index_def)
  moreover have "encode_index ie @ ?r \<noteq> []" by (simp add: encode_index_def flip: length_0_conv)
  ultimately show ?case
    using Cons by (simp add: decode_index.simps [of "encode_index ie @ _"] gslice_append_left gslice_append_right)
qed simp

definition vlen :: "bytes option \<Rightarrow> nat" where
  "vlen v = (case v of None \<Rightarrow> 0 | Some b \<Rightarrow> length b)"

definition kv_fits :: "bytes \<times> bytes option \<Rightarrow> bool" where
  "kv_fits e \<longleftrightarrow> length (fst e) < 2 ^ 32 \<and> vlen (snd e) < 2 ^ 32 - 1"

lemma length_encode_kv [length_simps]: "length (encode_kv e) = 8 + length (fst e) + vlen (snd e)"
  by (simp add: encode_kv_def vlen_def split: option.split)

lemma decode_kv_encode: "kv_fits e \<Longrightarrow> decode_kv (encode_kv e @ r) = Some (e, r)"
proof (cases e)
  case (Pair k v)
  assume fits: "kv_fits e"
  show ?thesis
  proof (cases v)
    case None
    with fits Pair show ?thesis
      by (simp add: decode_kv_def encode_kv_def Let_def kv_fits_def vlen_def gslice_append_right)
  next
    case (Some b)
    have "(of_nat (length b) :: u32) \<noteq> 0xFFFFFFFF"
      using fits Pair Some by (simp add: kv_fits_def vlen_def word_unat_eq_iff)
    with fits Pair Some show ?thesis
      by (simp add: decode_kv_def encode_kv_def Let_def kv_fits_def vlen_def gslice_append_right)
  qed
qed

lemma decode_kv_length: "decode_kv d = Some (e, r) \<Longrightarrow> length r + 8 \<le> length d"
  by (auto simp: decode_kv_def Let_def split: if_splits)

lemma decode_kv_drop: "decode_kv d = Some (e, r) \<Longrightarrow> \<exists>n. r = drop n d"
  by (auto simp: decode_kv_def Let_def split: if_splits)

definition encode_block :: "(bytes \<times> bytes option) list \<Rightarrow> bytes" where
  "encode_block es = concat (map encode_kv es)"

lemma encode_block_simps [simp]:
  "encode_block [] = []" "encode_block (e # es) = encode_kv e @ encode_block es"
  "encode_block (es @ fs) = encode_block es @ encode_block fs"
  by (simp_all add: encode_block_def)

lemma encode_kv_neq_Nil [simp]: "encode_kv e \<noteq> []"
  using length_encode_kv [of e] by auto

lemma encode_block_eq_Nil [simp]: "encode_block es = [] \<longleftrightarrow> es = []"
  by (cases es) simp_all

end
