(* ===== verification/SstWriter.thy ===== *)
theory SstWriter
  imports SstFormat Bloom
begin

text \<open>
  The SSTable writer of \<^verbatim>\<open>internal/sstable/writer.go\<close>.  The compressor \<^verbatim>\<open>lz4.CompressBlock\<close> is
  third-party: a parameter \<open>compress\<close>, \<^term>\<open>None\<close> for an error and \<^term>\<open>Some []\<close> for a block it finds
  incompressible (a size of zero).  The reusable buffer \<^verbatim>\<open>lz4Buf\<close> only ever receives its output and is
  not a part of the state.  Operations return whether their error is nil.
\<close>

record sst_writer =
  sw_file :: osfile
  sw_blockBuf :: bytes
  sw_indexEntries :: "IndexEntry list"
  sw_bloom :: Filter
  sw_offset :: u64
  sw_blockSize :: int
  sw_entryCount :: u64
  sw_lastKey :: bytes

definition sst_NewWriter :: "osfile \<Rightarrow> int \<Rightarrow> int \<Rightarrow> sst_writer" where
  "sst_NewWriter f blockSize bloomBitsPerKey =
     \<lparr>sw_file = f, sw_blockBuf = [], sw_indexEntries = [], sw_bloom = NewFilter 10000 bloomBitsPerKey,
      sw_offset = 0, sw_blockSize = blockSize, sw_entryCount = 0, sw_lastKey = []\<rparr>"

definition flushDataBlock :: "(bytes \<Rightarrow> bytes option) \<Rightarrow> sst_writer \<Rightarrow> bool \<times> sst_writer" where
  "flushDataBlock compress w =
     (let uncompressed = sw_blockBuf w in
      if uncompressed = [] then (True, w)
      else case compress uncompressed of
        None \<Rightarrow> (False, w)
      | Some c \<Rightarrow>
          let isCompressed = (0 < length c \<and> length c < length uncompressed);
              dataToWrite = (if isCompressed then c else uncompressed)
          in case file_write (sw_file w) [if isCompressed then 1 else 0] of
               (False, f) \<Rightarrow> (False, w\<lparr>sw_file := f\<rparr>)
             | (True, f) \<Rightarrow>
                 (case file_write f dataToWrite of
                    (False, f) \<Rightarrow> (False, w\<lparr>sw_file := f\<rparr>)
                  | (True, f) \<Rightarrow>
                      let blockSize = of_nat (1 + length dataToWrite);
                          handle = \<lparr>bh_Offset = sw_offset w, bh_Size = blockSize\<rparr>
                      in (True, w\<lparr>sw_file := f,
                                  sw_indexEntries := sw_indexEntries w @ [\<lparr>ie_Key = sw_lastKey w, ie_Handle = handle\<rparr>],
                                  sw_offset := sw_offset w + blockSize, sw_blockBuf := []\<rparr>)))"

definition sst_Add ::
  "(bytes \<Rightarrow> u64 \<times> u64) \<Rightarrow> (bytes \<Rightarrow> bytes option) \<Rightarrow> bytes \<Rightarrow> bytes option \<Rightarrow> sst_writer \<Rightarrow> bool \<times> sst_writer" where
  "sst_Add sum128 compress key val w =
     (let w = w\<lparr>sw_bloom := bloom_Add sum128 key (sw_bloom w),
                sw_blockBuf := sw_blockBuf w @ encode_kv (key, val),
                sw_entryCount := sw_entryCount w + 1, sw_lastKey := key\<rparr>
      in if sw_blockSize w \<le> int (length (sw_blockBuf w)) then flushDataBlock compress w else (True, w))"

definition sst_Close :: "(bytes \<Rightarrow> bytes option) \<Rightarrow> sst_writer \<Rightarrow> bool \<times> sst_writer" where
  "sst_Close compress w =
     (let fail = (\<lambda>w f. (False, w\<lparr>sw_file := snd (file_close f)\<rparr>)) in
      case flushDataBlock compress w of
        (False, w) \<Rightarrow> fail w (sw_file w)
      | (True, w) \<Rightarrow>
          let indexOffset = sw_offset w; indexBuf = concat (map encode_index (sw_indexEntries w)) in
          case file_write (sw_file w) indexBuf of
            (False, f) \<Rightarrow> fail w f
          | (True, f) \<Rightarrow>
              let indexSize = of_nat (length indexBuf);
                  w = w\<lparr>sw_file := f, sw_offset := sw_offset w + indexSize\<rparr>;
                  bloomOffset = sw_offset w; bloomData = bloom_Encode (sw_bloom w) in
              case file_write f bloomData of
                (False, f) \<Rightarrow> fail w f
              | (True, f) \<Rightarrow>
                  let bloomSize = of_nat (length bloomData);
                      w = w\<lparr>sw_file := f, sw_offset := sw_offset w + bloomSize\<rparr>;
                      footer = \<lparr>ft_IndexHandle = \<lparr>bh_Offset = indexOffset, bh_Size = indexSize\<rparr>,
                                ft_BloomHandle = \<lparr>bh_Offset = bloomOffset, bh_Size = bloomSize\<rparr>,
                                ft_NumEntries = sw_entryCount w, ft_Magic = MagicNumber\<rparr> in
                  case file_write f (ft_Encode footer) of
                    (False, f) \<Rightarrow> fail w f
                  | (True, f) \<Rightarrow> (case file_close f of (ok, f) \<Rightarrow> (ok, w\<lparr>sw_file := f\<rparr>)))"

definition sst_Size :: "sst_writer \<Rightarrow> u64" where
  "sst_Size w = sw_offset w + 48"

end
