(* ===== verification/BlockCache.thy ===== *)
theory BlockCache
  imports Prelude "HOL-Library.AList"
begin

unbundle bit_operations_syntax

text \<open>
  The sharded LRU block cache of \<^verbatim>\<open>internal/sstable/cache.go\<close>.  A shard keeps a
  \<^verbatim>\<open>container/list\<close> of elements and a two-level map from file and offset to the element.  Elements
  are addresses into \<open>cs_heap\<close>, so that map and list share them as the pointers of the program do;
  the maps are association lists, the list is the list of addresses, front first.  Each operation
  holds the lock of its shard, so operations on a shard are atomic.
\<close>

section \<open>Model\<close>

definition NumShards :: nat where
  "NumShards = 4"

record cacheItem =
  ci_fileID :: u64
  ci_offset :: u64
  ci_data :: bytes

record cacheShard =
  cs_items :: "(u64 \<times> (u64 \<times> nat) list) list"
  cs_order :: "nat list"
  cs_heap :: "cacheItem list"
  cs_size :: int
  cs_cap :: int

record BlockCache =
  bc_shards :: "cacheShard list"
  bc_capacity :: int

definition NewBlockCache :: "int \<Rightarrow> BlockCache" where
  "NewBlockCache capacityBytes =
     (let shardCap = capacityBytes div int NumShards;
          shardCap = (if shardCap < 1 then 1 else shardCap)
      in \<lparr>bc_shards = replicate NumShards
            \<lparr>cs_items = [], cs_order = [], cs_heap = [], cs_size = 0, cs_cap = shardCap\<rparr>,
          bc_capacity = capacityBytes\<rparr>)"

definition getShard :: "u64 \<Rightarrow> u64 \<Rightarrow> nat" where
  "getShard fileID offset = unat ((fileID XOR (offset * 2654435761)) mod of_nat NumShards)"

definition file_map :: "u64 \<Rightarrow> cacheShard \<Rightarrow> (u64 \<times> nat) list" where
  "file_map fileID sh = (case map_of (cs_items sh) fileID of None \<Rightarrow> [] | Some fm \<Rightarrow> fm)"

definition move_to_front :: "nat \<Rightarrow> nat list \<Rightarrow> nat list" where
  "move_to_front e xs = e # remove1 e xs"

definition shard_Get :: "u64 \<Rightarrow> u64 \<Rightarrow> cacheShard \<Rightarrow> bytes option \<times> cacheShard" where
  "shard_Get fileID offset sh =
     (case map_of (cs_items sh) fileID of
        None \<Rightarrow> (None, sh)
      | Some fileMap \<Rightarrow>
          (case map_of fileMap offset of
             None \<Rightarrow> (None, sh)
           | Some elem \<Rightarrow> (Some (ci_data (cs_heap sh ! elem)),
                           sh\<lparr>cs_order := move_to_front elem (cs_order sh)\<rparr>)))"

definition unmap :: "cacheItem \<Rightarrow> cacheShard \<Rightarrow> (u64 \<times> (u64 \<times> nat) list) list" where
  "unmap it sh =
     (let fm = AList.delete (ci_offset it) (file_map (ci_fileID it) sh)
      in if fm = [] then AList.delete (ci_fileID it) (cs_items sh)
         else AList.update (ci_fileID it) fm (cs_items sh))"

definition evict_back :: "cacheShard \<Rightarrow> cacheShard" where
  "evict_back sh =
     (let it = cs_heap sh ! last (cs_order sh)
      in sh\<lparr>cs_order := butlast (cs_order sh), cs_size := cs_size sh - int (length (ci_data it)),
            cs_items := unmap it sh\<rparr>)"

function evict :: "cacheShard \<Rightarrow> cacheShard" where
  "evict sh = (if cs_cap sh < cs_size sh \<and> cs_order sh \<noteq> [] then evict (evict_back sh) else sh)"
  by pat_completeness auto
termination
  by (relation "measure (length \<circ> cs_order)") (auto simp: evict_back_def Let_def)

declare evict.simps [simp del]

definition insert_block :: "u64 \<Rightarrow> u64 \<Rightarrow> bytes \<Rightarrow> cacheShard \<Rightarrow> cacheShard" where
  "insert_block fileID offset data sh =
     (let fileMap = file_map fileID sh in
      case map_of fileMap offset of
        Some elem \<Rightarrow>
          let it = cs_heap sh ! elem; oldSize = length (ci_data it)
          in sh\<lparr>cs_heap := (cs_heap sh)[elem := it\<lparr>ci_data := data\<rparr>],
                cs_size := cs_size sh + (int (length data) - int oldSize),
                cs_order := move_to_front elem (cs_order sh)\<rparr>
      | None \<Rightarrow>
          let elem = length (cs_heap sh)
          in sh\<lparr>cs_heap := cs_heap sh @ [\<lparr>ci_fileID = fileID, ci_offset = offset, ci_data = data\<rparr>],
                cs_order := elem # cs_order sh,
                cs_items := AList.update fileID (AList.update offset elem fileMap) (cs_items sh),
                cs_size := cs_size sh + int (length data)\<rparr>)"

definition shard_Put :: "u64 \<Rightarrow> u64 \<Rightarrow> bytes \<Rightarrow> cacheShard \<Rightarrow> cacheShard" where
  "shard_Put fileID offset data sh = evict (insert_block fileID offset data sh)"

definition drop_elem :: "nat \<Rightarrow> cacheShard \<Rightarrow> cacheShard" where
  "drop_elem elem sh =
     sh\<lparr>cs_order := remove1 elem (cs_order sh),
        cs_size := cs_size sh - int (length (ci_data (cs_heap sh ! elem)))\<rparr>"

definition shard_RemoveFile :: "u64 \<Rightarrow> cacheShard \<Rightarrow> cacheShard" where
  "shard_RemoveFile fileID sh =
     (case map_of (cs_items sh) fileID of
        None \<Rightarrow> sh
      | Some fileMap \<Rightarrow>
          (fold drop_elem (map snd fileMap) sh)\<lparr>cs_items := AList.delete fileID (cs_items sh)\<rparr>)"

definition cache_Get :: "u64 \<Rightarrow> u64 \<Rightarrow> BlockCache \<Rightarrow> bytes option \<times> BlockCache" where
  "cache_Get fileID offset c =
     (let i = getShard fileID offset; (r, sh) = shard_Get fileID offset (bc_shards c ! i)
      in (r, c\<lparr>bc_shards := (bc_shards c)[i := sh]\<rparr>))"

definition cache_Put :: "u64 \<Rightarrow> u64 \<Rightarrow> bytes \<Rightarrow> BlockCache \<Rightarrow> BlockCache" where
  "cache_Put fileID offset data c =
     (let i = getShard fileID offset
      in c\<lparr>bc_shards := (bc_shards c)[i := shard_Put fileID offset data (bc_shards c ! i)]\<rparr>)"

definition cache_RemoveFile :: "u64 \<Rightarrow> BlockCache \<Rightarrow> BlockCache" where
  "cache_RemoveFile fileID c = c\<lparr>bc_shards := map (shard_RemoveFile fileID) (bc_shards c)\<rparr>"

section \<open>Specification: least-recently-used lists\<close>

text \<open>A shard is the list of its blocks, most recently used first, bounded by a total size.\<close>

type_synonym lru = "((u64 \<times> u64) \<times> bytes) list"

definition lru_size :: "lru \<Rightarrow> int" where
  "lru_size l = sum_list (map (int \<circ> length \<circ> snd) l)"

function lru_trim :: "int \<Rightarrow> lru \<Rightarrow> lru" where
  "lru_trim cap l = (if cap < lru_size l \<and> l \<noteq> [] then lru_trim cap (butlast l) else l)"
  by pat_completeness auto
termination
  by (relation "measure (length \<circ> snd)") auto

declare lru_trim.simps [simp del]

definition lru_without :: "u64 \<times> u64 \<Rightarrow> lru \<Rightarrow> lru" where
  "lru_without k l = filter (\<lambda>p. fst p \<noteq> k) l"

definition lru_get :: "u64 \<times> u64 \<Rightarrow> lru \<Rightarrow> bytes option \<times> lru" where
  "lru_get k l = (case map_of l k of None \<Rightarrow> (None, l) | Some d \<Rightarrow> (Some d, (k, d) # lru_without k l))"

definition lru_put :: "int \<Rightarrow> u64 \<times> u64 \<Rightarrow> bytes \<Rightarrow> lru \<Rightarrow> lru" where
  "lru_put cap k d l = lru_trim cap ((k, d) # lru_without k l)"

definition lru_remove_file :: "u64 \<Rightarrow> lru \<Rightarrow> lru" where
  "lru_remove_file f l = filter (\<lambda>p. fst (fst p) \<noteq> f) l"

section \<open>Representation\<close>

definition item_key :: "cacheItem \<Rightarrow> u64 \<times> u64" where
  "item_key it = (ci_fileID it, ci_offset it)"

definition shard_abs :: "cacheShard \<Rightarrow> lru" where
  "shard_abs sh = map (\<lambda>e. (item_key (cs_heap sh ! e), ci_data (cs_heap sh ! e))) (cs_order sh)"

text \<open>Map and list share their elements: the map finds exactly the elements of the list, by key.\<close>

definition shard_ok :: "cacheShard \<Rightarrow> bool" where
  "shard_ok sh \<longleftrightarrow>
     distinct (cs_order sh) \<and> (\<forall>e \<in> set (cs_order sh). e < length (cs_heap sh)) \<and>
     distinct (map fst (cs_items sh)) \<and> (\<forall>f. distinct (map fst (file_map f sh))) \<and>
     (\<forall>f off e. map_of (file_map f sh) off = Some e \<longleftrightarrow>
        e \<in> set (cs_order sh) \<and> item_key (cs_heap sh ! e) = (f, off)) \<and>
     cs_size sh = lru_size (shard_abs sh)"

lemma shard_okD:
  assumes "shard_ok sh"
  shows "distinct (cs_order sh)" "\<And>e. e \<in> set (cs_order sh) \<Longrightarrow> e < length (cs_heap sh)"
    "distinct (map fst (cs_items sh))" "\<And>f. distinct (map fst (file_map f sh))"
    "\<And>f off e. map_of (file_map f sh) off = Some e \<longleftrightarrow>
       e \<in> set (cs_order sh) \<and> item_key (cs_heap sh ! e) = (f, off)"
    "cs_size sh = lru_size (shard_abs sh)"
  using assms by (auto simp: shard_ok_def)

lemma shard_ok_inj:
  assumes "shard_ok sh" "e \<in> set (cs_order sh)" "e' \<in> set (cs_order sh)"
    "item_key (cs_heap sh ! e) = item_key (cs_heap sh ! e')"
  shows "e = e'"
proof -
  obtain f off where k: "item_key (cs_heap sh ! e) = (f, off)" by (cases "item_key (cs_heap sh ! e)")
  then have "map_of (file_map f sh) off = Some e" "map_of (file_map f sh) off = Some e'"
    using assms by (simp_all add: shard_okD(5) [OF assms(1)])
  then show ?thesis by simp
qed

lemma shard_abs_keys:
  assumes "shard_ok sh" shows "distinct (map fst (shard_abs sh))"
proof -
  have "inj_on (\<lambda>e. item_key (cs_heap sh ! e)) (set (cs_order sh))"
    using shard_ok_inj [OF assms] by (auto intro: inj_onI)
  then show ?thesis using shard_okD(1) [OF assms] by (simp add: shard_abs_def distinct_map comp_def)
qed

lemma abs_lookup:
  assumes "shard_ok sh"
  shows "map_of (shard_abs sh) (f, off) = map_option (\<lambda>e. ci_data (cs_heap sh ! e)) (map_of (file_map f sh) off)"
proof (cases "map_of (file_map f sh) off")
  case (Some e)
  then have "((f, off), ci_data (cs_heap sh ! e)) \<in> set (shard_abs sh)"
    using shard_okD(5) [OF assms] by (force simp: shard_abs_def)
  with Some show ?thesis using map_of_is_SomeI [OF shard_abs_keys [OF assms]] by simp
next
  case None
  then have "\<nexists>e. e \<in> set (cs_order sh) \<and> item_key (cs_heap sh ! e) = (f, off)"
    using shard_okD(5) [OF assms, of f off] by auto
  then have "(f, off) \<notin> fst ` set (shard_abs sh)" by (auto simp: shard_abs_def)
  then have "map_of (shard_abs sh) (f, off) = None" by (simp only: map_of_eq_None_iff simp_thms)
  then show ?thesis using None by simp
qed

lemma abs_remove1:
  assumes "shard_ok sh" "e \<in> set (cs_order sh)"
  shows "map (\<lambda>e. (item_key (cs_heap sh ! e), ci_data (cs_heap sh ! e))) (remove1 e (cs_order sh)) =
    lru_without (item_key (cs_heap sh ! e)) (shard_abs sh)"
proof -
  have "filter (\<lambda>x. x \<noteq> e) (cs_order sh) =
      filter (\<lambda>x. item_key (cs_heap sh ! x) \<noteq> item_key (cs_heap sh ! e)) (cs_order sh)"
    using shard_ok_inj [OF assms(1) _ assms(2)] by (intro filter_cong) auto
  then show ?thesis
    using shard_okD(1) [OF assms(1)]
    by (simp add: lru_without_def shard_abs_def filter_map comp_def distinct_remove1_removeAll removeAll_filter_not_eq
        eq_commute)
qed

lemma lru_size_without:
  assumes "distinct (map fst l)" "map_of l k = Some d"
  shows "lru_size (lru_without k l) = lru_size l - int (length d)"
  using assms
proof (induction l)
  case (Cons p l)
  show ?case
  proof (cases "fst p = k")
    case True
    then have "filter (\<lambda>q. fst q \<noteq> k) l = l" using Cons.prems(1)
      by (intro filter_True) (metis distinct.simps(2) image_eqI list.set_map list.simps(9))
    then show ?thesis using True Cons.prems(2) by (simp add: lru_without_def lru_size_def)
  next
    case False
    with Cons show ?thesis by (auto simp: lru_without_def lru_size_def)
  qed
qed simp

lemma lru_without_absent: "k \<notin> fst ` set l \<Longrightarrow> lru_without k l = l"
  by (auto simp: lru_without_def intro!: filter_True)

lemma lru_size_Cons [simp]: "lru_size (p # l) = int (length (snd p)) + lru_size l"
  by (simp add: lru_size_def)

lemma lru_size_Nil [simp]: "lru_size [] = 0"
  by (simp add: lru_size_def)

lemma lru_size_butlast: "l \<noteq> [] \<Longrightarrow> lru_size l = lru_size (butlast l) + int (length (snd (last l)))"
  by (induction l) auto

lemma file_map_items_update:
  "file_map g (sh\<lparr>cs_items := AList.update f fm (cs_items sh)\<rparr>) = (if g = f then fm else file_map g sh)"
  by (simp add: file_map_def update_conv')

lemma file_map_items_delete:
  "file_map g (sh\<lparr>cs_items := AList.delete f (cs_items sh)\<rparr>) = (if g = f then [] else file_map g sh)"
  by (simp add: file_map_def delete_conv')

lemma file_map_cong: "cs_items s = cs_items s' \<Longrightarrow> file_map f s = file_map f s'"
  by (simp add: file_map_def)

lemma file_map_unmap:
  "file_map g (sh\<lparr>cs_items := unmap it sh\<rparr>) =
     (if g = ci_fileID it then AList.delete (ci_offset it) (file_map g sh) else file_map g sh)"
  by (auto simp: unmap_def Let_def file_map_items_update file_map_items_delete)

lemma distinct_unmap: "distinct (map fst (cs_items sh)) \<Longrightarrow> distinct (map fst (unmap it sh))"
  by (simp add: unmap_def Let_def distinct_update distinct_delete)

section \<open>Each operation implements its specification\<close>

lemma shard_Get_ok:
  assumes "shard_ok sh"
  shows "fst (shard_Get f off sh) = fst (lru_get (f, off) (shard_abs sh)) \<and>
    shard_abs (snd (shard_Get f off sh)) = snd (lru_get (f, off) (shard_abs sh)) \<and>
    shard_ok (snd (shard_Get f off sh)) \<and> cs_cap (snd (shard_Get f off sh)) = cs_cap sh"
proof (cases "map_of (file_map f sh) off")
  case None
  then have "shard_Get f off sh = (None, sh)"
    by (auto simp: shard_Get_def file_map_def split: option.splits)
  with None assms show ?thesis by (simp add: lru_get_def abs_lookup)
next
  case (Some e)
  let ?sh = "sh\<lparr>cs_order := move_to_front e (cs_order sh)\<rparr>"
  have e: "e \<in> set (cs_order sh)" "item_key (cs_heap sh ! e) = (f, off)"
    using Some shard_okD(5) [OF assms] by auto
  have g: "shard_Get f off sh = (Some (ci_data (cs_heap sh ! e)), ?sh)"
    using Some by (auto simp: shard_Get_def file_map_def split: option.splits)
  have l: "lru_get (f, off) (shard_abs sh) =
    (Some (ci_data (cs_heap sh ! e)), ((f, off), ci_data (cs_heap sh ! e)) # lru_without (f, off) (shard_abs sh))"
    using Some assms by (simp add: lru_get_def abs_lookup)
  have a: "shard_abs ?sh = snd (lru_get (f, off) (shard_abs sh))"
    unfolding l using abs_remove1 [OF assms e(1)] e(2) by (simp add: shard_abs_def move_to_front_def)
  have "map_of (shard_abs sh) (f, off) = Some (ci_data (cs_heap sh ! e))" using Some assms by (simp add: abs_lookup)
  then have "lru_size (shard_abs ?sh) = lru_size (shard_abs sh)"
    unfolding a l using lru_size_without [OF shard_abs_keys [OF assms]] by simp
  moreover have "set (cs_order ?sh) = set (cs_order sh)"
    using e(1) shard_okD(1) [OF assms] by (auto simp: move_to_front_def set_remove1_eq)
  moreover have "distinct (cs_order ?sh)"
    using shard_okD(1) [OF assms] by (simp add: move_to_front_def set_remove1_eq)
  moreover have "file_map f' ?sh = file_map f' sh" for f' by (simp add: file_map_def)
  ultimately have "shard_ok ?sh" using assms by (simp add: shard_ok_def)
  with g a l show ?thesis by simp
qed

lemma evict_back_ok:
  assumes "shard_ok sh" "cs_order sh \<noteq> []"
  shows "shard_ok (evict_back sh) \<and> shard_abs (evict_back sh) = butlast (shard_abs sh) \<and>
    cs_cap (evict_back sh) = cs_cap sh"
proof -
  let ?e = "last (cs_order sh)" let ?it = "cs_heap sh ! ?e"
  have e: "?e \<in> set (cs_order sh)" using assms(2) by simp
  have ord: "cs_order sh = butlast (cs_order sh) @ [?e]" using assms(2) by simp
  have heap: "cs_heap (evict_back sh) = cs_heap sh" "cs_order (evict_back sh) = butlast (cs_order sh)"
    "cs_cap (evict_back sh) = cs_cap sh" "cs_items (evict_back sh) = unmap ?it sh"
    "cs_size (evict_back sh) = cs_size sh - int (length (ci_data ?it))"
    by (simp_all add: evict_back_def Let_def)
  have abs: "shard_abs (evict_back sh) = butlast (shard_abs sh)"
    by (simp add: shard_abs_def heap map_butlast)
  have out: "?e \<notin> set (butlast (cs_order sh))"
    using shard_okD(1) [OF assms(1)] by (subst (asm) ord) simp
  have set: "set (butlast (cs_order sh)) = set (cs_order sh) - {?e}"
    using out by (subst (2) ord) auto
  have fm: "file_map g (evict_back sh) =
      (if g = ci_fileID ?it then AList.delete (ci_offset ?it) (file_map g sh) else file_map g sh)" for g
    using file_map_unmap [where g = g and sh = sh and it = ?it] by (simp add: heap file_map_def)
  have "map_of (file_map f (evict_back sh)) off = Some e \<longleftrightarrow>
      e \<in> set (butlast (cs_order sh)) \<and> item_key (cs_heap sh ! e) = (f, off)" for f off e
    using shard_okD(5) [OF assms(1), of f off e] shard_ok_inj [OF assms(1) e, of e]
    by (auto simp: fm set delete_conv' item_key_def)
  moreover have "distinct (map fst (file_map g (evict_back sh)))" for g
    using shard_okD(4) [OF assms(1)] by (simp add: fm distinct_delete)
  moreover have "lru_size (shard_abs sh) = lru_size (shard_abs (evict_back sh)) + int (length (ci_data ?it))"
    unfolding abs using assms(2) lru_size_butlast [of "shard_abs sh"] by (simp add: shard_abs_def last_map)
  ultimately have "shard_ok (evict_back sh)"
    using assms(1) out set unfolding shard_ok_def heap(1,2) heap(4,5)
    by (auto simp: distinct_butlast distinct_unmap)
  with abs heap(3) show ?thesis by simp
qed

lemma evict_ok:
  "shard_ok sh \<Longrightarrow> shard_ok (evict sh) \<and> shard_abs (evict sh) = lru_trim (cs_cap sh) (shard_abs sh) \<and>
     cs_cap (evict sh) = cs_cap sh"
proof (induction sh rule: evict.induct)
  case (1 sh)
  have ne: "cs_order sh \<noteq> [] \<longleftrightarrow> shard_abs sh \<noteq> []" by (simp add: shard_abs_def)
  show ?case
  proof (cases "cs_cap sh < cs_size sh \<and> cs_order sh \<noteq> []")
    case True
    then show ?thesis
      using 1 evict_back_ok [of sh] shard_okD(6) [OF 1(2)] ne
      by (simp add: evict.simps [of sh] lru_trim.simps [of "cs_cap sh" "shard_abs sh"])
  next
    case False
    then show ?thesis
      using 1(2) shard_okD(6) [OF 1(2)] ne
      by (auto simp: evict.simps [of sh] lru_trim.simps [of "cs_cap sh" "shard_abs sh"])
  qed
qed

lemma insert_block_old:
  assumes "shard_ok sh" "map_of (file_map f sh) off = Some e"
  shows "shard_ok (insert_block f off d sh) \<and>
    shard_abs (insert_block f off d sh) = ((f, off), d) # lru_without (f, off) (shard_abs sh) \<and>
    cs_cap (insert_block f off d sh) = cs_cap sh"
proof -
  let ?it = "cs_heap sh ! e"
  let ?sh = "sh\<lparr>cs_heap := (cs_heap sh)[e := ?it\<lparr>ci_data := d\<rparr>],
    cs_size := cs_size sh + (int (length d) - int (length (ci_data ?it))),
    cs_order := move_to_front e (cs_order sh)\<rparr>"
  have e: "e \<in> set (cs_order sh)" "item_key ?it = (f, off)"
    using assms(2) shard_okD(5) [OF assms(1)] by auto
  have lt: "e < length (cs_heap sh)" using e(1) shard_okD(2) [OF assms(1)] by simp
  have ins: "insert_block f off d sh = ?sh" using assms(2) by (simp add: insert_block_def Let_def)
  have key: "item_key ((cs_heap sh)[e := ?it\<lparr>ci_data := d\<rparr>] ! x) = item_key (cs_heap sh ! x)" for x
    using lt by (cases "x = e") (simp_all add: item_key_def)
  have dist: "distinct (cs_order sh)" by (rule shard_okD(1) [OF assms(1)])
  have "map (\<lambda>x. (item_key ((cs_heap sh)[e := ?it\<lparr>ci_data := d\<rparr>] ! x), ci_data ((cs_heap sh)[e := ?it\<lparr>ci_data := d\<rparr>] ! x)))
      (remove1 e (cs_order sh)) = map (\<lambda>x. (item_key (cs_heap sh ! x), ci_data (cs_heap sh ! x))) (remove1 e (cs_order sh))"
    using dist by (intro map_cong) (auto simp: set_remove1_eq key)
  then have abs: "shard_abs ?sh = ((f, off), d) # lru_without (f, off) (shard_abs sh)"
    using abs_remove1 [OF assms(1) e(1)] e(2) lt key [of e]
    by (simp add: shard_abs_def [of "_\<lparr>cs_order := _\<rparr>"] move_to_front_def)
  have "map_of (shard_abs sh) (f, off) = Some (ci_data ?it)" using assms by (simp add: abs_lookup)
  then have "cs_size ?sh = lru_size (shard_abs ?sh)"
    unfolding abs using lru_size_without [OF shard_abs_keys [OF assms(1)]] shard_okD(6) [OF assms(1)] by simp
  moreover have "set (move_to_front e (cs_order sh)) = set (cs_order sh)"
    using e(1) dist by (auto simp: move_to_front_def set_remove1_eq)
  moreover have "distinct (move_to_front e (cs_order sh))"
    using dist by (simp add: move_to_front_def set_remove1_eq)
  moreover have "file_map g ?sh = file_map g sh" for g by (simp add: file_map_def)
  ultimately have "shard_ok ?sh"
    using assms(1) unfolding shard_ok_def by (simp add: key)
  with abs ins show ?thesis by simp
qed

lemma insert_block_new:
  assumes "shard_ok sh" "map_of (file_map f sh) off = None"
  shows "shard_ok (insert_block f off d sh) \<and>
    shard_abs (insert_block f off d sh) = ((f, off), d) # lru_without (f, off) (shard_abs sh) \<and>
    cs_cap (insert_block f off d sh) = cs_cap sh"
proof -
  let ?e = "length (cs_heap sh)" let ?it = "\<lparr>ci_fileID = f, ci_offset = off, ci_data = d\<rparr>"
  let ?items = "AList.update f (AList.update off ?e (file_map f sh)) (cs_items sh)"
  let ?sh = "sh\<lparr>cs_heap := cs_heap sh @ [?it], cs_order := ?e # cs_order sh, cs_items := ?items,
    cs_size := cs_size sh + int (length d)\<rparr>"
  have ins: "insert_block f off d sh = ?sh" using assms(2) by (simp add: insert_block_def Let_def)
  have old: "(cs_heap sh @ [?it]) ! x = cs_heap sh ! x" if "x \<in> set (cs_order sh)" for x
    using that shard_okD(2) [OF assms(1)] by (simp add: nth_append)
  have fresh: "?e \<notin> set (cs_order sh)" using shard_okD(2) [OF assms(1)] by blast
  have "(f, off) \<notin> fst ` set (shard_abs sh)"
    using assms(2) abs_lookup [OF assms(1), of f off] by (simp add: map_of_eq_None_iff [symmetric])
  then have wo: "lru_without (f, off) (shard_abs sh) = shard_abs sh" by (rule lru_without_absent)
  have abs: "shard_abs ?sh = ((f, off), d) # lru_without (f, off) (shard_abs sh)"
    unfolding wo by (simp add: shard_abs_def item_key_def old)
  have fm: "file_map g ?sh = (if g = f then AList.update off ?e (file_map f sh) else file_map g sh)" for g
    by (simp add: file_map_def update_conv')
  have "map_of (file_map g ?sh) o' = Some x \<longleftrightarrow>
      x \<in> set (?e # cs_order sh) \<and> item_key ((cs_heap sh @ [?it]) ! x) = (g, o')" for g o' x
    using shard_okD(5) [OF assms(1), of g o' x] assms(2) fresh old [of x]
    by (cases "x = ?e") (auto simp: fm update_conv' item_key_def)
  moreover have "distinct (map fst (file_map g ?sh))" for g
    using shard_okD(4) [OF assms(1)] by (simp add: fm distinct_update)
  moreover have "distinct (map fst ?items)" using shard_okD(3) [OF assms(1)] by (rule distinct_update)
  moreover have "cs_size ?sh = lru_size (shard_abs ?sh)"
    unfolding abs wo using shard_okD(6) [OF assms(1)] by simp
  moreover have "\<forall>x \<in> set (?e # cs_order sh). x < length (cs_heap sh @ [?it])"
    using shard_okD(2) [OF assms(1)] by (auto intro: less_SucI)
  ultimately have "shard_ok ?sh"
    using shard_okD(1) [OF assms(1)] fresh unfolding shard_ok_def by simp
  with abs ins show ?thesis by simp
qed

lemma shard_Put_ok:
  assumes "shard_ok sh"
  shows "shard_ok (shard_Put f off d sh) \<and>
    shard_abs (shard_Put f off d sh) = lru_put (cs_cap sh) (f, off) d (shard_abs sh) \<and>
    cs_cap (shard_Put f off d sh) = cs_cap sh"
  using insert_block_old [OF assms, of f off _ d] insert_block_new [OF assms, of f off d]
    evict_ok [of "insert_block f off d sh"]
  by (cases "map_of (file_map f sh) off") (auto simp: shard_Put_def lru_put_def)

lemma fold_drop_elem:
  "distinct (cs_order sh) \<Longrightarrow> fold drop_elem es sh =
     sh\<lparr>cs_order := filter (\<lambda>e. e \<notin> set es) (cs_order sh),
        cs_size := cs_size sh - sum_list (map (\<lambda>e. int (length (ci_data (cs_heap sh ! e)))) es)\<rparr>"
proof (induction es arbitrary: sh)
  case (Cons e es)
  have "filter (\<lambda>x. x \<notin> set es) (remove1 e (cs_order sh)) = filter (\<lambda>x. x \<notin> set (e # es)) (cs_order sh)"
    using Cons.prems by (simp add: distinct_remove1_removeAll removeAll_filter_not_eq) (metis (no_types, lifting))
  with Cons show ?case by (simp add: drop_elem_def)
qed simp

lemma file_map_elems:
  assumes "shard_ok sh"
  shows "distinct (map snd (file_map f sh))"
    "set (map snd (file_map f sh)) = {e \<in> set (cs_order sh). ci_fileID (cs_heap sh ! e) = f}"
proof -
  have mem: "(off, e) \<in> set (file_map f sh) \<longleftrightarrow> e \<in> set (cs_order sh) \<and> item_key (cs_heap sh ! e) = (f, off)" for off e
    using shard_okD(4,5) [OF assms] by (metis map_of_eq_Some_iff)
  have "inj_on snd (set (file_map f sh))" by (rule inj_onI) (auto simp: mem)
  moreover have "distinct (file_map f sh)" using shard_okD(4) [OF assms] distinct_map by blast
  ultimately show "distinct (map snd (file_map f sh))" by (simp add: distinct_map)
  show "set (map snd (file_map f sh)) = {e \<in> set (cs_order sh). ci_fileID (cs_heap sh ! e) = f}"
  proof (rule set_eqI)
    fix e
    have "e \<in> set (map snd (file_map f sh)) \<longleftrightarrow> (\<exists>off. (off, e) \<in> set (file_map f sh))" by force
    then show "e \<in> set (map snd (file_map f sh)) \<longleftrightarrow> e \<in> {e \<in> set (cs_order sh). ci_fileID (cs_heap sh ! e) = f}"
      by (auto simp: mem item_key_def)
  qed
qed

lemma sum_filter_out:
  assumes "distinct xs" "distinct es" "set es \<subseteq> set xs"
  shows "sum_list (map w (filter (\<lambda>e. e \<notin> set es) xs)) = sum_list (map w xs) - (sum_list (map w es) :: int)"
proof -
  have "set (filter (\<lambda>e. e \<notin> set es) xs) = set xs - set es" by auto
  with assms show ?thesis by (simp add: sum_list_distinct_conv_sum_set sum_diff)
qed

lemma shard_RemoveFile_ok:
  assumes "shard_ok sh"
  shows "shard_ok (shard_RemoveFile f sh) \<and> shard_abs (shard_RemoveFile f sh) = lru_remove_file f (shard_abs sh) \<and>
    cs_cap (shard_RemoveFile f sh) = cs_cap sh"
proof -
  let ?es = "map snd (file_map f sh)"
  let ?ord = "filter (\<lambda>e. e \<notin> set ?es) (cs_order sh)"
  let ?sh = "sh\<lparr>cs_order := ?ord, cs_size := cs_size sh - sum_list (map (\<lambda>e. int (length (ci_data (cs_heap sh ! e)))) ?es),
    cs_items := AList.delete f (cs_items sh)\<rparr>"
  note es = file_map_elems [OF assms, of f]
  have dist: "distinct (cs_order sh)" by (rule shard_okD(1) [OF assms])
  have rm: "shard_RemoveFile f sh = ?sh"
  proof (cases "map_of (cs_items sh) f")
    case None
    then have "file_map f sh = []" by (simp add: file_map_def)
    moreover have "AList.delete f (cs_items sh) = cs_items sh" using None by (simp add: map_of_eq_None_iff)
    ultimately show ?thesis using None by (simp add: shard_RemoveFile_def)
  next
    case (Some fm)
    then show ?thesis using fold_drop_elem [OF dist, of ?es] by (simp add: shard_RemoveFile_def file_map_def)
  qed
  have ord: "?ord = filter (\<lambda>e. ci_fileID (cs_heap sh ! e) \<noteq> f) (cs_order sh)"
    unfolding es(2) by (intro filter_cong) auto
  define s where "s = ?sh"
  have sel: "cs_heap s = cs_heap sh" "cs_order s = filter (\<lambda>e. ci_fileID (cs_heap sh ! e) \<noteq> f) (cs_order sh)"
    "cs_items s = AList.delete f (cs_items sh)" "cs_cap s = cs_cap sh"
    "cs_size s = cs_size sh - sum_list (map (\<lambda>e. int (length (ci_data (cs_heap sh ! e)))) ?es)"
    unfolding s_def ord by simp_all
  have abs: "shard_abs s = lru_remove_file f (shard_abs sh)"
    by (simp add: shard_abs_def lru_remove_file_def filter_map comp_def item_key_def sel)
  have fm: "file_map g s = (if g = f then [] else file_map g sh)" for g
    by (simp add: file_map_def delete_conv' sel)
  have "lru_size (shard_abs s) = cs_size s"
    using sum_filter_out [OF dist es(1), of "\<lambda>e. int (length (ci_data (cs_heap sh ! e)))"] es(2) shard_okD(6) [OF assms]
    unfolding ord by (simp add: lru_size_def shard_abs_def comp_def sel del: set_map)
  moreover have "map_of (file_map g s) off = Some e \<longleftrightarrow> e \<in> set (cs_order s) \<and> item_key (cs_heap s ! e) = (g, off)" for g off e
    unfolding fm sel using shard_okD(5) [OF assms, of g off e] by (auto simp: item_key_def)
  moreover have "distinct (map fst (file_map g s))" for g
    unfolding fm using shard_okD(4) [OF assms] by simp
  moreover have "distinct (map fst (cs_items s))"
    unfolding sel by (rule distinct_delete [OF shard_okD(3) [OF assms]])
  ultimately have "shard_ok s"
    unfolding shard_ok_def using dist shard_okD(2) [OF assms] by (simp add: sel)
  with abs rm s_def show ?thesis by simp
qed

section \<open>The whole cache\<close>

datatype cache_op = CGet u64 u64 | CPut u64 u64 bytes | CRemoveFile u64

fun cache_exec :: "cache_op \<Rightarrow> BlockCache \<Rightarrow> BlockCache" where
  "cache_exec (CGet f off) c = snd (cache_Get f off c)"
| "cache_exec (CPut f off d) c = cache_Put f off d c"
| "cache_exec (CRemoveFile f) c = cache_RemoveFile f c"

fun lru_exec :: "int \<Rightarrow> cache_op \<Rightarrow> lru list \<Rightarrow> lru list" where
  "lru_exec cap (CGet f off) ls = ls[getShard f off := snd (lru_get (f, off) (ls ! getShard f off))]"
| "lru_exec cap (CPut f off d) ls = ls[getShard f off := lru_put cap (f, off) d (ls ! getShard f off)]"
| "lru_exec cap (CRemoveFile f) ls = map (lru_remove_file f) ls"

definition cache_rep :: "int \<Rightarrow> BlockCache \<Rightarrow> lru list \<Rightarrow> bool" where
  "cache_rep cap c ls \<longleftrightarrow> length ls = NumShards \<and>
     list_all2 (\<lambda>sh l. shard_ok sh \<and> shard_abs sh = l \<and> cs_cap sh = cap) (bc_shards c) ls"

lemma getShard_less: "getShard f off < NumShards"
  by (simp add: getShard_def NumShards_def unat_mod)

lemma cache_rep_nth:
  assumes "cache_rep cap c ls" "i < NumShards"
  shows "shard_ok (bc_shards c ! i)" "shard_abs (bc_shards c ! i) = ls ! i" "cs_cap (bc_shards c ! i) = cap"
    "i < length (bc_shards c)"
  using assms by (auto simp: cache_rep_def list_all2_conv_all_nth)

lemma cache_rep_update:
  assumes "cache_rep cap c ls" "shard_ok sh" "shard_abs sh = l" "cs_cap sh = cap"
  shows "cache_rep cap (c\<lparr>bc_shards := (bc_shards c)[i := sh]\<rparr>) (ls[i := l])"
  using assms by (auto simp: cache_rep_def list_all2_update_cong)

lemma cache_Get_rep:
  assumes "cache_rep cap c ls"
  shows "fst (cache_Get f off c) = fst (lru_get (f, off) (ls ! getShard f off)) \<and>
    cache_rep cap (snd (cache_Get f off c)) (lru_exec cap (CGet f off) ls)"
proof -
  note n = cache_rep_nth [OF assms getShard_less [of f off]]
  note g = shard_Get_ok [OF n(1), of f off, unfolded n]
  show ?thesis
    using g cache_rep_update [OF assms, of "snd (shard_Get f off (bc_shards c ! getShard f off))"]
    by (auto simp: cache_Get_def Let_def split_beta)
qed

lemma cache_exec_rep:
  assumes "cache_rep cap c ls"
  shows "cache_rep cap (cache_exec e c) (lru_exec cap e ls)"
proof (cases e)
  case (CGet f off)
  then show ?thesis using cache_Get_rep [OF assms] by simp
next
  case (CPut f off d)
  note n = cache_rep_nth [OF assms getShard_less [of f off]]
  show ?thesis
    using CPut shard_Put_ok [OF n(1), of f off d, unfolded n] cache_rep_update [OF assms]
    by (simp add: cache_Put_def Let_def)
next
  case (CRemoveFile f)
  then show ?thesis
    using assms shard_RemoveFile_ok
    by (auto simp: cache_rep_def cache_RemoveFile_def list_all2_conv_all_nth)
qed

lemma cache_run_rep:
  "cache_rep cap c ls \<Longrightarrow> cache_rep cap (fold cache_exec es c) (fold (lru_exec cap) es ls)"
  by (induction es arbitrary: c ls) (auto intro: cache_exec_rep)

lemma NewBlockCache_rep: "cache_rep (max 1 (cap div 4)) (NewBlockCache cap) (replicate NumShards [])"
  by (auto simp: cache_rep_def NewBlockCache_def Let_def list_all2_conv_all_nth shard_ok_def shard_abs_def
      file_map_def lru_size_def NumShards_def max_def)

section \<open>The size bound\<close>

lemma lru_trim_size: "0 \<le> cap \<Longrightarrow> lru_size (lru_trim cap l) \<le> cap"
proof (induction cap l rule: lru_trim.induct)
  case (1 cap l)
  then show ?case by (subst lru_trim.simps) auto
qed

lemma lru_size_filter: "lru_size (filter P l) \<le> lru_size l"
  by (induction l) auto

lemma lru_trim_subset: "set (lru_trim cap l) \<subseteq> set l"
proof (induction cap l rule: lru_trim.induct)
  case (1 cap l)
  then show ?case by (subst lru_trim.simps) (auto dest: in_set_butlastD)
qed

definition lru_good :: "int \<Rightarrow> (u64 \<times> u64 \<Rightarrow> bytes option) \<Rightarrow> nat \<Rightarrow> lru \<Rightarrow> bool" where
  "lru_good cap m i l \<longleftrightarrow> lru_size l \<le> cap \<and> distinct (map fst l) \<and>
     (\<forall>p \<in> set l. m (fst p) = Some (snd p) \<and> getShard (fst (fst p)) (snd (fst p)) = i)"

definition lru_inv :: "int \<Rightarrow> (u64 \<times> u64 \<Rightarrow> bytes option) \<Rightarrow> lru list \<Rightarrow> bool" where
  "lru_inv cap m ls \<longleftrightarrow> length ls = NumShards \<and> (\<forall>i < NumShards. lru_good cap m i (ls ! i))"

text \<open>The block last put under each key, since its file was removed.\<close>

fun put_step :: "cache_op \<Rightarrow> (u64 \<times> u64 \<Rightarrow> bytes option) \<Rightarrow> u64 \<times> u64 \<Rightarrow> bytes option" where
  "put_step (CGet f off) m = m"
| "put_step (CPut f off d) m = m((f, off) \<mapsto> d)"
| "put_step (CRemoveFile f) m = (\<lambda>k. if fst k = f then None else m k)"

definition last_put :: "cache_op list \<Rightarrow> u64 \<times> u64 \<Rightarrow> bytes option" where
  "last_put es = fold put_step es Map.empty"

lemma lru_get_cases:
  assumes "distinct (map fst l)"
  shows "lru_size (snd (lru_get k l)) = lru_size l" "set (snd (lru_get k l)) = set l"
    "distinct (map fst (snd (lru_get k l)))"
proof -
  show "lru_size (snd (lru_get k l)) = lru_size l"
    using lru_size_without [OF assms, of k] by (simp add: lru_get_def split: option.split)
  show "set (snd (lru_get k l)) = set l"
    using assms by (auto simp: lru_get_def lru_without_def eq_key_imp_eq_value dest: map_of_SomeD split: option.split)
  show "distinct (map fst (snd (lru_get k l)))"
    using assms by (auto simp: lru_get_def lru_without_def distinct_map_filter split: option.split)
qed

lemma lru_trim_distinct: "distinct (map fst l) \<Longrightarrow> distinct (map fst (lru_trim cap l))"
proof (induction cap l rule: lru_trim.induct)
  case (1 cap l)
  then show ?case by (subst lru_trim.simps) (simp add: map_butlast distinct_butlast)
qed

lemma lru_inv_update:
  assumes "lru_inv cap m ls" "lru_good cap m' i l" "\<And>j k. j < NumShards \<Longrightarrow> j \<noteq> i \<Longrightarrow> getShard (fst k) (snd k) = j \<Longrightarrow> m' k = m k"
  shows "lru_inv cap m' (ls[i := l])"
  unfolding lru_inv_def
proof (intro conjI allI impI)
  show "length (ls[i := l]) = NumShards" using assms(1) by (simp add: lru_inv_def)
  fix j assume j: "j < NumShards"
  then have good: "lru_good cap m j (ls ! j)" and len: "j < length ls" using assms(1) by (simp_all add: lru_inv_def)
  show "lru_good cap m' j (ls[i := l] ! j)"
  proof (cases "j = i")
    case True
    then show ?thesis using assms(2) len by simp
  next
    case False
    then show ?thesis using good assms(3) [OF j False] by (simp add: lru_good_def)
  qed
qed

lemma lru_exec_inv:
  assumes "lru_inv cap m ls" "0 \<le> cap"
  shows "lru_inv cap (put_step e m) (lru_exec cap e ls)"
proof (cases e)
  case (CGet f off)
  let ?i = "getShard f off"
  have good: "lru_good cap m ?i (ls ! ?i)" using assms(1) getShard_less by (simp add: lru_inv_def)
  then have "lru_good cap m ?i (snd (lru_get (f, off) (ls ! ?i)))"
    using lru_get_cases [of "ls ! ?i" "(f, off)"] by (simp add: lru_good_def)
  then have "lru_inv cap m (ls[?i := snd (lru_get (f, off) (ls ! ?i))])"
    by (rule lru_inv_update [OF assms(1)]) simp
  then show ?thesis using CGet by simp
next
  case (CPut f off d)
  let ?i = "getShard f off" let ?l = "((f, off), d) # lru_without (f, off) (ls ! ?i)"
  have good: "lru_good cap m ?i (ls ! ?i)" using assms(1) getShard_less by (simp add: lru_inv_def)
  then have "distinct (map fst ?l)" by (auto simp: lru_good_def lru_without_def distinct_map_filter)
  then have t: "distinct (map fst (lru_trim cap ?l))" "set (lru_trim cap ?l) \<subseteq> set ?l" "lru_size (lru_trim cap ?l) \<le> cap"
    using lru_trim_distinct lru_trim_subset lru_trim_size [OF assms(2)] by blast+
  have "lru_good cap (m((f, off) \<mapsto> d)) ?i (lru_trim cap ?l)"
    using good t unfolding lru_good_def lru_without_def by auto
  then have "lru_inv cap (m((f, off) \<mapsto> d)) (ls[?i := lru_trim cap ?l])"
    by (rule lru_inv_update [OF assms(1)]) auto
  then show ?thesis using CPut by (simp add: lru_put_def)
next
  case (CRemoveFile f)
  have "lru_good cap (put_step e m) i (lru_remove_file f l)" if "lru_good cap m i l" for i l
    using that order_trans [OF lru_size_filter] CRemoveFile
    by (auto simp: lru_remove_file_def lru_good_def distinct_map_filter)
  then show ?thesis using assms(1) CRemoveFile by (auto simp: lru_inv_def)
qed

lemma lru_run_inv: "lru_inv cap m ls \<Longrightarrow> 0 \<le> cap \<Longrightarrow> lru_inv cap (fold put_step es m) (fold (lru_exec cap) es ls)"
  by (induction es arbitrary: m ls) (auto intro: lru_exec_inv)

lemma lru_inv_empty: "0 \<le> cap \<Longrightarrow> lru_inv cap Map.empty (replicate NumShards [])"
  by (simp add: lru_inv_def lru_good_def)

section \<open>Properties\<close>

text \<open>
  C39. The cache implements four least-recently-used lists.  After any sequence of lookups, insertions
  and file removals the list of every shard, read through the shared elements, is the one the
  specification gives, a lookup answers as the specification does, and every shard counts its bytes
  exactly and stays within its capacity.
\<close>

theorem block_cache_refines_lru:
  fixes es capacity
  defines "cap \<equiv> max 1 (capacity div 4)"
  defines "c \<equiv> fold cache_exec es (NewBlockCache capacity)"
  defines "ls \<equiv> fold (lru_exec cap) es (replicate NumShards [])"
  shows "map shard_abs (bc_shards c) = ls \<and>
    fst (cache_Get f off c) = fst (lru_get (f, off) (ls ! getShard f off)) \<and>
    list_all (\<lambda>sh. cs_size sh = lru_size (shard_abs sh) \<and> cs_size sh \<le> cap) (bc_shards c)"
proof -
  have rep: "cache_rep cap c ls"
    unfolding cap_def c_def ls_def by (intro cache_run_rep NewBlockCache_rep)
  have inv: "lru_inv cap (fold put_step es Map.empty) ls"
    unfolding ls_def by (intro lru_run_inv lru_inv_empty) (simp_all add: cap_def)
  have "map shard_abs (bc_shards c) = ls"
    using rep by (auto simp: cache_rep_def list_all2_conv_all_nth intro: nth_equalityI)
  moreover have "list_all (\<lambda>sh. cs_size sh = lru_size (shard_abs sh) \<and> cs_size sh \<le> cap) (bc_shards c)"
    using rep inv
    by (auto simp: list_all_length cache_rep_def list_all2_conv_all_nth shard_ok_def lru_inv_def lru_good_def)
  ultimately show ?thesis using cache_Get_rep [OF rep] by simp
qed

text \<open>
  Coherence: whatever was cached, evicted and removed before, a lookup either misses or returns
  the block last put under that file and offset since the file was last removed.
\<close>

theorem block_cache_coherent:
  "fst (cache_Get f off (fold cache_exec es (NewBlockCache capacity))) \<in> {None, last_put es (f, off)}"
proof -
  let ?cap = "max 1 (capacity div 4)"
  let ?ls = "fold (lru_exec ?cap) es (replicate NumShards [])"
  have rep: "cache_rep ?cap (fold cache_exec es (NewBlockCache capacity)) ?ls"
    by (intro cache_run_rep NewBlockCache_rep)
  have "lru_inv ?cap (last_put es) ?ls"
    unfolding last_put_def by (intro lru_run_inv lru_inv_empty) simp_all
  then have "lru_good ?cap (last_put es) (getShard f off) (?ls ! getShard f off)"
    using getShard_less by (simp add: lru_inv_def)
  then have "fst (lru_get (f, off) (?ls ! getShard f off)) \<in> {None, last_put es (f, off)}"
    by (auto simp: lru_get_def lru_good_def dest!: map_of_SomeD split: option.split)
  then show ?thesis using cache_Get_rep [OF rep] by simp
qed

section \<open>The contract the readers rely on\<close>

text \<open>
  A block store answers with blocks that were put into it.  \<open>coh T\<close> says that everything it holds
  agrees with \<open>T\<close>, the blocks the files really have.
\<close>

locale block_store =
  fixes get :: "u64 \<Rightarrow> u64 \<Rightarrow> 'c \<Rightarrow> bytes option \<times> 'c"
    and put :: "u64 \<Rightarrow> u64 \<Rightarrow> bytes \<Rightarrow> 'c \<Rightarrow> 'c"
    and coh :: "(u64 \<times> u64 \<Rightarrow> bytes option) \<Rightarrow> 'c \<Rightarrow> bool"
  assumes get_coh: "coh T c \<Longrightarrow> get f off c = (r, c') \<Longrightarrow> coh T c' \<and> (r = None \<or> r = T (f, off))"
    and put_coh: "coh T c \<Longrightarrow> T (f, off) = Some d \<Longrightarrow> coh T (put f off d c)"

definition cache_coh :: "(u64 \<times> u64 \<Rightarrow> bytes option) \<Rightarrow> BlockCache \<Rightarrow> bool" where
  "cache_coh T c \<longleftrightarrow> (\<exists>cap ls. cache_rep cap c ls \<and> 0 \<le> cap \<and> lru_inv cap T ls)"

interpretation lru_cache: block_store cache_Get cache_Put cache_coh
proof
  fix T c f off r c'
  assume coh: "cache_coh T c" and g: "cache_Get f off c = (r, c')"
  then obtain cap ls where c: "cache_rep cap c ls" "0 \<le> cap" "lru_inv cap T ls" by (auto simp: cache_coh_def)
  have "lru_good cap T (getShard f off) (ls ! getShard f off)"
    using c(3) getShard_less by (simp add: lru_inv_def)
  then have "fst (lru_get (f, off) (ls ! getShard f off)) \<in> {None, T (f, off)}"
    by (auto simp: lru_get_def lru_good_def dest!: map_of_SomeD split: option.split)
  moreover have "lru_inv cap T (lru_exec cap (CGet f off) ls)" using lru_exec_inv [OF c(3,2), of "CGet f off"] by simp
  ultimately show "cache_coh T c' \<and> (r = None \<or> r = T (f, off))"
    using cache_Get_rep [OF c(1), of f off] c(2) g by (auto simp: cache_coh_def)
next
  fix T c f off d
  assume "cache_coh T c" and T: "T (f, off) = Some d"
  then obtain cap ls where c: "cache_rep cap c ls" "0 \<le> cap" "lru_inv cap T ls" by (auto simp: cache_coh_def)
  have "put_step (CPut f off d) T = T" using T by (simp add: fun_upd_idem)
  then have "lru_inv cap T (lru_exec cap (CPut f off d) ls)" using lru_exec_inv [OF c(3,2), of "CPut f off d"] by simp
  moreover have "cache_rep cap (cache_Put f off d c) (lru_exec cap (CPut f off d) ls)"
    using cache_exec_rep [OF c(1), of "CPut f off d"] by simp
  ultimately show "cache_coh T (cache_Put f off d c)" unfolding cache_coh_def using c(2) by blast
qed

lemma NewBlockCache_coh: "cache_coh T (NewBlockCache capacity)"
  using NewBlockCache_rep [of capacity] by (force simp: cache_coh_def lru_inv_def lru_good_def)

end
