(* ===== verification/Search.thy ===== *)
theory Search
  imports Prelude
begin

text \<open>
  \<^verbatim>\<open>sort.Search\<close> of the standard library, the binary search of the block index: the loop keeps
  \<open>i \<le> j\<close>, with the predicate false below \<open>i\<close> and true from \<open>j\<close> on.
\<close>

function search_loop :: "(nat \<Rightarrow> bool) \<Rightarrow> nat \<Rightarrow> nat \<Rightarrow> nat" where
  "search_loop f i j =
     (if i < j then let h = (i + j) div 2 in if f h then search_loop f i h else search_loop f (Suc h) j else i)"
  by pat_completeness auto
termination
  by (relation "measure (\<lambda>(f, i, j). j - i)") auto

declare search_loop.simps [simp del]

definition sort_Search :: "nat \<Rightarrow> (nat \<Rightarrow> bool) \<Rightarrow> nat" where
  "sort_Search n f = search_loop f 0 n"

text \<open>The reference: the least index below \<open>n\<close> that satisfies the predicate, by a linear scan.\<close>

definition linear_search :: "nat \<Rightarrow> (nat \<Rightarrow> bool) \<Rightarrow> nat" where
  "linear_search n f = length (takeWhile (\<lambda>i. \<not> f i) [0..<n])"

lemma search_loop_spec:
  assumes "i \<le> j" "\<And>k l. k \<le> l \<Longrightarrow> l < j \<Longrightarrow> f k \<Longrightarrow> f l"
  shows "i \<le> search_loop f i j \<and> search_loop f i j \<le> j \<and>
    (\<forall>k. i \<le> k \<and> k < search_loop f i j \<longrightarrow> \<not> f k) \<and> (\<forall>k. search_loop f i j \<le> k \<and> k < j \<longrightarrow> f k)"
  using assms
proof (induction f i j rule: search_loop.induct)
  case (1 f i j)
  show ?case
  proof (cases "i < j")
    case True
    define h where "h = (i + j) div 2"
    have h: "i \<le> h" "h < j" using True by (auto simp: h_def)
    show ?thesis
    proof (cases "f h")
      case True
      have eq: "search_loop f i j = search_loop f i h"
        using \<open>i < j\<close> True by (subst search_loop.simps) (simp add: h_def Let_def)
      have "i \<le> search_loop f i h \<and> search_loop f i h \<le> h \<and>
          (\<forall>k. i \<le> k \<and> k < search_loop f i h \<longrightarrow> \<not> f k) \<and> (\<forall>k. search_loop f i h \<le> k \<and> k < h \<longrightarrow> f k)"
        using "1.IH"(1) [OF \<open>i < j\<close> h_def True h(1)] "1.prems"(2) h(2) less_trans by blast
      moreover have "f k" if "h \<le> k" "k < j" for k using "1.prems"(2) [OF that True] .
      ultimately show ?thesis unfolding eq using h(2) by (meson le_less_linear less_or_eq_imp_le order_trans)
    next
      case False
      have eq: "search_loop f i j = search_loop f (Suc h) j"
        using \<open>i < j\<close> False by (subst search_loop.simps) (simp add: h_def Let_def)
      have "Suc h \<le> search_loop f (Suc h) j \<and> search_loop f (Suc h) j \<le> j \<and>
          (\<forall>k. Suc h \<le> k \<and> k < search_loop f (Suc h) j \<longrightarrow> \<not> f k) \<and> (\<forall>k. search_loop f (Suc h) j \<le> k \<and> k < j \<longrightarrow> f k)"
        using "1.IH"(2) [OF \<open>i < j\<close> h_def False] h(2) "1.prems"(2) by simp
      moreover have "\<not> f k" if "k \<le> h" for k using "1.prems"(2) [OF that h(2)] False by blast
      ultimately show ?thesis unfolding eq using h(1) by (meson Suc_leD not_less_eq_eq order_trans)
    qed
  next
    case False
    then show ?thesis using "1.prems"(1) by (subst (1 2 3 4) search_loop.simps) auto
  qed
qed

text \<open>On a predicate that stays true once it is true, both find the same index.\<close>

lemma sort_Search_least:
  assumes "\<And>k l. k \<le> l \<Longrightarrow> l < n \<Longrightarrow> f k \<Longrightarrow> f l"
  shows "sort_Search n f \<le> n" "\<And>k. k < sort_Search n f \<Longrightarrow> \<not> f k"
    "\<And>k. sort_Search n f \<le> k \<Longrightarrow> k < n \<Longrightarrow> f k"
  using search_loop_spec [of 0 n f] assms unfolding sort_Search_def by blast+

lemma linear_search_eq:
  assumes "m \<le> n" "\<And>k. k < m \<Longrightarrow> \<not> f k" "m < n \<Longrightarrow> f m"
  shows "linear_search n f = m"
proof -
  have "[0..<n] = [0..<m] @ [m..<n]" using assms(1) upt_add_eq_append [of 0 m "n - m"] by simp
  moreover have "takeWhile (\<lambda>i. \<not> f i) [m..<n] = []"
    using assms(1,3) by (cases "m < n") (simp_all add: upt_conv_Cons)
  moreover have "takeWhile (\<lambda>i. \<not> f i) ([0..<m] @ [m..<n]) = [0..<m] @ takeWhile (\<lambda>i. \<not> f i) [m..<n]"
    using assms(2) by (intro takeWhile_append2) auto
  ultimately show ?thesis by (simp only: linear_search_def) simp
qed

lemma sort_Search_linear:
  assumes "\<And>k l. k \<le> l \<Longrightarrow> l < n \<Longrightarrow> f k \<Longrightarrow> f l"
  shows "sort_Search n f = linear_search n f"
proof -
  have "sort_Search n f \<le> n" by (rule sort_Search_least(1)) (rule assms)
  moreover have "\<not> f k" if "k < sort_Search n f" for k
    using that by (rule sort_Search_least(2) [rotated]) (rule assms)
  moreover have "f (sort_Search n f)" if "sort_Search n f < n"
    using order_refl that by (rule sort_Search_least(3) [rotated]) (rule assms)
  ultimately show ?thesis using linear_search_eq by metis
qed

end
