(* ===== verification/SstReader.thy ===== *)
theory SstReader
  imports SstFormat Bloom BlockCache Search
begin

text \<open>
  The SSTable reader and iterator of \<^verbatim>\<open>internal/sstable/reader.go\<close> and \<^verbatim>\<open>iterator.go\<close>.  A reader holds
  the bytes of its (immutable) file.  The decompressor \<^verbatim>\<open>lz4.UncompressBlock\<close> is third-party: a
  parameter \<open>uncompress\<close> that takes the source and the size of the destination.  The block cache is
  shared by all readers, so it is passed through every operation; a reader without cache gets
  \<^term>\<open>None\<close>.  Allocating a slice of more than \<open>max_alloc\<close> bytes panics.
\<close>

datatype sst_error = ErrCorrupt | ErrReadAt | ErrUncompress | PanicMakeslice

record sst_reader =
  sr_file :: bytes
  sr_FileID :: u64
  sr_footer :: Footer
  sr_indexEntries :: "IndexEntry list"
  sr_bloom :: Filter

definition max_alloc :: nat where
  "max_alloc = 2 ^ 48"

text \<open>\<^verbatim>\<open>make([]byte, size)\<close> followed by \<^verbatim>\<open>file.ReadAt(buf, int64(offset))\<close>.\<close>

definition read_at :: "bytes \<Rightarrow> BlockHandle \<Rightarrow> sst_error + bytes" where
  "read_at f h =
     (let off = unat (bh_Offset h); n = unat (bh_Size h) in
      if max_alloc < n then Inl PanicMakeslice
      else if 2 ^ 63 \<le> off then Inl ErrReadAt
      else if n = 0 then Inr []
      else if off + n \<le> length f then Inr (gslice off (off + n) f) else Inl ErrReadAt)"

definition OpenReader :: "bytes \<Rightarrow> u64 \<Rightarrow> sst_error + sst_reader" where
  "OpenReader f fileID =
     (if length f < FooterSize then Inl ErrCorrupt
      else case DecodeFooter (drop (length f - FooterSize) f) of
        None \<Rightarrow> Inl ErrCorrupt
      | Some footer \<Rightarrow>
          (case read_at f (ft_IndexHandle footer) of
             Inl e \<Rightarrow> Inl e
           | Inr indexBuf \<Rightarrow>
               (case decode_index indexBuf of
                  None \<Rightarrow> Inl ErrCorrupt
                | Some indexEntries \<Rightarrow>
                    (case read_at f (ft_BloomHandle footer) of
                       Inl e \<Rightarrow> Inl e
                     | Inr bloomBuf \<Rightarrow>
                         Inr \<lparr>sr_file = f, sr_FileID = fileID, sr_footer = footer,
                              sr_indexEntries = indexEntries, sr_bloom = DecodeFilter bloomBuf\<rparr>))))"

text \<open>Reading a block from the file: the part of \<^verbatim>\<open>readBlock\<close> behind the cache.\<close>

definition fetch_block :: "(bytes \<Rightarrow> nat \<Rightarrow> bytes option) \<Rightarrow> sst_reader \<Rightarrow> BlockHandle \<Rightarrow> sst_error + bytes" where
  "fetch_block uncompress r handle =
     (case read_at (sr_file r) handle of
        Inl e \<Rightarrow> Inl e
      | Inr [] \<Rightarrow> Inl ErrCorrupt
      | Inr (b # data) \<Rightarrow>
          if b = 1 then (case uncompress data (8 * DefaultBlockSize) of
                           None \<Rightarrow> Inl ErrUncompress | Some blockData \<Rightarrow> Inr blockData)
          else Inr data)"

definition sst_readBlock ::
  "(bytes \<Rightarrow> nat \<Rightarrow> bytes option) \<Rightarrow> sst_reader \<Rightarrow> BlockHandle \<Rightarrow> BlockCache option \<Rightarrow>
     (sst_error + bytes) \<times> BlockCache option" where
  "sst_readBlock uncompress r handle cache =
     (case cache of
        None \<Rightarrow> (fetch_block uncompress r handle, None)
      | Some c \<Rightarrow>
          (case cache_Get (sr_FileID r) (bh_Offset handle) c of
             (Some data, c) \<Rightarrow> (Inr data, Some c)
           | (None, c) \<Rightarrow>
               (case fetch_block uncompress r handle of
                  Inl e \<Rightarrow> (Inl e, Some c)
                | Inr data \<Rightarrow> (Inr data, Some (cache_Put (sr_FileID r) (bh_Offset handle) data c)))))"

definition findBlockIndex :: "sst_reader \<Rightarrow> bytes \<Rightarrow> nat" where
  "findBlockIndex r key =
     sort_Search (length (sr_indexEntries r)) (\<lambda>i. 0 \<le> CompareKeys (ie_Key (sr_indexEntries r ! i)) key)"

text \<open>
  The scan of a block in \<^verbatim>\<open>Get\<close>.  The result is \<^term>\<open>None\<close> for a key that is not found, \<^term>\<open>Some None\<close> for
  a tombstone.
\<close>

function scan_block :: "bytes \<Rightarrow> bytes \<Rightarrow> sst_error + bytes option option" where
  "scan_block key blockData =
     (if blockData = [] then Inr None
      else case decode_kv blockData of
             None \<Rightarrow> Inl ErrCorrupt
           | Some ((currentKey, currentVal), rest) \<Rightarrow>
               let cmp = CompareKeys currentKey key in
               if cmp = 0 then Inr (Some currentVal)
               else if 0 < cmp then Inr None
               else scan_block key rest)"
  by pat_completeness auto
termination
  by (relation "measure (length \<circ> snd)") (auto dest!: decode_kv_length)

declare scan_block.simps [simp del]

definition sst_Get ::
  "(bytes \<Rightarrow> u64 \<times> u64) \<Rightarrow> (bytes \<Rightarrow> nat \<Rightarrow> bytes option) \<Rightarrow> bytes \<Rightarrow> sst_reader \<Rightarrow> BlockCache option \<Rightarrow>
     (sst_error + bytes option option) \<times> BlockCache option" where
  "sst_Get sum128 uncompress key r cache =
     (if \<not> MayContain sum128 key (sr_bloom r) then (Inr None, cache)
      else let idx = findBlockIndex r key in
        if length (sr_indexEntries r) \<le> idx then (Inr None, cache)
        else case sst_readBlock uncompress r (ie_Handle (sr_indexEntries r ! idx)) cache of
               (Inl e, cache) \<Rightarrow> (Inl e, cache)
             | (Inr blockData, cache) \<Rightarrow> (scan_block key blockData, cache))"

section \<open>Iterator\<close>

record sst_iter =
  it_reader :: sst_reader
  it_blockIdx :: nat
  it_offset :: nat
  it_err :: "sst_error option"
  it_blockData :: bytes
  it_currentKey :: bytes
  it_currentVal :: "bytes option"
  it_isTombstone :: bool
  it_valid :: bool

text \<open>\<^verbatim>\<open>parseCurrent\<close> at an offset inside the block.\<close>

definition parse_entry :: "sst_iter \<Rightarrow> sst_iter" where
  "parse_entry it =
     (let bd = it_blockData it; off = it_offset it in
      if length bd < off + 8 then it\<lparr>it_err := Some ErrCorrupt, it_valid := False\<rparr>
      else let keyLen = unat (get_le (gslice off (off + 4) bd) :: u32);
               valLenRaw = (get_le (gslice (off + 4) (off + 8) bd) :: u32);
               off = off + 8;
               isTombstone = (valLenRaw = 0xFFFFFFFF);
               valLen = (if isTombstone then 0 else unat valLenRaw);
               it = it\<lparr>it_offset := off, it_isTombstone := isTombstone\<rparr>
           in if length bd < off + keyLen + valLen then it\<lparr>it_err := Some ErrCorrupt, it_valid := False\<rparr>
              else it\<lparr>it_currentKey := gslice off (off + keyLen) bd,
                      it_currentVal := (if isTombstone then None
                                        else Some (gslice (off + keyLen) (off + keyLen + valLen) bd)),
                      it_offset := off + keyLen + valLen, it_valid := True\<rparr>)"

text \<open>
  \<^verbatim>\<open>loadBlock\<close> and \<^verbatim>\<open>parseCurrent\<close> call each other to skip empty blocks; here \<open>loadBlock\<close> contains the
  call of \<^verbatim>\<open>parseCurrent\<close> at offset zero.
\<close>

function loadBlock ::
  "(bytes \<Rightarrow> nat \<Rightarrow> bytes option) \<Rightarrow> sst_iter \<Rightarrow> BlockCache option \<Rightarrow> sst_iter \<times> BlockCache option" where
  "loadBlock uncompress it cache =
     (let it = it\<lparr>it_valid := False\<rparr> in
      if length (sr_indexEntries (it_reader it)) \<le> it_blockIdx it then (it, cache)
      else case sst_readBlock uncompress (it_reader it) (ie_Handle (sr_indexEntries (it_reader it) ! it_blockIdx it)) cache of
             (Inl e, cache) \<Rightarrow> (it\<lparr>it_err := Some e\<rparr>, cache)
           | (Inr data, cache) \<Rightarrow>
               let it = it\<lparr>it_blockData := data, it_offset := 0\<rparr> in
               if data = [] then loadBlock uncompress (it\<lparr>it_blockIdx := it_blockIdx it + 1\<rparr>) cache
               else (parse_entry it, cache))"
  by pat_completeness auto
termination
  by (relation "measure (\<lambda>(u, it, c). length (sr_indexEntries (it_reader it)) - it_blockIdx it)") auto

declare loadBlock.simps [simp del]

definition parseCurrent ::
  "(bytes \<Rightarrow> nat \<Rightarrow> bytes option) \<Rightarrow> sst_iter \<Rightarrow> BlockCache option \<Rightarrow> sst_iter \<times> BlockCache option" where
  "parseCurrent uncompress it cache =
     (if length (it_blockData it) \<le> it_offset it
      then loadBlock uncompress (it\<lparr>it_blockIdx := it_blockIdx it + 1\<rparr>) cache
      else (parse_entry it, cache))"

definition it_Valid :: "sst_iter \<Rightarrow> bool" where
  "it_Valid it \<longleftrightarrow> it_valid it \<and> it_err it = None"

definition it_Next ::
  "(bytes \<Rightarrow> nat \<Rightarrow> bytes option) \<Rightarrow> sst_iter \<Rightarrow> BlockCache option \<Rightarrow> sst_iter \<times> BlockCache option" where
  "it_Next uncompress it cache =
     (if \<not> it_valid it then (it, cache)
      else if length (it_blockData it) \<le> it_offset it
      then loadBlock uncompress (it\<lparr>it_blockIdx := it_blockIdx it + 1\<rparr>) cache
      else parseCurrent uncompress it cache)"

definition it_SeekToFirst ::
  "(bytes \<Rightarrow> nat \<Rightarrow> bytes option) \<Rightarrow> sst_iter \<Rightarrow> BlockCache option \<Rightarrow> sst_iter \<times> BlockCache option" where
  "it_SeekToFirst uncompress it cache = loadBlock uncompress (it\<lparr>it_blockIdx := 0\<rparr>) cache"

text \<open>The loop of \<^verbatim>\<open>Seek\<close>: not returning is \<^term>\<open>None\<close>.\<close>

partial_function (option) seek_loop ::
  "(bytes \<Rightarrow> nat \<Rightarrow> bytes option) \<Rightarrow> bytes \<Rightarrow> sst_iter \<Rightarrow> BlockCache option \<Rightarrow> (sst_iter \<times> BlockCache option) option" where
  "seek_loop uncompress target it cache =
     (if it_Valid it
      then if 0 \<le> CompareKeys (it_currentKey it) target then Some (it, cache)
           else case it_Next uncompress it cache of (it, cache) \<Rightarrow> seek_loop uncompress target it cache
      else Some (it, cache))"

definition it_Seek ::
  "(bytes \<Rightarrow> nat \<Rightarrow> bytes option) \<Rightarrow> bytes \<Rightarrow> sst_iter \<Rightarrow> BlockCache option \<Rightarrow> (sst_iter \<times> BlockCache option) option" where
  "it_Seek uncompress target it cache =
     (case loadBlock uncompress (it\<lparr>it_blockIdx := findBlockIndex (it_reader it) target\<rparr>) cache of
        (it, cache) \<Rightarrow> seek_loop uncompress target it cache)"

definition NewIterator ::
  "(bytes \<Rightarrow> nat \<Rightarrow> bytes option) \<Rightarrow> sst_reader \<Rightarrow> BlockCache option \<Rightarrow> sst_iter \<times> BlockCache option" where
  "NewIterator uncompress r cache =
     it_SeekToFirst uncompress
       \<lparr>it_reader = r, it_blockIdx = 0, it_offset = 0, it_err = None, it_blockData = [], it_currentKey = [],
        it_currentVal = None, it_isTombstone = False, it_valid = False\<rparr> cache"

section \<open>Seek returns on every file\<close>

lemma parse_entry_keeps [simp]:
  "it_reader (parse_entry it) = it_reader it" "it_blockIdx (parse_entry it) = it_blockIdx it"
  "it_blockData (parse_entry it) = it_blockData it"
  by (simp_all add: parse_entry_def Let_def)

lemma parse_entry_progress:
  "it_valid (parse_entry it) \<Longrightarrow>
     it_offset it < it_offset (parse_entry it) \<and> it_offset (parse_entry it) \<le> length (it_blockData it)"
  by (auto simp: parse_entry_def Let_def split: if_splits)

lemma loadBlock_progress:
  "loadBlock uncompress it cache = (it', cache') \<Longrightarrow> it_reader it' = it_reader it \<and>
     (it_valid it' \<longrightarrow> it_blockIdx it \<le> it_blockIdx it' \<and> it_blockIdx it' < length (sr_indexEntries (it_reader it)))"
proof (induction uncompress it cache arbitrary: it' cache' rule: loadBlock.induct)
  case (1 uncompress it cache)
  let ?it = "it\<lparr>it_valid := False\<rparr>"
  let ?h = "ie_Handle (sr_indexEntries (it_reader it) ! it_blockIdx it)"
  note eq = "1.prems" [unfolded loadBlock.simps [of uncompress it cache] Let_def]
  show ?case
  proof (cases "length (sr_indexEntries (it_reader it)) \<le> it_blockIdx it")
    case True
    then show ?thesis using eq by auto
  next
    case False
    obtain res c where rb: "sst_readBlock uncompress (it_reader it) ?h cache = (res, c)" by fastforce
    show ?thesis
    proof (cases res)
      case (Inl e)
      then show ?thesis using eq False rb by auto
    next
      case (Inr data)
      let ?it1 = "?it\<lparr>it_blockData := data, it_offset := 0\<rparr>"
      show ?thesis
      proof (cases "data = []")
        case True
        then have eq': "loadBlock uncompress (?it1\<lparr>it_blockIdx := it_blockIdx ?it1 + 1\<rparr>) c = (it', cache')"
          using eq False rb Inr by simp
        have "\<not> length (sr_indexEntries (it_reader ?it)) \<le> it_blockIdx ?it"
          "(res, c) = sst_readBlock uncompress (it_reader ?it) (ie_Handle (sr_indexEntries (it_reader ?it) ! it_blockIdx ?it)) cache"
          using False rb by simp_all
        from "1.IH" [OF refl this Inr refl True eq'] show ?thesis by auto
      next
        case False
        then show ?thesis using eq \<open>\<not> length _ \<le> _\<close> rb Inr by auto
      qed
    qed
  qed
qed

definition seek_measure :: "sst_iter \<Rightarrow> nat \<times> nat" where
  "seek_measure it = (length (sr_indexEntries (it_reader it)) - it_blockIdx it, length (it_blockData it) - it_offset it)"

lemma it_Next_progress:
  assumes "it_valid it" "it_Next uncompress it cache = (it', cache')" "it_valid it'"
  shows "(seek_measure it', seek_measure it) \<in> less_than <*lex*> less_than"
proof (cases "length (it_blockData it) \<le> it_offset it")
  case True
  then have "loadBlock uncompress (it\<lparr>it_blockIdx := it_blockIdx it + 1\<rparr>) cache = (it', cache')"
    using assms(1,2) by (simp add: it_Next_def)
  from loadBlock_progress [OF this] assms(3) show ?thesis by (auto simp: seek_measure_def)
next
  case False
  then have it': "it' = parse_entry it" using assms(1,2) by (simp add: it_Next_def parseCurrent_def)
  then show ?thesis using parse_entry_progress [of it] assms(3) False by (auto simp: seek_measure_def)
qed

lemma seek_loop_returns: "\<exists>res. seek_loop uncompress target it cache = Some res"
proof (induction it arbitrary: cache rule: wf_induct [of "inv_image (less_than <*lex*> less_than) seek_measure"])
  case 1
  then show ?case by (intro wf_inv_image wf_lex_prod wf_less_than)
next
  case (2 it)
  show ?case
  proof (cases "it_Valid it \<and> \<not> 0 \<le> CompareKeys (it_currentKey it) target")
    case True
    obtain it' c where n: "it_Next uncompress it cache = (it', c)" by fastforce
    have eq: "seek_loop uncompress target it cache = seek_loop uncompress target it' c"
      using True n by (subst seek_loop.simps) simp
    show ?thesis
    proof (cases "it_valid it'")
      case True
      then have "(it', it) \<in> inv_image (less_than <*lex*> less_than) seek_measure"
        using it_Next_progress [OF _ n True] \<open>it_Valid it \<and> _\<close> by (simp add: it_Valid_def)
      with 2 eq show ?thesis by simp
    next
      case False
      then show ?thesis unfolding eq by (subst seek_loop.simps) (simp add: it_Valid_def)
    qed
  next
    case False
    then show ?thesis by (subst seek_loop.simps) auto
  qed
qed

text \<open>
  C39. Seek always returns: on any reader, whatever its index and its blocks hold, corrupt or not, and
  with any cache, the loop of \<^verbatim>\<open>Seek\<close> ends.  Each step moves the offset forward in the block or moves
  on to a later block.
\<close>

theorem it_Seek_terminates:
  "\<exists>it' cache'. it_Seek uncompress target it cache = Some (it', cache')"
  using seek_loop_returns by (simp add: it_Seek_def split_beta)

end
