(* ===== verification/SstCorrect.thy ===== *)
theory SstCorrect
  imports SstWriter SstReader
begin

text \<open>
  Tables written by the writer and read back by the reader and the iterator.  A table is a list of
  blocks, a block a list of entries.  The two halves meet in \<open>reader_rep\<close>: a reader whose index names
  the last key of every block and whose handles fetch the encoded blocks.
\<close>

section \<open>Documented behaviour of lz4\<close>

text \<open>
  Compression into a buffer of the documented bound does not fail, and decompressing a compressed
  block into a buffer that can hold the original gives back the original.
\<close>

definition lz4_ok :: "(bytes \<Rightarrow> bytes option) \<Rightarrow> (bytes \<Rightarrow> nat \<Rightarrow> bytes option) \<Rightarrow> bool" where
  "lz4_ok compress uncompress \<longleftrightarrow> (\<forall>u. compress u \<noteq> None) \<and>
     (\<forall>u c n. compress u = Some c \<longrightarrow> c \<noteq> [] \<longrightarrow> length u \<le> n \<longrightarrow> uncompress c n = Some u)"

section \<open>What the writer leaves on disk\<close>

definition disk_block :: "(bytes \<Rightarrow> bytes option) \<Rightarrow> entry list \<Rightarrow> bytes" where
  "disk_block compress b =
     (let u = encode_block b in
      case compress u of None \<Rightarrow> 0 # u | Some c \<Rightarrow> if c \<noteq> [] \<and> length c < length u then 1 # c else 0 # u)"

fun index_of :: "(bytes \<Rightarrow> bytes option) \<Rightarrow> nat \<Rightarrow> entry list list \<Rightarrow> IndexEntry list" where
  "index_of compress off [] = []"
| "index_of compress off (b # bs) =
     \<lparr>ie_Key = fst (last b), ie_Handle = \<lparr>bh_Offset = of_nat off, bh_Size = of_nat (length (disk_block compress b))\<rparr>\<rparr> #
     index_of compress (off + length (disk_block compress b)) bs"

definition data_section :: "(bytes \<Rightarrow> bytes option) \<Rightarrow> entry list list \<Rightarrow> bytes" where
  "data_section compress bs = concat (map (disk_block compress) bs)"

lemma data_section_simps [simp]:
  "data_section compress [] = []" "data_section compress (b # bs) = disk_block compress b @ data_section compress bs"
  "data_section compress (bs @ cs) = data_section compress bs @ data_section compress cs"
  by (simp_all add: data_section_def)

lemma index_of_append:
  "index_of compress off (bs @ cs) =
     index_of compress off bs @ index_of compress (off + length (data_section compress bs)) cs"
  by (induction bs arbitrary: off) (simp_all add: add.assoc)

lemma length_index_of [simp]: "length (index_of compress off bs) = length bs"
  by (induction bs arbitrary: off) simp_all

lemma index_of_nth:
  "i < length bs \<Longrightarrow> index_of compress off bs ! i =
     \<lparr>ie_Key = fst (last (bs ! i)),
      ie_Handle = \<lparr>bh_Offset = of_nat (off + length (data_section compress (take i bs))),
                   bh_Size = of_nat (length (disk_block compress (bs ! i)))\<rparr>\<rparr>"
proof (induction bs arbitrary: off i)
  case (Cons b bs)
  then show ?case by (cases i) (simp_all add: add.assoc)
qed simp

definition writer_rep ::
  "(bytes \<Rightarrow> u64 \<times> u64) \<Rightarrow> (bytes \<Rightarrow> bytes option) \<Rightarrow> int \<Rightarrow> sst_writer \<Rightarrow> entry list list \<Rightarrow> entry list \<Rightarrow> bool" where
  "writer_rep sum128 compress bpk w bs cur \<longleftrightarrow>
     sw_file w = good_file (data_section compress bs) \<and> sw_blockBuf w = encode_block cur \<and>
     sw_indexEntries w = index_of compress 0 bs \<and>
     sw_bloom w = fold (bloom_Add sum128) (map fst (concat bs @ cur)) (NewFilter 10000 bpk) \<and>
     sw_offset w = of_nat (length (data_section compress bs)) \<and>
     sw_entryCount w = of_nat (length (concat bs @ cur)) \<and>
     [] \<notin> set bs \<and> (cur \<noteq> [] \<longrightarrow> sw_lastKey w = fst (last cur))"

lemma NewWriter_rep: "writer_rep sum128 compress bpk (sst_NewWriter (good_file []) blockSize bpk) [] []"
  by (simp add: writer_rep_def sst_NewWriter_def)

lemma flushDataBlock_rep:
  assumes "writer_rep sum128 compress bpk w bs cur" "\<And>u. compress u \<noteq> None"
  shows "\<exists>w' bs'. flushDataBlock compress w = (True, w') \<and> writer_rep sum128 compress bpk w' bs' [] \<and>
    concat bs' = concat bs @ cur \<and> (bs' = bs \<or> bs' = bs @ [cur]) \<and> sw_blockSize w' = sw_blockSize w"
proof (cases "cur = []")
  case True
  with assms(1) have "flushDataBlock compress w = (True, w)" by (simp add: flushDataBlock_def writer_rep_def)
  with assms(1) True show ?thesis by (intro exI [of _ w] exI [of _ bs]) simp
next
  case False
  obtain c where c: "compress (encode_block cur) = Some c" using assms(2) by blast
  let ?bs = "bs @ [cur]"
  have d: "disk_block compress cur =
    (if c \<noteq> [] \<and> length c < length (encode_block cur) then 1 # c else 0 # encode_block cur)"
    using c by (simp add: disk_block_def Let_def)
  define w' where "w' = snd (flushDataBlock compress w)"
  have fl: "flushDataBlock compress w = (True, w')" and sel:
    "sw_file w' = good_file (data_section compress ?bs)" "sw_blockBuf w' = []"
    "sw_indexEntries w' = index_of compress 0 ?bs" "sw_bloom w' = sw_bloom w"
    "sw_offset w' = of_nat (length (data_section compress ?bs))" "sw_entryCount w' = sw_entryCount w"
    "sw_blockSize w' = sw_blockSize w"
    using assms(1) False c d unfolding w'_def
    by (auto simp: flushDataBlock_def writer_rep_def Let_def good_file_def index_of_append)
  then have "writer_rep sum128 compress bpk w' ?bs []"
    using assms(1) False by (simp add: writer_rep_def)
  with fl sel(7) show ?thesis by (intro exI [of _ w'] exI [of _ ?bs]) simp
qed

lemma sst_Add_rep:
  assumes "writer_rep sum128 compress bpk w bs cur" "\<And>u. compress u \<noteq> None"
  shows "\<exists>w' bs' cur'. sst_Add sum128 compress k v w = (True, w') \<and> writer_rep sum128 compress bpk w' bs' cur' \<and>
    (bs' = bs \<and> cur' = cur @ [(k, v)] \<and> int (length (encode_block cur')) < sw_blockSize w \<or>
     bs' = bs @ [cur @ [(k, v)]] \<and> cur' = []) \<and> sw_blockSize w' = sw_blockSize w"
proof -
  define w1 where "w1 = w\<lparr>sw_bloom := bloom_Add sum128 k (sw_bloom w), sw_blockBuf := sw_blockBuf w @ encode_kv (k, v),
    sw_entryCount := sw_entryCount w + 1, sw_lastKey := k\<rparr>"
  have rep: "writer_rep sum128 compress bpk w1 bs (cur @ [(k, v)])" "sw_blockSize w1 = sw_blockSize w"
    using assms(1) by (simp_all add: w1_def writer_rep_def)
  have add: "sst_Add sum128 compress k v w =
    (if sw_blockSize w1 \<le> int (length (sw_blockBuf w1)) then flushDataBlock compress w1 else (True, w1))"
    by (simp add: sst_Add_def w1_def Let_def)
  show ?thesis
  proof (cases "sw_blockSize w1 \<le> int (length (sw_blockBuf w1))")
    case True
    obtain w' bs' where w': "flushDataBlock compress w1 = (True, w')" "writer_rep sum128 compress bpk w' bs' []"
      "concat bs' = concat bs @ cur @ [(k, v)]" "bs' = bs \<or> bs' = bs @ [cur @ [(k, v)]]" "sw_blockSize w' = sw_blockSize w1"
      using flushDataBlock_rep [OF rep(1) assms(2)] by blast
    moreover have "bs' \<noteq> bs" using w'(3) by auto
    ultimately show ?thesis using add True rep(2) by auto
  next
    case False
    moreover have "sw_blockBuf w1 = encode_block (cur @ [(k, v)])" using rep(1) by (simp add: writer_rep_def)
    ultimately show ?thesis using add rep by (intro exI [of _ w1] exI [of _ bs] exI [of _ "cur @ [(k, v)]"]) simp
  qed
qed

text \<open>The loop of a client that adds entries and stops at the first error.\<close>

fun add_all ::
  "(bytes \<Rightarrow> u64 \<times> u64) \<Rightarrow> (bytes \<Rightarrow> bytes option) \<Rightarrow> entry list \<Rightarrow> sst_writer \<Rightarrow> bool \<times> sst_writer" where
  "add_all sum128 compress [] w = (True, w)"
| "add_all sum128 compress ((k, v) # es) w =
     (case sst_Add sum128 compress k v w of (False, w) \<Rightarrow> (False, w) | (True, w) \<Rightarrow> add_all sum128 compress es w)"

text \<open>An entry that, added to an almost full block, leaves a block the reader's buffer can hold.\<close>

definition entry_small :: "int \<Rightarrow> entry \<Rightarrow> bool" where
  "entry_small blockSize e \<longleftrightarrow> blockSize + int (length (encode_kv e)) \<le> int (8 * DefaultBlockSize)"

definition block_small :: "entry list \<Rightarrow> bool" where
  "block_small b \<longleftrightarrow> length (encode_block b) \<le> 8 * DefaultBlockSize"

lemma add_all_rep:
  assumes "writer_rep sum128 compress bpk w bs cur" "\<And>u. compress u \<noteq> None" "0 < sw_blockSize w"
    "\<forall>b \<in> set bs. block_small b" "int (length (encode_block cur)) < sw_blockSize w"
    "\<forall>e \<in> set es. entry_small (sw_blockSize w) e"
  shows "\<exists>w' bs' cur'. add_all sum128 compress es w = (True, w') \<and> writer_rep sum128 compress bpk w' bs' cur' \<and>
    concat bs' @ cur' = concat bs @ cur @ es \<and> (\<forall>b \<in> set bs'. block_small b) \<and>
    int (length (encode_block cur')) < sw_blockSize w \<and> sw_blockSize w' = sw_blockSize w"
  using assms
proof (induction es arbitrary: w bs cur)
  case Nil
  then show ?case by auto
next
  case (Cons e es)
  obtain k v where e: "e = (k, v)" by (cases e)
  obtain w1 bs1 cur1 where w1: "sst_Add sum128 compress k v w = (True, w1)" "writer_rep sum128 compress bpk w1 bs1 cur1"
    "bs1 = bs \<and> cur1 = cur @ [(k, v)] \<and> int (length (encode_block cur1)) < sw_blockSize w \<or>
     bs1 = bs @ [cur @ [(k, v)]] \<and> cur1 = []" "sw_blockSize w1 = sw_blockSize w"
    using sst_Add_rep [OF Cons.prems(1,2)] by blast
  have small: "block_small (cur @ [(k, v)])"
    using Cons.prems(5,6) e by (auto simp: block_small_def entry_small_def)
  have "\<forall>b \<in> set bs1. block_small b" "int (length (encode_block cur1)) < sw_blockSize w"
    "concat bs1 @ cur1 @ es = concat bs @ cur @ (k, v) # es"
    using w1(3) small Cons.prems(3,4) by auto
  with Cons.IH [OF w1(2) Cons.prems(2)] Cons.prems(3,6) w1(1,4) e show ?case by simp
qed

definition table_footer :: "nat \<Rightarrow> nat \<Rightarrow> nat \<Rightarrow> nat \<Rightarrow> Footer" where
  "table_footer d i b n =
     \<lparr>ft_IndexHandle = \<lparr>bh_Offset = of_nat d, bh_Size = of_nat i\<rparr>,
      ft_BloomHandle = \<lparr>bh_Offset = of_nat (d + i), bh_Size = of_nat b\<rparr>,
      ft_NumEntries = of_nat n, ft_Magic = MagicNumber\<rparr>"

definition table_filter :: "(bytes \<Rightarrow> u64 \<times> u64) \<Rightarrow> int \<Rightarrow> entry list list \<Rightarrow> Filter" where
  "table_filter sum128 bpk bs = fold (bloom_Add sum128) (map fst (concat bs)) (NewFilter 10000 bpk)"

definition table_file ::
  "(bytes \<Rightarrow> u64 \<times> u64) \<Rightarrow> (bytes \<Rightarrow> bytes option) \<Rightarrow> int \<Rightarrow> entry list list \<Rightarrow> bytes" where
  "table_file sum128 compress bpk bs =
     (let D = data_section compress bs; I = concat (map encode_index (index_of compress 0 bs));
          B = bloom_Encode (table_filter sum128 bpk bs)
      in D @ I @ B @ ft_Encode (table_footer (length D) (length I) (length B) (length (concat bs))))"

lemma sst_Close_rep:
  assumes "writer_rep sum128 compress bpk w bs cur" "\<And>u. compress u \<noteq> None"
  shows "\<exists>w' bs'. sst_Close compress w = (True, w') \<and> concat bs' = concat bs @ cur \<and> (bs' = bs \<or> bs' = bs @ [cur]) \<and>
    [] \<notin> set bs' \<and> sw_file w' = good_file (table_file sum128 compress bpk bs') \<and>
    sst_Size w' = of_nat (length (table_file sum128 compress bpk bs'))"
proof -
  obtain w1 bs' where w1: "flushDataBlock compress w = (True, w1)" "writer_rep sum128 compress bpk w1 bs' []"
    "concat bs' = concat bs @ cur" "bs' = bs \<or> bs' = bs @ [cur]"
    using flushDataBlock_rep [OF assms] by blast
  define w' where "w' = snd (sst_Close compress w)"
  have "sst_Close compress w = (True, w')" "sw_file w' = good_file (table_file sum128 compress bpk bs')"
    "sst_Size w' = of_nat (length (table_file sum128 compress bpk bs'))"
    using w1(1,2) unfolding w'_def
    by (simp_all add: sst_Close_def writer_rep_def Let_def table_file_def good_file_def table_filter_def table_footer_def
        sst_Size_def FooterSize_def)
  moreover have "[] \<notin> set bs'" using w1(2) by (simp add: writer_rep_def)
  ultimately show ?thesis using w1(3,4) by blast
qed

section \<open>Reading a written table\<close>

definition reader_rep ::
  "(bytes \<Rightarrow> u64 \<times> u64) \<Rightarrow> (bytes \<Rightarrow> nat \<Rightarrow> bytes option) \<Rightarrow> sst_reader \<Rightarrow> entry list list \<Rightarrow> bool" where
  "reader_rep sum128 uncompress r bs \<longleftrightarrow>
     length (sr_indexEntries r) = length bs \<and>
     (\<forall>i < length bs. ie_Key (sr_indexEntries r ! i) = fst (last (bs ! i)) \<and>
        fetch_block uncompress r (ie_Handle (sr_indexEntries r ! i)) = Inr (encode_block (bs ! i))) \<and>
     distinct (map (bh_Offset \<circ> ie_Handle) (sr_indexEntries r)) \<and>
     [] \<notin> set bs \<and> (\<forall>e \<in> set (concat bs). kv_fits e \<and> MayContain sum128 (fst e) (sr_bloom r)) \<and>
     asc_by CompareKeys (concat bs)"

lemma length_data_section_mono: "length (data_section compress (take i bs)) \<le> length (data_section compress bs)"
  by (metis append_take_drop_id data_section_simps(3) le_add1 length_append)

lemma disk_block_pos: "0 < length (disk_block compress b)"
  by (simp add: disk_block_def Let_def split: option.split)

lemma data_section_take_Suc:
  "i < length bs \<Longrightarrow>
     data_section compress (take (Suc i) bs) = data_section compress (take i bs) @ disk_block compress (bs ! i)"
  by (simp add: take_Suc_conv_app_nth)

lemma data_section_split:
  "i < length bs \<Longrightarrow> data_section compress bs =
     data_section compress (take i bs) @ disk_block compress (bs ! i) @ data_section compress (drop (Suc i) bs)"
  by (metis data_section_simps(2,3) id_take_nth_drop)

lemma data_section_offset_less:
  "i < j \<Longrightarrow> j < length bs \<Longrightarrow>
     length (data_section compress (take i bs)) < length (data_section compress (take j bs))"
proof -
  assume ij: "i < j" "j < length bs"
  have "length (data_section compress (take i bs)) < length (data_section compress (take (Suc i) bs))"
    using ij disk_block_pos [of compress "bs ! i"] by (simp add: data_section_take_Suc)
  also have "\<dots> \<le> length (data_section compress (take j bs))"
    using length_data_section_mono [of compress "Suc i" "take j bs"] ij by (simp add: min_def)
  finally show ?thesis .
qed

lemma read_at_handle:
  assumes "length f < max_alloc" "off + n \<le> length f"
  shows "read_at f \<lparr>bh_Offset = of_nat off, bh_Size = of_nat n\<rparr> = Inr (gslice off (off + n) f)"
proof -
  have "off < 2 ^ 63" "n \<le> max_alloc" "off < 2 ^ 64" "n < 2 ^ 64" using assms by (simp_all add: max_alloc_def)
  then show ?thesis using assms by (simp add: read_at_def gslice_def)
qed

lemma fetch_disk_block:
  assumes "lz4_ok compress uncompress" "block_small b"
    "read_at (sr_file r) h = Inr (disk_block compress b)"
  shows "fetch_block uncompress r h = Inr (encode_block b)"
proof -
  obtain c where c: "compress (encode_block b) = Some c" using assms(1) unfolding lz4_ok_def by blast
  have "c \<noteq> [] \<Longrightarrow> uncompress c (8 * DefaultBlockSize) = Some (encode_block b)"
    using assms(1,2) c by (auto simp: lz4_ok_def block_small_def)
  then show ?thesis using assms(3) c by (auto simp: fetch_block_def disk_block_def Let_def)
qed

lemma table_filter_ok:
  assumes "bloom_request 10000 bpk \<le> - 8"
  shows "bf_ok (table_filter sum128 bpk bs)" "\<And>e. e \<in> set (concat bs) \<Longrightarrow> MayContain sum128 (fst e) (table_filter sum128 bpk bs)"
  using bloom_Add_all [OF NewFilter_ok [OF assms], of sum128 "map fst (concat bs)"]
  by (auto simp: table_filter_def)

lemma OpenReader_table:
  assumes "bloom_request 10000 bpk \<le> - 8" "length (table_file sum128 compress bpk bs) < max_alloc"
    "\<forall>b \<in> set bs. length (fst (last b)) < 2 ^ 32"
  shows "\<exists>r. OpenReader (table_file sum128 compress bpk bs) fid = Inr r \<and>
    sr_file r = table_file sum128 compress bpk bs \<and> sr_FileID r = fid \<and>
    sr_indexEntries r = index_of compress 0 bs \<and> sr_bloom r = table_filter sum128 bpk bs"
proof -
  let ?D = "data_section compress bs" let ?I = "concat (map encode_index (index_of compress 0 bs))"
  let ?B = "bloom_Encode (table_filter sum128 bpk bs)" let ?F = "table_file sum128 compress bpk bs"
  let ?ft = "table_footer (length ?D) (length ?I) (length ?B) (length (concat bs))"
  have F: "?F = ?D @ ?I @ ?B @ ft_Encode ?ft" by (simp add: table_file_def Let_def)
  have len: "length ?F = length ?D + length ?I + length ?B + FooterSize" unfolding F by simp
  have "drop (length ?F - FooterSize) ?F = ft_Encode ?ft" unfolding len by (simp add: F)
  then have ft: "DecodeFooter (drop (length ?F - FooterSize) ?F) = Some ?ft"
    using DecodeFooter_Encode [of ?ft] by (simp add: table_footer_def)
  have "gslice (length ?D) (length ?D + length ?I) ?F = ?I" unfolding F by (rule gslice_mid) simp_all
  then have i: "read_at ?F (ft_IndexHandle ?ft) = Inr ?I"
    using read_at_handle [OF assms(2), of "length ?D" "length ?I"] len by (simp add: table_footer_def)
  have "gslice (length ?D + length ?I) (length ?D + length ?I + length ?B) ?F = ?B"
    using gslice_mid [of "length ?D + length ?I" "?D @ ?I" _ ?B "ft_Encode ?ft"] unfolding F by simp
  then have b: "read_at ?F (ft_BloomHandle ?ft) = Inr ?B"
    using read_at_handle [OF assms(2), of "length ?D + length ?I" "length ?B"] len by (simp add: table_footer_def)
  have "length (ie_Key ie) < 2 ^ 32" if "ie \<in> set (index_of compress 0 bs)" for ie
    using that bspec [OF assms(3) nth_mem] by (auto simp: in_set_conv_nth index_of_nth)
  then have d: "decode_index ?I = Some (index_of compress 0 bs)" by (intro decode_index_encode) blast
  have "DecodeFilter ?B = table_filter sum128 bpk bs" by (intro DecodeFilter_Encode table_filter_ok(1) assms(1))
  with ft i b d show ?thesis using len by (simp add: OpenReader_def)
qed

lemma OpenReader_rep:
  assumes "lz4_ok compress uncompress" "bloom_request 10000 bpk \<le> - 8"
    "length (table_file sum128 compress bpk bs) < max_alloc" "[] \<notin> set bs" "\<forall>b \<in> set bs. block_small b"
    "\<forall>e \<in> set (concat bs). kv_fits e" "asc_by CompareKeys (concat bs)"
  shows "\<exists>r. OpenReader (table_file sum128 compress bpk bs) fid = Inr r \<and> sr_FileID r = fid \<and>
    reader_rep sum128 uncompress r bs"
proof -
  let ?F = "table_file sum128 compress bpk bs" let ?D = "data_section compress bs"
  have "\<forall>b \<in> set bs. length (fst (last b)) < 2 ^ 32"
  proof
    fix b assume b: "b \<in> set bs"
    with assms(4) have "last b \<in> set b" by (metis last_in_set)
    with b assms(6) show "length (fst (last b)) < 2 ^ 32" by (auto simp: kv_fits_def)
  qed
  from OpenReader_table [OF assms(2,3) this, of fid] obtain r where
    r: "OpenReader ?F fid = Inr r" "sr_file r = ?F" "sr_FileID r = fid" "sr_indexEntries r = index_of compress 0 bs"
      "sr_bloom r = table_filter sum128 bpk bs" by blast
  have lenD: "length ?D \<le> length ?F" by (simp add: table_file_def Let_def)
  have fetch: "fetch_block uncompress r (ie_Handle (index_of compress 0 bs ! i)) = Inr (encode_block (bs ! i))"
    if i: "i < length bs" for i
  proof (rule fetch_disk_block [OF assms(1)])
    let ?off = "length (data_section compress (take i bs))" let ?n = "length (disk_block compress (bs ! i))"
    have split: "\<exists>R. ?F = data_section compress (take i bs) @ disk_block compress (bs ! i) @ R"
      unfolding table_file_def Let_def data_section_split [OF i, of compress] by simp
    then have "gslice ?off (?off + ?n) ?F = disk_block compress (bs ! i)" by (auto simp: gslice_mid)
    moreover have "?off + ?n \<le> length ?F" using split by auto
    ultimately show "read_at (sr_file r) (ie_Handle (index_of compress 0 bs ! i)) = Inr (disk_block compress (bs ! i))"
      using read_at_handle [OF assms(3), of ?off ?n] i r(2) by (simp add: index_of_nth)
  qed (use assms(5) i in simp)
  have "distinct (map (bh_Offset \<circ> ie_Handle) (index_of compress 0 bs))"
  proof (rule distinct_conv_nth [THEN iffD2], intro allI impI)
    fix i j assume ij: "i < length (map (bh_Offset \<circ> ie_Handle) (index_of compress 0 bs))"
      "j < length (map (bh_Offset \<circ> ie_Handle) (index_of compress 0 bs))" "i \<noteq> j"
    let ?o = "\<lambda>i. length (data_section compress (take i bs))"
    have "?o i \<noteq> ?o j" using ij data_section_offset_less [of i j bs compress] data_section_offset_less [of j i bs compress] by force
    moreover have "?o k < 2 ^ 64" for k
      using length_data_section_mono [of compress k bs] lenD assms(3) by (simp add: max_alloc_def)
    ultimately have "(of_nat (?o i) :: u64) \<noteq> of_nat (?o j)" by (metis unat_of_nat_u64)
    with ij show "map (bh_Offset \<circ> ie_Handle) (index_of compress 0 bs) ! i \<noteq> map (bh_Offset \<circ> ie_Handle) (index_of compress 0 bs) ! j"
      by (simp add: index_of_nth)
  qed
  then have "reader_rep sum128 uncompress r bs"
    unfolding reader_rep_def r(4,5) using fetch assms(4,6,7) table_filter_ok(2) [OF assms(2)] by (auto simp: index_of_nth)
  with r(1,3) show ?thesis by blast
qed

section \<open>Lookups\<close>

lemma scan_block_encode:
  "\<forall>e \<in> set b. kv_fits e \<Longrightarrow> asc_by CompareKeys b \<Longrightarrow> scan_block key (encode_block b) = Inr (map_of b key)"
proof (induction b)
  case Nil
  then show ?case by (simp add: scan_block.simps)
next
  case (Cons e b)
  obtain k v where e: "e = (k, v)" by (cases e)
  have d: "decode_kv (encode_block (e # b)) = Some ((k, v), encode_block b)"
    using Cons.prems(1) e decode_kv_encode [of e "encode_block b"] by simp
  have gt: "map_of b key = None" if "0 < CompareKeys k key"
  proof (rule ck.map_of_asc_lt)
    show "asc_by CompareKeys b" using Cons.prems(2) by (simp add: ck.asc_by_Cons)
    show "\<forall>p \<in> set b. CompareKeys key (fst p) < 0"
      using Cons.prems(2) e that by (auto simp: ck.asc_by_Cons ck_ord)
  qed
  have "scan_block key (encode_block (e # b)) =
      (if CompareKeys k key = 0 then Inr (Some v) else if 0 < CompareKeys k key then Inr None else scan_block key (encode_block b))"
    using d by (subst scan_block.simps) (simp add: Let_def)
  with Cons gt e show ?case by (auto simp: ck_ord ck.asc_by_Cons)
qed

text \<open>Everything the cache holds of this reader's file is a block of the table.\<close>

definition knows :: "(u64 \<times> u64 \<Rightarrow> bytes option) \<Rightarrow> sst_reader \<Rightarrow> entry list list \<Rightarrow> bool" where
  "knows T r bs \<longleftrightarrow> (\<forall>i < length bs. T (sr_FileID r, bh_Offset (ie_Handle (sr_indexEntries r ! i))) = Some (encode_block (bs ! i)))"

definition cache_fits :: "(u64 \<times> u64 \<Rightarrow> bytes option) \<Rightarrow> BlockCache option \<Rightarrow> bool" where
  "cache_fits T cache \<longleftrightarrow> (case cache of None \<Rightarrow> True | Some c \<Rightarrow> cache_coh T c)"

lemma sst_readBlock_rep:
  assumes "reader_rep sum128 uncompress r bs" "i < length bs" "knows T r bs" "cache_fits T cache"
  shows "\<exists>cache'. sst_readBlock uncompress r (ie_Handle (sr_indexEntries r ! i)) cache =
      (Inr (encode_block (bs ! i)), cache') \<and> cache_fits T cache'"
proof (cases cache)
  case None
  then show ?thesis using assms by (simp add: sst_readBlock_def reader_rep_def cache_fits_def)
next
  case (Some c)
  let ?h = "ie_Handle (sr_indexEntries r ! i)" let ?f = "sr_FileID r"
  have T: "T (?f, bh_Offset ?h) = Some (encode_block (bs ! i))" using assms(2,3) by (simp add: knows_def)
  have fetch: "fetch_block uncompress r ?h = Inr (encode_block (bs ! i))" using assms(1,2) by (simp add: reader_rep_def)
  obtain res c' where g: "cache_Get ?f (bh_Offset ?h) c = (res, c')" by fastforce
  have coh: "cache_coh T c' \<and> (res = None \<or> res = T (?f, bh_Offset ?h))"
    using lru_cache.get_coh [OF _ g] assms(4) Some by (simp add: cache_fits_def)
  moreover have "cache_coh T (cache_Put ?f (bh_Offset ?h) (encode_block (bs ! i)) c')"
    using lru_cache.put_coh [of T c'] coh T by simp
  ultimately show ?thesis
    using Some g fetch T by (auto simp: sst_readBlock_def cache_fits_def)
qed

lemma blocks_ordered:
  assumes "asc_by CompareKeys (concat bs)" "i < j" "j < length bs" "p \<in> set (bs ! i)" "q \<in> set (bs ! j)"
  shows "kord (fst p) < kord (fst q)"
  using assms
proof (induction bs arbitrary: i j)
  case (Cons b bs)
  obtain j' where j: "j = Suc j'" using Cons.prems(2) by (cases j) auto
  show ?case
  proof (cases i)
    case 0
    have "q \<in> set (concat bs)" using Cons.prems(3,5) j by auto
    with Cons.prems(1,4) 0 show ?thesis by (auto simp: ck.asc_by_append ck_ord)
  next
    case (Suc i')
    with Cons.IH [of i' j'] Cons.prems j show ?thesis by (simp add: ck.asc_by_append)
  qed
qed simp

lemma concat_nth_split:
  assumes "i < length bs"
  shows "concat bs = concat (take i bs) @ bs ! i @ concat (drop (Suc i) bs)"
proof -
  have "bs = take i bs @ bs ! i # drop (Suc i) bs" by (rule id_take_nth_drop [OF assms])
  from arg_cong [OF this, of concat] show ?thesis by simp
qed

lemma blocks_last:
  assumes "asc_by CompareKeys (concat bs)" "i < length bs" "p \<in> set (bs ! i)"
  shows "kord (fst p) \<le> kord (fst (last (bs ! i)))"
proof -
  have "asc_by CompareKeys (bs ! i)"
    using assms(1) unfolding concat_nth_split [OF assms(2)] by (simp add: ck.asc_by_append)
  moreover have "bs ! i = butlast (bs ! i) @ [last (bs ! i)]" using assms(3) by (metis append_butlast_last_id empty_iff empty_set)
  ultimately have "asc_by CompareKeys (butlast (bs ! i) @ [last (bs ! i)])" by simp
  moreover have "p \<in> set (butlast (bs ! i)) \<or> p = last (bs ! i)"
    using assms(3) \<open>bs ! i = _\<close> by (metis Un_iff empty_iff insert_iff list.set(1) list.simps(15) set_append)
  ultimately show ?thesis by (auto simp: ck.asc_by_append ck_ord less_imp_le)
qed

lemma findBlockIndex_spec:
  assumes "reader_rep sum128 uncompress r bs"
  shows "findBlockIndex r key \<le> length bs"
    "\<And>j p. j < findBlockIndex r key \<Longrightarrow> p \<in> set (bs ! j) \<Longrightarrow> kord (fst p) < kord key"
    "\<And>j. findBlockIndex r key \<le> j \<Longrightarrow> j < length bs \<Longrightarrow> kord key \<le> kord (fst (last (bs ! j)))"
proof -
  let ?f = "\<lambda>i. 0 \<le> CompareKeys (ie_Key (sr_indexEntries r ! i)) key"
  note r = assms [unfolded reader_rep_def]
  have len: "length (sr_indexEntries r) = length bs" using r by blast
  have f: "?f i \<longleftrightarrow> kord key \<le> kord (fst (last (bs ! i)))" if "i < length bs" for i
    using r that by (simp add: ck_ord)
  have ne: "last (bs ! i) \<in> set (bs ! i)" if "i < length bs" for i
    using r that by (metis last_in_set nth_mem)
  have asc: "asc_by CompareKeys (concat bs)" using r by blast
  have mono: "?f l" if "k \<le> l" "l < length bs" "?f k" for k l
  proof (cases "k = l")
    case False
    then have "kord (fst (last (bs ! k))) < kord (fst (last (bs ! l)))"
      using that by (intro blocks_ordered [OF asc, of k l] ne) simp_all
    then show ?thesis using that f [of k] f [of l] by simp
  qed (use that in simp)
  show le: "findBlockIndex r key \<le> length bs"
    unfolding findBlockIndex_def len by (rule sort_Search_least(1)) (rule mono)
  show "kord (fst p) < kord key" if "j < findBlockIndex r key" "p \<in> set (bs ! j)" for j p
  proof -
    have "\<not> ?f j"
      using that(1) unfolding findBlockIndex_def len by (rule sort_Search_least(2) [rotated]) (rule mono)
    moreover have j: "j < length bs" using that(1) le by simp
    ultimately have "kord (fst (last (bs ! j))) < kord key" using f by simp
    moreover have "kord (fst p) \<le> kord (fst (last (bs ! j)))" by (rule blocks_last [OF asc j that(2)])
    ultimately show ?thesis by simp
  qed
  show "kord key \<le> kord (fst (last (bs ! j)))" if "findBlockIndex r key \<le> j" "j < length bs" for j
  proof -
    have "?f j"
      using that unfolding findBlockIndex_def len by (rule sort_Search_least(3) [rotated]) (rule mono)
    then show ?thesis using f [OF that(2)] by simp
  qed
qed

lemma map_of_block:
  assumes "reader_rep sum128 uncompress r bs"
  shows "map_of (concat bs) key =
    (if findBlockIndex r key < length bs then map_of (bs ! findBlockIndex r key) key else None)"
proof -
  let ?i = "findBlockIndex r key"
  note spec = findBlockIndex_spec [OF assms, where key = key]
  have asc: "asc_by CompareKeys (concat bs)" using assms by (simp add: reader_rep_def)
  have before: "map_of (concat (take ?i bs)) key = None"
  proof -
    have "kord (fst p) < kord key" if "p \<in> set (concat (take ?i bs))" for p
    proof -
      obtain b where b: "b \<in> set (take ?i bs)" "p \<in> set b" using \<open>p \<in> _\<close> by auto
      then obtain j where "j < ?i" "b = bs ! j" by (auto simp: in_set_conv_nth)
      with b(2) spec(2) show ?thesis by blast
    qed
    then show ?thesis by (force simp: map_of_eq_None_iff)
  qed
  show ?thesis
  proof (cases "?i < length bs")
    case True
    have "kord key < kord (fst p)" if "p \<in> set (concat (drop (Suc ?i) bs))" for p
    proof -
      obtain b where b: "b \<in> set (drop (Suc ?i) bs)" "p \<in> set b" using \<open>p \<in> _\<close> by auto
      then obtain j where "j < length bs - Suc ?i" "b = bs ! (Suc ?i + j)" by (auto simp: in_set_conv_nth)
      with b(2) have j: "Suc ?i + j < length bs" "p \<in> set (bs ! (Suc ?i + j))" by simp_all
      have "last (bs ! ?i) \<in> set (bs ! ?i)"
        using assms True unfolding reader_rep_def by (metis last_in_set nth_mem)
      then have "kord (fst (last (bs ! ?i))) < kord (fst p)"
        using blocks_ordered [OF asc, of ?i "Suc ?i + j"] j by simp
      then show ?thesis using spec(3) [of ?i] True by simp
    qed
    then have after: "map_of (concat (drop (Suc ?i) bs)) key = None" by (force simp: map_of_eq_None_iff)
    have "map_of (concat bs) key = (map_of (concat (drop (Suc ?i) bs)) ++ map_of (bs ! ?i) ++ map_of (concat (take ?i bs))) key"
      unfolding concat_nth_split [OF True] map_of_append by simp
    then show ?thesis using before after True by (simp add: map_add_def split: option.split)
  next
    case False
    then show ?thesis using before spec(1) by simp
  qed
qed

lemma sst_Get_rep:
  assumes "reader_rep sum128 uncompress r bs" "knows T r bs" "cache_fits T cache"
  shows "\<exists>cache'. sst_Get sum128 uncompress key r cache = (Inr (map_of (concat bs) key), cache') \<and> cache_fits T cache'"
proof (cases "MayContain sum128 key (sr_bloom r)")
  case False
  have "key \<notin> fst ` set (concat bs)" using assms(1) False by (auto simp: reader_rep_def)
  then have "map_of (concat bs) key = None" by (simp only: map_of_eq_None_iff simp_thms)
  then show ?thesis using False assms(3) by (simp add: sst_Get_def)
next
  case may: True
  let ?i = "findBlockIndex r key"
  have len: "length (sr_indexEntries r) = length bs" using assms(1) by (simp add: reader_rep_def)
  show ?thesis
  proof (cases "?i < length bs")
    case False
    then show ?thesis using may len assms(3) map_of_block [OF assms(1), of key] by (simp add: sst_Get_def)
  next
    case True
    obtain cache' where rb: "sst_readBlock uncompress r (ie_Handle (sr_indexEntries r ! ?i)) cache =
        (Inr (encode_block (bs ! ?i)), cache')" "cache_fits T cache'"
      using sst_readBlock_rep [OF assms(1) True assms(2,3)] by blast
    have "asc_by CompareKeys (concat bs)" "\<forall>e \<in> set (concat bs). kv_fits e" using assms(1) by (simp_all add: reader_rep_def)
    then have "asc_by CompareKeys (bs ! ?i)" "\<forall>e \<in> set (bs ! ?i). kv_fits e"
      unfolding concat_nth_split [OF True] by (simp_all add: ck.asc_by_append ball_Un)
    then have "scan_block key (encode_block (bs ! ?i)) = Inr (map_of (concat bs) key)"
      using scan_block_encode map_of_block [OF assms(1), of key] True by simp
    then show ?thesis using may len True rb by (simp add: sst_Get_def)
  qed
qed

section \<open>Iteration\<close>

lemma parse_entry_decode:
  assumes "decode_kv (drop (it_offset it) (it_blockData it)) = Some (e, rest)" "it_offset it \<le> length (it_blockData it)"
  shows "\<exists>off. parse_entry it = it\<lparr>it_offset := off, it_isTombstone := (snd e = None), it_currentKey := fst e,
      it_currentVal := snd e, it_valid := True\<rparr> \<and> drop off (it_blockData it) = rest \<and> off \<le> length (it_blockData it)"
proof -
  define bd off where "bd = it_blockData it" and "off = it_offset it"
  define K R N where "K = unat (get_le (gslice off (off + 4) bd) :: u32)" and
    "R = (get_le (gslice (off + 4) (off + 8) bd) :: u32)" and "N = (if R = 0xFFFFFFFF then 0 else unat R)"
  have g: "gslice 0 4 (drop off bd) = gslice off (off + 4) bd" "gslice 4 8 (drop off bd) = gslice (off + 4) (off + 8) bd"
    unfolding gslice_drop by simp_all
  have "decode_kv (drop off bd) =
    (if length bd - off < 8 then None
     else if length bd - (off + 8) < K + N then None
     else Some ((gslice (off + 8) (off + 8 + K) bd, if R = 0xFFFFFFFF then None else Some (gslice (off + 8 + K) (off + 8 + K + N) bd)),
       drop (off + 8 + K + N) bd))"
    unfolding decode_kv_def g K_def [symmetric] R_def [symmetric] Let_def N_def [symmetric]
    by (simp add: gslice_def add.commute add.left_commute N_def)
  then have e: "\<not> length bd - off < 8" "\<not> length bd - (off + 8) < K + N"
    "e = (gslice (off + 8) (off + 8 + K) bd, if R = 0xFFFFFFFF then None else Some (gslice (off + 8 + K) (off + 8 + K + N) bd))"
    "rest = drop (off + 8 + K + N) bd"
    using assms(1) unfolding bd_def [symmetric] off_def [symmetric] by (simp_all split: if_splits)
  have le: "off + 8 + K + N \<le> length bd" using e(1,2) assms(2) by linarith
  then have "parse_entry it = it\<lparr>it_offset := off + 8 + K + N, it_isTombstone := (R = 0xFFFFFFFF),
      it_currentKey := gslice (off + 8) (off + 8 + K) bd,
      it_currentVal := (if R = 0xFFFFFFFF then None else Some (gslice (off + 8 + K) (off + 8 + K + N) bd)), it_valid := True\<rparr>"
    unfolding parse_entry_def Let_def bd_def [symmetric] off_def [symmetric] K_def [symmetric] R_def [symmetric] N_def [symmetric]
    by simp
  then show ?thesis using e(3,4) le unfolding bd_def [symmetric] by (intro exI [of _ "off + 8 + K + N"]) simp
qed

definition iter_rep ::
  "(bytes \<Rightarrow> u64 \<times> u64) \<Rightarrow> (bytes \<Rightarrow> nat \<Rightarrow> bytes option) \<Rightarrow> entry list list \<Rightarrow> sst_iter \<Rightarrow> entry list \<Rightarrow> bool" where
  "iter_rep sum128 uncompress bs it xs \<longleftrightarrow>
     it_err it = None \<and> reader_rep sum128 uncompress (it_reader it) bs \<and>
     (case xs of
        [] \<Rightarrow> \<not> it_valid it
      | x # xs' \<Rightarrow> it_valid it \<and> x = (it_currentKey it, it_currentVal it) \<and>
          it_blockIdx it < length bs \<and> it_blockData it = encode_block (bs ! it_blockIdx it) \<and>
          it_offset it \<le> length (it_blockData it) \<and>
          (\<exists>pre rest. drop (it_offset it) (it_blockData it) = encode_block rest \<and> bs ! it_blockIdx it = pre @ x # rest \<and>
             xs' = rest @ concat (drop (Suc (it_blockIdx it)) bs)))"

lemma iter_rep_suffix: "iter_rep sum128 uncompress bs it xs \<Longrightarrow> \<exists>pre. concat bs = pre @ xs"
proof (cases xs)
  case (Cons x xs')
  assume "iter_rep sum128 uncompress bs it xs"
  then obtain pre rest where "it_blockIdx it < length bs" "bs ! it_blockIdx it = pre @ x # rest"
    "xs' = rest @ concat (drop (Suc (it_blockIdx it)) bs)"
    unfolding iter_rep_def Cons list.case by blast
  then show ?thesis using Cons concat_nth_split [of "it_blockIdx it" bs] by auto
qed simp

lemma loadBlock_rep:
  assumes "reader_rep sum128 uncompress (it_reader it) bs" "it_err it = None" "knows T (it_reader it) bs" "cache_fits T cache"
  shows "\<exists>it' cache'. loadBlock uncompress it cache = (it', cache') \<and> it_reader it' = it_reader it \<and>
    iter_rep sum128 uncompress bs it' (concat (drop (it_blockIdx it) bs)) \<and> cache_fits T cache'"
proof -
  let ?r = "it_reader it" let ?i = "it_blockIdx it"
  have len: "length (sr_indexEntries ?r) = length bs" using assms(1) by (simp add: reader_rep_def)
  show ?thesis
  proof (cases "?i < length bs")
    case False
    then have "loadBlock uncompress it cache = (it\<lparr>it_valid := False\<rparr>, cache)"
      by (subst loadBlock.simps) (simp add: Let_def len)
    with False assms show ?thesis by (simp add: iter_rep_def)
  next
    case True
    obtain cache' where rb: "sst_readBlock uncompress ?r (ie_Handle (sr_indexEntries ?r ! ?i)) cache =
        (Inr (encode_block (bs ! ?i)), cache')" "cache_fits T cache'"
      using sst_readBlock_rep [OF assms(1) True assms(3,4)] by blast
    have b: "bs ! ?i \<noteq> []" "\<forall>e \<in> set (bs ! ?i). kv_fits e"
      using assms(1) True by (auto simp: reader_rep_def) (metis nth_mem)
    then obtain e rest where er: "bs ! ?i = e # rest" by (cases "bs ! ?i") auto
    let ?it = "it\<lparr>it_valid := False, it_blockData := encode_block (bs ! ?i), it_offset := 0\<rparr>"
    have ld: "loadBlock uncompress it cache = (parse_entry ?it, cache')"
      using True rb(1) b(1) by (subst loadBlock.simps) (simp add: Let_def len)
    have "decode_kv (drop (it_offset ?it) (it_blockData ?it)) = Some (e, encode_block rest)"
      using b(2) er decode_kv_encode [of e "encode_block rest"] by simp
    from parse_entry_decode [OF this] obtain off where
      off: "parse_entry ?it = ?it\<lparr>it_offset := off, it_isTombstone := (snd e = None), it_currentKey := fst e,
        it_currentVal := snd e, it_valid := True\<rparr>" "drop off (encode_block (bs ! ?i)) = encode_block rest"
        "off \<le> length (encode_block (bs ! ?i))" by auto
    have "drop ?i bs = (e # rest) # drop (Suc ?i) bs" using True er by (metis Cons_nth_drop_Suc)
    then have "iter_rep sum128 uncompress bs (parse_entry ?it) (concat (drop ?i bs))"
      unfolding off(1) using assms(1,2) off(2,3) True er by (auto simp: iter_rep_def)
    with ld rb(2) show ?thesis by simp
  qed
qed

lemma it_Next_rep:
  assumes "iter_rep sum128 uncompress bs it (x # xs)" "knows T (it_reader it) bs" "cache_fits T cache"
  shows "\<exists>it' cache'. it_Next uncompress it cache = (it', cache') \<and> it_reader it' = it_reader it \<and>
    iter_rep sum128 uncompress bs it' xs \<and> cache_fits T cache'"
proof -
  let ?i = "it_blockIdx it"
  obtain pre rest where it: "it_err it = None" "reader_rep sum128 uncompress (it_reader it) bs" "it_valid it"
    "it_blockData it = encode_block (bs ! ?i)" "it_offset it \<le> length (it_blockData it)"
    "drop (it_offset it) (it_blockData it) = encode_block rest" "?i < length bs"
    "xs = rest @ concat (drop (Suc ?i) bs)" "bs ! ?i = pre @ x # rest"
    using assms(1) unfolding iter_rep_def list.case by blast
  have fits: "\<forall>e \<in> set rest. kv_fits e"
    using it(2,7,9) unfolding reader_rep_def concat_nth_split [OF it(7)] by simp
  show ?thesis
  proof (cases rest)
    case Nil
    then have "length (it_blockData it) \<le> it_offset it" using it(6) by simp
    then have "it_Next uncompress it cache = loadBlock uncompress (it\<lparr>it_blockIdx := Suc ?i\<rparr>) cache"
      using it(3) by (simp add: it_Next_def)
    moreover have "xs = concat (drop (Suc ?i) bs)" using it(8) Nil by simp
    ultimately show ?thesis
      using loadBlock_rep [of sum128 uncompress "it\<lparr>it_blockIdx := Suc ?i\<rparr>" bs T cache] it(1,2) assms(2,3) by simp
  next
    case (Cons e rest')
    then have "\<not> length (it_blockData it) \<le> it_offset it"
      using it(6) by (metis drop_eq_Nil encode_block_eq_Nil list.distinct(1))
    then have n: "it_Next uncompress it cache = (parse_entry it, cache)"
      using it(3) by (simp add: it_Next_def parseCurrent_def)
    have "decode_kv (drop (it_offset it) (it_blockData it)) = Some (e, encode_block rest')"
      using it(6) fits Cons decode_kv_encode [of e "encode_block rest'"] by simp
    from parse_entry_decode [OF this it(5)] obtain off where
      off: "parse_entry it = it\<lparr>it_offset := off, it_isTombstone := (snd e = None), it_currentKey := fst e,
        it_currentVal := snd e, it_valid := True\<rparr>" "drop off (it_blockData it) = encode_block rest'"
        "off \<le> length (it_blockData it)" by blast
    have "iter_rep sum128 uncompress bs (parse_entry it) xs"
      unfolding off(1) using it off(2,3) Cons by (auto simp: iter_rep_def intro!: exI [of _ "pre @ [x]"])
    with n assms(3) show ?thesis by simp
  qed
qed

lemma iter_rep_Valid: "iter_rep sum128 uncompress bs it xs \<Longrightarrow> it_Valid it \<longleftrightarrow> xs \<noteq> []"
  by (auto simp: iter_rep_def it_Valid_def split: list.splits)

lemma iter_rep_entry: "iter_rep sum128 uncompress bs it (x # xs) \<Longrightarrow> x = (it_currentKey it, it_currentVal it)"
  by (simp add: iter_rep_def)

lemma seek_loop_rep:
  assumes "iter_rep sum128 uncompress bs it xs" "knows T (it_reader it) bs" "cache_fits T cache"
  shows "\<exists>it' cache'. seek_loop uncompress target it cache = Some (it', cache') \<and> it_reader it' = it_reader it \<and>
    iter_rep sum128 uncompress bs it' (dropWhile (\<lambda>e. CompareKeys (fst e) target < 0) xs) \<and> cache_fits T cache'"
  using assms
proof (induction xs arbitrary: it cache)
  case Nil
  then show ?case using iter_rep_Valid [OF Nil.prems(1)] by (subst seek_loop.simps) simp
next
  case (Cons x xs)
  have v: "it_Valid it" "fst x = it_currentKey it"
    using iter_rep_Valid [OF Cons.prems(1)] iter_rep_entry [OF Cons.prems(1)] by simp_all
  show ?case
  proof (cases "0 \<le> CompareKeys (it_currentKey it) target")
    case True
    then show ?thesis using v Cons.prems by (subst seek_loop.simps) simp
  next
    case False
    obtain it1 c1 where n: "it_Next uncompress it cache = (it1, c1)" "it_reader it1 = it_reader it"
      "iter_rep sum128 uncompress bs it1 xs" "cache_fits T c1"
      using it_Next_rep [OF Cons.prems] by blast
    with Cons.IH [OF n(3)] Cons.prems(2) v False show ?thesis by (subst seek_loop.simps) simp
  qed
qed

lemma it_Seek_rep:
  assumes "reader_rep sum128 uncompress (it_reader it) bs" "it_err it = None" "knows T (it_reader it) bs" "cache_fits T cache"
  shows "\<exists>it' cache'. it_Seek uncompress target it cache = Some (it', cache') \<and> it_reader it' = it_reader it \<and>
    iter_rep sum128 uncompress bs it' (dropWhile (\<lambda>e. CompareKeys (fst e) target < 0) (concat bs)) \<and> cache_fits T cache'"
proof -
  let ?i = "findBlockIndex (it_reader it) target"
  obtain it1 c1 where l: "loadBlock uncompress (it\<lparr>it_blockIdx := ?i\<rparr>) cache = (it1, c1)" "it_reader it1 = it_reader it"
    "iter_rep sum128 uncompress bs it1 (concat (drop ?i bs))" "cache_fits T c1"
    using loadBlock_rep [of sum128 uncompress "it\<lparr>it_blockIdx := ?i\<rparr>" bs T cache] assms by auto
  have "CompareKeys (fst e) target < 0" if "e \<in> set (concat (take ?i bs))" for e
  proof -
    obtain b where b: "b \<in> set (take ?i bs)" "e \<in> set b" using \<open>e \<in> _\<close> by auto
    then obtain j where "j < ?i" "b = bs ! j" by (auto simp: in_set_conv_nth)
    with b(2) findBlockIndex_spec(2) [OF assms(1)] show ?thesis by (simp add: ck_ord)
  qed
  then have "dropWhile (\<lambda>e. CompareKeys (fst e) target < 0) (concat (take ?i bs) @ concat (drop ?i bs)) =
      dropWhile (\<lambda>e. CompareKeys (fst e) target < 0) (concat (drop ?i bs))"
    by (rule dropWhile_append2)
  then have "dropWhile (\<lambda>e. CompareKeys (fst e) target < 0) (concat bs) =
      dropWhile (\<lambda>e. CompareKeys (fst e) target < 0) (concat (drop ?i bs))"
    by (metis append_take_drop_id concat_append)
  then show ?thesis
    using seek_loop_rep [OF l(3) _ l(4), of target] l(1,2) assms(3) by (simp add: it_Seek_def)
qed

section \<open>Whole tables\<close>

text \<open>Writing a table as the flush of a memtable does: add every entry, then close.\<close>

definition write_table ::
  "(bytes \<Rightarrow> u64 \<times> u64) \<Rightarrow> (bytes \<Rightarrow> bytes option) \<Rightarrow> int \<Rightarrow> int \<Rightarrow> entry list \<Rightarrow> bool \<times> sst_writer" where
  "write_table sum128 compress blockSize bpk es =
     (case add_all sum128 compress es (sst_NewWriter (good_file []) blockSize bpk) of
        (False, w) \<Rightarrow> (False, snd (sst_Close compress w))
      | (True, w) \<Rightarrow> sst_Close compress w)"

lemma entry_small_fits: "entry_small blockSize e \<Longrightarrow> 0 < blockSize \<Longrightarrow> kv_fits e"
  by (auto simp: entry_small_def kv_fits_def length_encode_kv DefaultBlockSize_def)

lemma write_table_rep:
  assumes "lz4_ok compress uncompress" "bloom_request 10000 bpk \<le> - 8" "0 < blockSize"
    "\<forall>e \<in> set es. entry_small blockSize e" "asc_by CompareKeys es"
    "write_table sum128 compress blockSize bpk es = (ok, w)" "length (f_data (sw_file w)) < max_alloc"
  shows "ok \<and> sst_Size w = of_nat (length (f_data (sw_file w))) \<and>
    (\<exists>r bs. OpenReader (f_data (sw_file w)) fid = Inr r \<and> sr_FileID r = fid \<and> reader_rep sum128 uncompress r bs \<and> concat bs = es)"
proof -
  let ?w = "sst_NewWriter (good_file []) blockSize bpk"
  have nf: "\<And>u. compress u \<noteq> None" using assms(1) unfolding lz4_ok_def by blast
  have bsz: "sw_blockSize ?w = blockSize" by (simp add: sst_NewWriter_def)
  obtain w1 bs1 cur1 where w1: "add_all sum128 compress es ?w = (True, w1)" "writer_rep sum128 compress bpk w1 bs1 cur1"
    "concat bs1 @ cur1 = es" "\<forall>b \<in> set bs1. block_small b" "int (length (encode_block cur1)) < blockSize"
    using add_all_rep [OF NewWriter_rep [of sum128 compress bpk blockSize] nf, of es] assms(3,4) bsz by auto
  obtain w2 bs where w2: "sst_Close compress w1 = (True, w2)" "concat bs = concat bs1 @ cur1" "bs = bs1 \<or> bs = bs1 @ [cur1]"
    "[] \<notin> set bs" "sw_file w2 = good_file (table_file sum128 compress bpk bs)"
    "sst_Size w2 = of_nat (length (table_file sum128 compress bpk bs))"
    using sst_Close_rep [OF w1(2) nf] by blast
  have ok: "ok" "w = w2" using assms(6) w1(1) w2(1) by (simp_all add: write_table_def)
  have "block_small cur1" if "es \<noteq> []"
  proof -
    have "entry_small blockSize (hd es)" using that assms(4) by simp
    then show ?thesis using w1(5) by (auto simp: block_small_def entry_small_def)
  qed
  then have small: "\<forall>b \<in> set bs. block_small b"
    using w1(3,4) w2(3,4) by (cases "es = []") auto
  have "\<forall>e \<in> set (concat bs). kv_fits e"
    using assms(3,4) entry_small_fits w1(3) w2(2) by auto
  from OpenReader_rep [OF assms(1,2) _ w2(4) small this, of sum128 fid] assms(5,7) w1(3) w2(2,5) ok
  obtain r where "OpenReader (table_file sum128 compress bpk bs) fid = Inr r" "sr_FileID r = fid" "reader_rep sum128 uncompress r bs"
    by auto
  with ok w2 w1(3) show ?thesis by auto
qed

definition block_truth :: "sst_reader \<Rightarrow> entry list list \<Rightarrow> u64 \<times> u64 \<Rightarrow> bytes option" where
  "block_truth r bs k =
     (if fst k = sr_FileID r
      then map_of (zip (map (bh_Offset \<circ> ie_Handle) (sr_indexEntries r)) (map encode_block bs)) (snd k) else None)"

lemma knows_block_truth: "reader_rep sum128 uncompress r bs \<Longrightarrow> knows (block_truth r bs) r bs"
proof -
  assume r: "reader_rep sum128 uncompress r bs"
  let ?os = "map (bh_Offset \<circ> ie_Handle) (sr_indexEntries r)"
  have len: "length (sr_indexEntries r) = length bs" "distinct ?os" using r by (simp_all add: reader_rep_def)
  have "map_of (zip ?os (map encode_block bs)) (?os ! i) = Some (map encode_block bs ! i)" if "i < length bs" for i
    using len that by (intro map_of_zip_nth) simp_all
  then show ?thesis using len by (simp add: knows_def block_truth_def)
qed

text \<open>A sequence of lookups through one cache.\<close>

fun lookups ::
  "(bytes \<Rightarrow> u64 \<times> u64) \<Rightarrow> (bytes \<Rightarrow> nat \<Rightarrow> bytes option) \<Rightarrow> bytes list \<Rightarrow> sst_reader \<Rightarrow> BlockCache option \<Rightarrow>
     (sst_error + bytes option option) list" where
  "lookups sum128 uncompress [] r cache = []"
| "lookups sum128 uncompress (k # ks) r cache =
     (case sst_Get sum128 uncompress k r cache of (res, cache) \<Rightarrow> res # lookups sum128 uncompress ks r cache)"

lemma lookups_rep:
  assumes "reader_rep sum128 uncompress r bs" "knows T r bs" "cache_fits T cache"
  shows "lookups sum128 uncompress ks r cache = map (\<lambda>k. Inr (map_of (concat bs) k)) ks"
  using assms(3)
proof (induction ks arbitrary: cache)
  case (Cons k ks)
  obtain c1 where c1: "sst_Get sum128 uncompress k r cache = (Inr (map_of (concat bs) k), c1)" "cache_fits T c1"
    using sst_Get_rep [OF assms(1,2) Cons.prems] by blast
  with Cons.IH [OF c1(2)] show ?case by simp
qed simp

text \<open>Reading up to \<open>n\<close> entries off an iterator.\<close>

fun collect :: "(bytes \<Rightarrow> nat \<Rightarrow> bytes option) \<Rightarrow> nat \<Rightarrow> sst_iter \<Rightarrow> BlockCache option \<Rightarrow> entry list" where
  "collect uncompress 0 it cache = []"
| "collect uncompress (Suc n) it cache =
     (if it_Valid it
      then (it_currentKey it, it_currentVal it) #
           (case it_Next uncompress it cache of (it, cache) \<Rightarrow> collect uncompress n it cache)
      else [])"

lemma collect_rep:
  assumes "iter_rep sum128 uncompress bs it xs" "knows T (it_reader it) bs" "cache_fits T cache"
  shows "collect uncompress n it cache = take n xs"
  using assms
proof (induction n arbitrary: it xs cache)
  case (Suc n)
  show ?case
  proof (cases xs)
    case Nil
    then show ?thesis using iter_rep_Valid [OF Suc.prems(1)] by simp
  next
    case (Cons x xs')
    note rep = Suc.prems(1) [unfolded Cons]
    obtain it1 c1 where n: "it_Next uncompress it cache = (it1, c1)" "it_reader it1 = it_reader it"
      "iter_rep sum128 uncompress bs it1 xs'" "cache_fits T c1"
      using it_Next_rep [OF rep Suc.prems(2,3)] by blast
    show ?thesis
      using Suc.IH [OF n(3)] n Suc.prems(2) iter_rep_Valid [OF rep] iter_rep_entry [OF rep] Cons by simp
  qed
qed simp

section \<open>Properties\<close>

text \<open>
  C37. Round trip of tables.  Entries in ascending key order, written by the writer with any block size
  and any block compressed or not, are read back exactly: opening the file succeeds, and every sequence
  of lookups, through the Bloom filter, the binary search of the index and a block cache of any
  capacity, finds for each key the value written (a tombstone as a tombstone) and nothing for the
  others.  Blocks must fit the reader's decompression buffer.
\<close>

theorem sstable_roundtrip:
  assumes "lz4_ok compress uncompress" "bloom_request 10000 bpk \<le> - 8" "0 < blockSize"
    "\<forall>e \<in> set es. entry_small blockSize e" "asc_by CompareKeys es"
    "write_table sum128 compress blockSize bpk es = (ok, w)" "length (f_data (sw_file w)) < max_alloc"
  shows "ok \<and> sst_Size w = of_nat (length (f_data (sw_file w))) \<and>
    (\<exists>r. OpenReader (f_data (sw_file w)) fid = Inr r \<and>
       (\<forall>keys capacity. lookups sum128 uncompress keys r (Some (NewBlockCache capacity)) = map (\<lambda>k. Inr (map_of es k)) keys))"
proof -
  obtain r bs where r: "ok" "sst_Size w = of_nat (length (f_data (sw_file w)))" "OpenReader (f_data (sw_file w)) fid = Inr r"
    "reader_rep sum128 uncompress r bs" "concat bs = es"
    using write_table_rep [OF assms] by blast
  have "cache_fits (block_truth r bs) (Some (NewBlockCache capacity))" for capacity
    by (simp add: cache_fits_def NewBlockCache_coh)
  then have "lookups sum128 uncompress keys r (Some (NewBlockCache capacity)) = map (\<lambda>k. Inr (map_of es k)) keys" for keys capacity
    using lookups_rep [OF r(4) knows_block_truth [OF r(4)]] r(5) by simp
  with r show ?thesis by blast
qed

text \<open>A table of one compressed block, with a compressor that knows just that block.\<close>

abbreviation sample_entries :: "entry list" where
  "sample_entries \<equiv> [([1], Some [2, 2]), ([3], None)]"

abbreviation sample_compress :: "bytes \<Rightarrow> bytes option" where
  "sample_compress u \<equiv> Some (if u = encode_block sample_entries then [7] else [])"

abbreviation sample_uncompress :: "bytes \<Rightarrow> nat \<Rightarrow> bytes option" where
  "sample_uncompress c n \<equiv> (if c = [7] \<and> length (encode_block sample_entries) \<le> n then Some (encode_block sample_entries) else None)"

abbreviation sample_table :: "bool \<times> sst_writer" where
  "sample_table \<equiv> write_table (\<lambda>k. (1, 2)) sample_compress 4096 10 sample_entries"

lemma length_bloom_Add [simp]: "length (bf_bits (bloom_Add sum128 k f)) = length (bf_bits f)"
  by (simp add: bloom_Add_def fold_set_bits)

lemma sample_hyps:
  "lz4_ok sample_compress sample_uncompress" "bloom_request 10000 10 \<le> - 8"
  "\<forall>e \<in> set sample_entries. entry_small 4096 e" "asc_by CompareKeys sample_entries"
  "length (f_data (sw_file (snd sample_table))) < max_alloc"
proof -
  show "lz4_ok sample_compress sample_uncompress" by (simp add: lz4_ok_def)
  show "bloom_request 10000 10 \<le> - 8" by (simp add: bloom_request_def)
  show "\<forall>e \<in> set sample_entries. entry_small 4096 e" by (simp add: entry_small_def length_encode_kv vlen_def DefaultBlockSize_def)
  show "asc_by CompareKeys sample_entries" by (simp add: asc_by_def CompareKeys_def UserKey_def)
  have "length (bf_bits (NewFilter 10000 10)) = 12500" by (simp add: NewFilter_def)
  then show "length (f_data (sw_file (snd sample_table))) < max_alloc"
    by (simp add: write_table_def sst_NewWriter_def sst_Add_def length_encode_kv vlen_def sst_Close_def flushDataBlock_def
        Let_def encode_index_def bloom_Encode_def max_alloc_def FooterSize_def)
qed

theorem sstable_roundtrip_witness:
  "fst sample_table \<and> (\<exists>r. OpenReader (f_data (sw_file (snd sample_table))) 5 = Inr r \<and>
     lookups (\<lambda>k. (1, 2)) sample_uncompress [[3], [1], [4], [1]] r (Some (NewBlockCache 1000)) =
       [Inr (Some None), Inr (Some (Some [2, 2])), Inr None, Inr (Some (Some [2, 2]))])"
proof -
  obtain ok w where t: "sample_table = (ok, w)" by fastforce
  have "map (\<lambda>k. Inr (map_of sample_entries k)) [[3], [1], [4], [1]] =
      ([Inr (Some None), Inr (Some (Some [2, 2])), Inr None, Inr (Some (Some [2, 2]))] :: (sst_error + bytes option option) list)"
    by simp
  moreover have "0 < (4096 :: int)" "length (f_data (sw_file w)) < max_alloc" using sample_hyps(5) t by simp_all
  ultimately show ?thesis
    using sstable_roundtrip [OF sample_hyps(1,2) _ sample_hyps(3,4) t, of 5] t unfolding prod.sel by (metis prod.sel)
qed

text \<open>
  C38. Iteration.  An iterator over a written table visits all entries in order, and \<^verbatim>\<open>Seek\<close> positions it on
  the first key not below the target, from where it visits all the rest.
\<close>

theorem sstable_iteration:
  assumes "lz4_ok compress uncompress" "bloom_request 10000 bpk \<le> - 8" "0 < blockSize"
    "\<forall>e \<in> set es. entry_small blockSize e" "asc_by CompareKeys es"
    "write_table sum128 compress blockSize bpk es = (ok, w)" "length (f_data (sw_file w)) < max_alloc"
    "OpenReader (f_data (sw_file w)) fid = Inr r" "NewIterator uncompress r (Some (NewBlockCache capacity)) = (it, cache)"
  shows "collect uncompress n it cache = take n es \<and>
    (\<exists>it' cache'. it_Seek uncompress target it cache = Some (it', cache') \<and>
       collect uncompress n it' cache' = take n (dropWhile (\<lambda>e. CompareKeys (fst e) target < 0) es))"
proof -
  obtain bs where r: "reader_rep sum128 uncompress r bs" "concat bs = es"
    using write_table_rep [OF assms(1-7), of fid] assms(8) by auto
  note knows = knows_block_truth [OF r(1)]
  let ?it = "\<lparr>it_reader = r, it_blockIdx = 0, it_offset = 0, it_err = None, it_blockData = [], it_currentKey = [],
    it_currentVal = None, it_isTombstone = False, it_valid = False\<rparr>"
  have "cache_fits (block_truth r bs) (Some (NewBlockCache capacity))" by (simp add: cache_fits_def NewBlockCache_coh)
  then have it: "it_reader it = r" "iter_rep sum128 uncompress bs it es" "cache_fits (block_truth r bs) cache"
    using loadBlock_rep [of sum128 uncompress ?it bs "block_truth r bs" "Some (NewBlockCache capacity)"] r knows assms(9)
    by (auto simp: NewIterator_def it_SeekToFirst_def)
  have rep: "reader_rep sum128 uncompress (it_reader it) bs" "it_err it = None" "knows (block_truth r bs) (it_reader it) bs"
    using it(1,2) r(1) knows by (simp_all add: iter_rep_def)
  obtain it' cache' where s: "it_Seek uncompress target it cache = Some (it', cache')" "it_reader it' = it_reader it"
    "iter_rep sum128 uncompress bs it' (dropWhile (\<lambda>e. CompareKeys (fst e) target < 0) es)" "cache_fits (block_truth r bs) cache'"
    using it_Seek_rep [OF rep it(3), of target] r(2) by auto
  show ?thesis
    using collect_rep [OF it(2) rep(3) it(3)] collect_rep [OF s(3) _ s(4)] s(1,2) rep(3) by auto
qed

theorem sstable_iteration_witness:
  "\<exists>r it cache it' cache'. OpenReader (f_data (sw_file (snd sample_table))) 5 = Inr r \<and>
     NewIterator sample_uncompress r (Some (NewBlockCache 0)) = (it, cache) \<and>
     collect sample_uncompress 9 it cache = sample_entries \<and>
     it_Seek sample_uncompress [2] it cache = Some (it', cache') \<and> collect sample_uncompress 9 it' cache' = [([3], None)]"
proof -
  obtain ok w where t: "sample_table = (ok, w)" by fastforce
  obtain r where r: "OpenReader (f_data (sw_file w)) 5 = Inr r"
    using write_table_rep [OF sample_hyps(1,2) _ sample_hyps(3,4) t, of 5] sample_hyps(5) t by auto
  obtain it cache where it: "NewIterator sample_uncompress r (Some (NewBlockCache 0)) = (it, cache)" by fastforce
  have len: "length (f_data (sw_file w)) < max_alloc" using sample_hyps(5) t by simp
  have "dropWhile (\<lambda>e. CompareKeys (fst e) [2] < 0) sample_entries = [([3], None)]"
    by (simp add: CompareKeys_def UserKey_def)
  then show ?thesis
    using sstable_iteration [OF sample_hyps(1,2) _ sample_hyps(3,4) t len r it, of 9 "[2]"] t r it by auto
qed

text \<open>
  C40. A block the reader cannot read back.  The reader decompresses into a buffer of eight default blocks,
  so an entry larger than that which compresses is written without error and can never be read: the
  lookup of its key fails in the decompressor, whatever that is, if only it reports a destination that
  is too small.
\<close>

theorem sstable_large_block_unreadable:
  assumes "bloom_request 10000 bpk \<le> - 8" "kv_fits (k, v)" "8 * DefaultBlockSize < length (encode_kv (k, v))"
    "blockSize \<le> int (length (encode_kv (k, v)))"
    "compress (encode_kv (k, v)) = Some c" "c \<noteq> []" "length c < length (encode_kv (k, v))"
    "\<And>n. n < length (encode_kv (k, v)) \<Longrightarrow> uncompress c n = None"
    "write_table sum128 compress blockSize bpk [(k, v)] = (ok, w)" "length (f_data (sw_file w)) < max_alloc"
  shows "ok \<and> (\<exists>r. OpenReader (f_data (sw_file w)) fid = Inr r \<and>
    fst (sst_Get sum128 uncompress k r None) = Inl ErrUncompress)"
proof -
  let ?bs = "[[(k, v)]]" let ?F = "table_file sum128 compress bpk ?bs"
  have w: "ok" "sw_file w = good_file ?F"
    using assms(4-7,9)
    by (auto simp: write_table_def sst_NewWriter_def sst_Add_def sst_Close_def flushDataBlock_def Let_def table_file_def
        table_filter_def table_footer_def disk_block_def good_file_def)
  have len: "length ?F < max_alloc" using assms(10) w(2) by simp
  have "\<forall>b \<in> set ?bs. length (fst (last b)) < 2 ^ 32" using assms(2) by (simp add: kv_fits_def)
  from OpenReader_table [OF assms(1) len this, of fid] obtain r where
    r: "OpenReader ?F fid = Inr r" "sr_file r = ?F" "sr_indexEntries r = index_of compress 0 ?bs"
      "sr_bloom r = table_filter sum128 bpk ?bs" by blast
  have d: "disk_block compress [(k, v)] = 1 # c" using assms(5-7) by (simp add: disk_block_def)
  have "\<exists>R. ?F = (1 # c) @ R" by (simp add: table_file_def Let_def d)
  then have "read_at ?F \<lparr>bh_Offset = of_nat 0, bh_Size = of_nat (length (1 # c))\<rparr> = Inr (1 # c)"
    using read_at_handle [OF len, of 0 "length (1 # c)"] by auto
  then have f: "fetch_block uncompress r (ie_Handle (sr_indexEntries r ! 0)) = Inl ErrUncompress"
    using assms(3,8) r(2,3) d by (simp add: fetch_block_def)
  have i: "findBlockIndex r k = 0"
    using r(3) by (simp add: findBlockIndex_def sort_Search_def search_loop.simps ck.cmp_refl Let_def)
  have "MayContain sum128 k (sr_bloom r)" using table_filter_ok(2) [OF assms(1), of "(k, v)" ?bs] r(4) by simp
  then have "fst (sst_Get sum128 uncompress k r None) = Inl ErrUncompress"
    using f i r(3) by (simp add: sst_Get_def sst_readBlock_def)
  with r(1) w show ?thesis by simp
qed

theorem sstable_large_block_unreadable_witness:
  "\<exists>w r. write_table (\<lambda>k. (1, 2)) (\<lambda>u. Some [7]) 4096 10 [([1], Some (replicate 40000 0))] = (True, w) \<and>
     OpenReader (f_data (sw_file w)) 5 = Inr r \<and>
     fst (sst_Get (\<lambda>k. (1, 2)) (\<lambda>c n. if n < 40009 then None else Some []) [1] r None) = Inl ErrUncompress"
proof -
  let ?e = "([1], Some (replicate 40000 0)) :: entry"
  obtain ok w where t: "write_table (\<lambda>k. (1, 2)) (\<lambda>u. Some [7]) 4096 10 [?e] = (ok, w)" by fastforce
  have bits: "length (bf_bits (NewFilter 10000 10)) = 12500" by (simp add: NewFilter_def)
  have len: "length (encode_kv ?e) = 40009" by (simp add: length_encode_kv vlen_def)
  have "length (f_data (sw_file (snd (write_table (\<lambda>k. (1, 2)) (\<lambda>u. Some [7]) 4096 10 [?e])))) < max_alloc"
    using bits
    by (simp add: write_table_def sst_NewWriter_def sst_Add_def len sst_Close_def flushDataBlock_def
        Let_def encode_index_def bloom_Encode_def max_alloc_def FooterSize_def)
  moreover have "kv_fits ?e" by (simp add: kv_fits_def vlen_def)
  ultimately show ?thesis
    using sstable_large_block_unreadable [of 10 "[1]" "Some (replicate 40000 0)" 4096 "\<lambda>u. Some [7]" "[7]"
        "\<lambda>c n. if n < 40009 then None else Some []" "\<lambda>k. (1, 2)" ok w 5] t sample_hyps(2) len
    by (auto simp: DefaultBlockSize_def)
qed

end
