(* ===== verification/GoHeap.thy ===== *)
theory GoHeap
  imports Prelude "HOL-Library.Multiset"
begin

text \<open>
  The array heap of the standard package \<^verbatim>\<open>container/heap\<close>, for any comparison \<open>lt\<close>, which is the
  \<^verbatim>\<open>Less\<close> of the client.  The lemmas hold when \<open>lt\<close> compares, on the elements of the heap, the values of
  some function into a linear order.
\<close>

section \<open>Model\<close>

definition heap_Swap :: "nat \<Rightarrow> nat \<Rightarrow> 'a list \<Rightarrow> 'a list" where
  "heap_Swap i j xs = xs[j := xs ! i, i := xs ! j]"

function heap_up :: "('a \<Rightarrow> 'a \<Rightarrow> bool) \<Rightarrow> 'a list \<Rightarrow> nat \<Rightarrow> 'a list" where
  "heap_up lt xs j =
     (let i = (j - 1) div 2 in
      if i = j \<or> \<not> lt (xs ! j) (xs ! i) then xs else heap_up lt (heap_Swap i j xs) i)"
  by pat_completeness auto
termination
  by (relation "measure (\<lambda>(lt, xs, j). j)") auto

function heap_down :: "('a \<Rightarrow> 'a \<Rightarrow> bool) \<Rightarrow> 'a list \<Rightarrow> nat \<Rightarrow> nat \<Rightarrow> 'a list" where
  "heap_down lt xs i n =
     (let j1 = 2 * i + 1 in
      if n \<le> j1 then xs
      else let j = (if j1 + 1 < n \<and> lt (xs ! (j1 + 1)) (xs ! j1) then j1 + 1 else j1) in
        if \<not> lt (xs ! j) (xs ! i) then xs else heap_down lt (heap_Swap i j xs) j n)"
  by pat_completeness auto
termination
  by (relation "measure (\<lambda>(lt, xs, i, n). n - i)") (auto split: if_splits)

declare heap_up.simps [simp del] heap_down.simps [simp del]

definition heap_Push :: "('a \<Rightarrow> 'a \<Rightarrow> bool) \<Rightarrow> 'a \<Rightarrow> 'a list \<Rightarrow> 'a list" where
  "heap_Push lt x xs = heap_up lt (xs @ [x]) (length xs)"

definition heap_Pop :: "('a \<Rightarrow> 'a \<Rightarrow> bool) \<Rightarrow> 'a list \<Rightarrow> 'a \<times> 'a list" where
  "heap_Pop lt xs =
     (let n = length xs - 1; ys = heap_down lt (heap_Swap 0 n xs) 0 n in (ys ! n, take n ys))"

section \<open>The heap order\<close>

abbreviation parent :: "nat \<Rightarrow> nat" where
  "parent k \<equiv> (k - 1) div 2"

definition heap_ok :: "('a \<Rightarrow> 'b::linorder) \<Rightarrow> 'a list \<Rightarrow> nat \<Rightarrow> bool" where
  "heap_ok f xs n \<longleftrightarrow> (\<forall>k. 0 < k \<and> k < n \<longrightarrow> f (xs ! parent k) \<le> f (xs ! k))"

lemma length_heap_Swap [simp]: "length (heap_Swap i j xs) = length xs"
  by (simp add: heap_Swap_def)

lemma mset_heap_Swap [simp]: "i < length xs \<Longrightarrow> j < length xs \<Longrightarrow> mset (heap_Swap i j xs) = mset xs"
  by (simp add: heap_Swap_def mset_swap)

lemma set_heap_Swap: "i < length xs \<Longrightarrow> j < length xs \<Longrightarrow> set (heap_Swap i j xs) = set xs"
  using mset_eq_setD [OF mset_heap_Swap] by blast

lemma heap_Swap_nth:
  assumes "i < length xs" "j < length xs"
  shows "heap_Swap i j xs ! k = (if k = i then xs ! j else if k = j then xs ! i else xs ! k)"
  unfolding heap_Swap_def using assms by (cases "k = i"; cases "k = j") auto

lemma heap_root:
  assumes "heap_ok f xs n" "k < n"
  shows "f (xs ! 0) \<le> f (xs ! k)"
  using assms(2)
proof (induction k rule: less_induct)
  case (less k)
  show ?case
  proof (cases "k = 0")
    case False
    then have "parent k < k" by auto
    with less have "f (xs ! 0) \<le> f (xs ! parent k)" by simp
    also have "\<dots> \<le> f (xs ! k)" using assms(1) less.prems False by (simp add: heap_ok_def)
    finally show ?thesis .
  qed simp
qed

definition lt_of :: "('a \<Rightarrow> 'b::linorder) \<Rightarrow> ('a \<Rightarrow> 'a \<Rightarrow> bool) \<Rightarrow> 'a set \<Rightarrow> bool" where
  "lt_of f lt A \<longleftrightarrow> (\<forall>a \<in> A. \<forall>b \<in> A. lt a b \<longleftrightarrow> f a < f b)"

lemma lt_ofD: "lt_of f lt A \<Longrightarrow> a \<in> A \<Longrightarrow> b \<in> A \<Longrightarrow> lt a b \<longleftrightarrow> f a < f b"
  by (simp add: lt_of_def)

section \<open>Sifting up\<close>

definition up_inv :: "('a \<Rightarrow> 'b::linorder) \<Rightarrow> 'a list \<Rightarrow> nat \<Rightarrow> bool" where
  "up_inv f xs j \<longleftrightarrow> j < length xs \<and>
     (\<forall>k. 0 < k \<and> k < length xs \<and> k \<noteq> j \<longrightarrow> f (xs ! parent k) \<le> f (xs ! k)) \<and>
     (\<forall>k. 0 < k \<and> k < length xs \<and> parent k = j \<and> 0 < j \<longrightarrow> f (xs ! parent j) \<le> f (xs ! k))"

lemma up_inv_step:
  assumes "up_inv f xs j" "parent j \<noteq> j" "f (xs ! j) < f (xs ! parent j)"
  shows "up_inv f (heap_Swap (parent j) j xs) (parent j)"
proof -
  let ?i = "parent j" let ?ys = "heap_Swap ?i j xs"
  have j: "0 < j" "?i < j" "j < length xs" using assms(1,2) by (auto simp: up_inv_def)
  have I1: "f (xs ! parent k) \<le> f (xs ! k)" if "0 < k" "k < length xs" "k \<noteq> j" for k
    using assms(1) that by (simp add: up_inv_def)
  have I2: "f (xs ! ?i) \<le> f (xs ! k)" if "0 < k" "k < length xs" "parent k = j" for k
    using assms(1) that j by (simp add: up_inv_def)
  have nth: "?ys ! k = (if k = ?i then xs ! j else if k = j then xs ! ?i else xs ! k)" for k
    using j by (intro heap_Swap_nth) simp_all
  have "f (?ys ! parent k) \<le> f (?ys ! k)" if k: "0 < k" "k < length xs" "k \<noteq> ?i" for k
  proof (cases "k = j")
    case True
    show ?thesis unfolding True nth using assms(2,3) by auto
  next
    case False
    consider "parent k = j" | "parent k = ?i" "parent k \<noteq> j" | "parent k \<noteq> ?i" "parent k \<noteq> j" by blast
    then show ?thesis
    proof cases
      case 1
      then show ?thesis using I2 [OF k(1,2)] False k(3) j unfolding nth by simp
    next
      case 2
      then show ?thesis using I1 [OF k(1,2) False] assms(3) False k(3) unfolding nth by simp
    next
      case 3
      then show ?thesis using I1 [OF k(1,2) False] False k(3) unfolding nth by simp
    qed
  qed
  moreover have "f (?ys ! parent ?i) \<le> f (?ys ! k)" if k: "0 < k" "k < length xs" "parent k = ?i" "0 < ?i" for k
  proof -
    have p: "parent ?i < ?i" using k(4) by auto
    have up: "f (xs ! parent ?i) \<le> f (xs ! ?i)" using I1 [of ?i] k(4) j by simp
    have "k \<noteq> ?i" using k(1,3) by auto
    then show ?thesis
      using up I1 [OF k(1,2)] k(3) p j unfolding nth by (cases "k = j") auto
  qed
  ultimately show ?thesis using j by (simp add: up_inv_def)
qed

lemma heap_up_ok:
  "up_inv f xs j \<Longrightarrow> lt_of f lt (set xs) \<Longrightarrow>
     heap_ok f (heap_up lt xs j) (length xs) \<and> mset (heap_up lt xs j) = mset xs"
proof (induction lt xs j rule: heap_up.induct)
  case (1 lt xs j)
  have j: "j < length xs" "parent j < length xs" using 1(2) by (auto simp: up_inv_def)
  have lt: "lt (xs ! j) (xs ! parent j) \<longleftrightarrow> f (xs ! j) < f (xs ! parent j)"
    using j by (intro lt_ofD [OF 1(3)]) simp_all
  show ?case
  proof (cases "parent j = j \<or> \<not> lt (xs ! j) (xs ! parent j)")
    case True
    then have "heap_ok f xs (length xs)"
      using 1(2) lt unfolding heap_ok_def up_inv_def by (metis not_less)
    with True show ?thesis by (subst (1 2) heap_up.simps) (simp add: Let_def)
  next
    case False
    have "up_inv f (heap_Swap (parent j) j xs) (parent j)"
      using up_inv_step [OF 1(2)] False lt by simp
    from 1(1) [OF refl False this] 1(3) j False show ?thesis
      by (subst (1 2) heap_up.simps) (simp add: Let_def set_heap_Swap)
  qed
qed

section \<open>Sifting down\<close>

definition down_inv :: "('a \<Rightarrow> 'b::linorder) \<Rightarrow> 'a list \<Rightarrow> nat \<Rightarrow> nat \<Rightarrow> bool" where
  "down_inv f xs i n \<longleftrightarrow> n \<le> length xs \<and>
     (\<forall>k. 0 < k \<and> k < n \<and> parent k \<noteq> i \<longrightarrow> f (xs ! parent k) \<le> f (xs ! k)) \<and>
     (\<forall>k. 0 < k \<and> k < n \<and> parent k = i \<and> 0 < i \<longrightarrow> f (xs ! parent i) \<le> f (xs ! k))"

lemma children: "0 < k \<and> parent k = i \<longleftrightarrow> k = 2 * i + 1 \<or> k = 2 * i + 2"
  by auto

lemma down_inv_step:
  assumes "down_inv f xs i n" "0 < j" "j < n" "parent j = i" "f (xs ! j) < f (xs ! i)"
    "\<And>k. 0 < k \<Longrightarrow> k < n \<Longrightarrow> parent k = i \<Longrightarrow> f (xs ! j) \<le> f (xs ! k)"
  shows "down_inv f (heap_Swap i j xs) j n"
proof -
  let ?ys = "heap_Swap i j xs"
  have ij: "i < j" "j < length xs" using assms(1-4) by (auto simp: down_inv_def)
  have I1: "f (xs ! parent k) \<le> f (xs ! k)" if "0 < k" "k < n" "parent k \<noteq> i" for k
    using assms(1) that by (simp add: down_inv_def)
  have I2: "f (xs ! parent i) \<le> f (xs ! j)" if "0 < i" using assms(1-4) that by (auto simp: down_inv_def)
  have nth: "?ys ! k = (if k = i then xs ! j else if k = j then xs ! i else xs ! k)" for k
    using ij by (intro heap_Swap_nth) simp_all
  have "f (?ys ! parent k) \<le> f (?ys ! k)" if k: "0 < k" "k < n" "parent k \<noteq> j" for k
  proof (cases "parent k = i")
    case True
    then have "k \<noteq> i" using k(1) by auto
    then show ?thesis using True assms(5,6) k unfolding nth by auto
  next
    case False
    then have "k \<noteq> j" using assms(4) by auto
    show ?thesis
    proof (cases "k = i")
      case True
      then show ?thesis using I2 k False unfolding nth by simp
    next
      case False
      then show ?thesis using I1 [OF k(1,2) \<open>parent k \<noteq> i\<close>] \<open>k \<noteq> j\<close> \<open>parent k \<noteq> i\<close> k(3) unfolding nth by simp
    qed
  qed
  moreover have "f (?ys ! parent j) \<le> f (?ys ! k)" if k: "0 < k" "k < n" "parent k = j" for k
  proof -
    have "k \<noteq> j" "k \<noteq> i" "parent k \<noteq> i" using k(1,3) ij by auto
    then show ?thesis using I1 [OF k(1,2)] k(3) assms(4) ij unfolding nth by auto
  qed
  ultimately show ?thesis using assms(1) by (simp add: down_inv_def)
qed

lemma heap_down_ok:
  "down_inv f xs i n \<Longrightarrow> lt_of f lt (set xs) \<Longrightarrow>
     heap_ok f (heap_down lt xs i n) n \<and> mset (heap_down lt xs i n) = mset xs \<and>
     (\<forall>k. n \<le> k \<longrightarrow> heap_down lt xs i n ! k = xs ! k)"
proof (induction lt xs i n rule: heap_down.induct)
  case (1 lt xs i n)
  let ?j1 = "2 * i + 1" let ?j = "if ?j1 + 1 < n \<and> lt (xs ! (?j1 + 1)) (xs ! ?j1) then ?j1 + 1 else ?j1"
  have n: "n \<le> length xs" using 1(2) by (simp add: down_inv_def)
  show ?case
  proof (cases "n \<le> ?j1")
    case True
    then have "heap_ok f xs n" using 1(2) unfolding heap_ok_def down_inv_def by (metis children le_less_trans not_less add.assoc le_add1 one_add_one)
    with True show ?thesis by (subst (1 2 3) heap_down.simps) simp
  next
    case False
    have j: "0 < ?j" "?j < n" "parent ?j = i" "i < n" using False by auto
    have lt: "lt (xs ! a) (xs ! b) \<longleftrightarrow> f (xs ! a) < f (xs ! b)" if "a < n" "b < n" for a b
      using that n by (intro lt_ofD [OF 1(3)]) simp_all
    have small: "f (xs ! ?j) \<le> f (xs ! k)" if "0 < k" "k < n" "parent k = i" for k
    proof -
      have "k = ?j1 \<or> k = ?j1 + 1" using that children [of k i] by simp
      then show ?thesis using that(2) lt [of "?j1 + 1" ?j1] False by (auto simp: not_less)
    qed
    show ?thesis
    proof (cases "lt (xs ! ?j) (xs ! i)")
      case True
      have "down_inv f (heap_Swap i ?j xs) ?j n"
        using down_inv_step [OF 1(2) j(1-3) _ small] lt [OF j(2,4)] True by blast
      moreover have "set (heap_Swap i ?j xs) = set xs" using j n by (intro set_heap_Swap) simp_all
      ultimately have IH: "heap_ok f (heap_down lt (heap_Swap i ?j xs) ?j n) n \<and>
          mset (heap_down lt (heap_Swap i ?j xs) ?j n) = mset (heap_Swap i ?j xs) \<and>
          (\<forall>k. n \<le> k \<longrightarrow> heap_down lt (heap_Swap i ?j xs) ?j n ! k = heap_Swap i ?j xs ! k)"
        using 1(1) [OF refl False refl] True 1(3) by simp
      moreover have "heap_down lt xs i n = heap_down lt (heap_Swap i ?j xs) ?j n"
        by (subst heap_down.simps) (simp only: Let_def False True if_False not_True_eq_False)
      moreover have "mset (heap_Swap i ?j xs) = mset xs" using j n by (intro mset_heap_Swap) simp_all
      moreover have "heap_Swap i ?j xs ! k = xs ! k" if "n \<le> k" for k
        using heap_Swap_nth [of i xs ?j k] j n that by auto
      ultimately show ?thesis by simp
    next
      case no: False
      have "heap_ok f xs n"
        unfolding heap_ok_def
      proof (intro allI impI)
        fix k assume k: "0 < k \<and> k < n"
        show "f (xs ! parent k) \<le> f (xs ! k)"
        proof (cases "parent k = i")
          case True
          have "f (xs ! i) \<le> f (xs ! ?j)" using no lt [OF j(2,4)] by (simp only: not_less)
          also have "\<dots> \<le> f (xs ! k)" using small k True by blast
          finally show ?thesis using True by simp
        next
          case False
          then show ?thesis using 1(2) k by (simp add: down_inv_def)
        qed
      qed
      moreover have "heap_down lt xs i n = xs" by (subst heap_down.simps) (simp only: Let_def False no if_False if_True not_False_eq_True)
      ultimately show ?thesis by simp
    qed
  qed
qed

section \<open>Push and Pop\<close>

lemma heap_Push_ok:
  assumes "heap_ok f xs (length xs)" "lt_of f lt (insert x (set xs))"
  shows "heap_ok f (heap_Push lt x xs) (length (heap_Push lt x xs)) \<and> mset (heap_Push lt x xs) = add_mset x (mset xs)"
proof -
  have "up_inv f (xs @ [x]) (length xs)"
    unfolding up_inv_def
  proof (intro conjI allI impI)
    fix k assume k: "0 < k \<and> k < length (xs @ [x]) \<and> k \<noteq> length xs"
    then have "parent k < k" "k < length xs" by auto
    with k assms(1) show "f ((xs @ [x]) ! parent k) \<le> f ((xs @ [x]) ! k)" by (simp add: nth_append heap_ok_def)
  next
    fix k assume k: "0 < k \<and> k < length (xs @ [x]) \<and> parent k = length xs \<and> 0 < length xs"
    then have "parent k < k" by auto
    with k show "f ((xs @ [x]) ! parent (length xs)) \<le> f ((xs @ [x]) ! k)" by simp
  qed simp
  from heap_up_ok [OF this] assms(2)
  have "heap_ok f (heap_Push lt x xs) (length (xs @ [x]))" "mset (heap_Push lt x xs) = mset (xs @ [x])"
    by (simp_all add: heap_Push_def)
  moreover from this(2) have "length (heap_Push lt x xs) = length (xs @ [x])" by (rule mset_eq_length)
  ultimately show ?thesis by simp
qed

lemma heap_Pop_ok:
  assumes "heap_ok f xs (length xs)" "lt_of f lt (set xs)" "xs \<noteq> []" "heap_Pop lt xs = (x, ys)"
  shows "x = xs ! 0 \<and> heap_ok f ys (length ys) \<and> mset xs = add_mset x (mset ys)"
proof -
  let ?n = "length xs - 1" let ?ss = "heap_Swap 0 ?n xs" let ?ds = "heap_down lt ?ss 0 ?n"
  have n: "?n < length xs" "0 < length xs" using assms(3) by simp_all
  have nth: "?ss ! k = (if k = 0 then xs ! ?n else if k = ?n then xs ! 0 else xs ! k)" for k
    using n by (intro heap_Swap_nth)
  have "down_inv f ?ss 0 ?n"
    unfolding down_inv_def
  proof (intro conjI allI impI)
    fix k assume k: "0 < k \<and> k < ?n \<and> parent k \<noteq> 0"
    then have "parent k < k" by auto
    with k have "?ss ! parent k = xs ! parent k" "?ss ! k = xs ! k" unfolding nth by auto
    moreover have "k < length xs" using k by linarith
    ultimately show "f (?ss ! parent k) \<le> f (?ss ! k)" using k assms(1) by (simp add: heap_ok_def)
  qed simp_all
  moreover have "set ?ss = set xs" using n by (intro set_heap_Swap)
  ultimately have d: "heap_ok f ?ds ?n" "mset ?ds = mset ?ss" "\<forall>k. ?n \<le> k \<longrightarrow> ?ds ! k = ?ss ! k"
    using heap_down_ok [of f ?ss 0 ?n lt] assms(2) by simp_all
  have len: "length ?ds = length xs" using mset_eq_length [OF d(2)] by simp
  have x: "x = ?ds ! ?n" "ys = take ?n ?ds" using assms(4) by (simp_all add: heap_Pop_def Let_def)
  have "?ds ! ?n = ?ss ! ?n" using d(3) by blast
  also have "\<dots> = xs ! 0" unfolding nth by auto
  finally have "x = xs ! 0" using x(1) by simp
  moreover have "heap_ok f ys (length ys)" using d(1) len n unfolding x(2) heap_ok_def by auto
  moreover have "?ds = ys @ [x]"
    using len n x by (metis Suc_diff_1 Suc_eq_plus1 le_refl take_Suc_conv_app_nth take_all)
  then have "mset ?ds = add_mset x (mset ys)" by simp
  then have "mset xs = add_mset x (mset ys)" using d(2) n mset_heap_Swap [of 0 xs ?n] by simp
  ultimately show ?thesis by simp
qed

end
