(* ===== verification/MergeIterator.thy ===== *)
theory MergeIterator
  imports Keys GoHeap "HOL-Library.Monad_Syntax"
begin

text \<open>
  The merge iterator of \<^verbatim>\<open>internal/lsm/merge_iterator.go\<close>.  The Go interface \<^verbatim>\<open>Iterator\<close> is the record of
  its methods, over iterators \<open>'it\<close> and the state \<open>'s\<close> they share (the block cache).  A heap item holds
  an iterator by reference: it is the index of the iterator among \<open>mi_iters\<close>, which is also its rank.
  \<open>Seek\<close> and the loop of \<open>Next\<close> may not return: \<^term>\<open>None\<close>.
\<close>

section \<open>Model\<close>

record ('it, 's) iter_ops =
  io_Valid :: "'it \<Rightarrow> bool"
  io_Key :: "'it \<Rightarrow> bytes"
  io_Value :: "'it \<Rightarrow> bytes option"
  io_Next :: "'it \<Rightarrow> 's \<Rightarrow> 'it \<times> 's"
  io_SeekToFirst :: "'it \<Rightarrow> 's \<Rightarrow> 'it \<times> 's"
  io_Seek :: "bytes \<Rightarrow> 'it \<Rightarrow> 's \<Rightarrow> ('it \<times> 's) option"

record 'it MergeIterator =
  mi_iters :: "'it list"
  mi_hp :: "nat list"
  mi_currentKey :: bytes
  mi_currentVal :: "bytes option"
  mi_valid :: bool

definition iterHeap_Less :: "('it, 's) iter_ops \<Rightarrow> 'it list \<Rightarrow> nat \<Rightarrow> nat \<Rightarrow> bool" where
  "iterHeap_Less ops its i j =
     (let cmp = CompareKeys (io_Key ops (its ! i)) (io_Key ops (its ! j))
      in if cmp = 0 then i < j else cmp < 0)"

definition NewMergeIterator :: "'it list \<Rightarrow> 'it MergeIterator" where
  "NewMergeIterator its =
     \<lparr>mi_iters = its, mi_hp = [], mi_currentKey = [], mi_currentVal = None, mi_valid = False\<rparr>"

definition findSmallest :: "('it, 's) iter_ops \<Rightarrow> 'it MergeIterator \<Rightarrow> 'it MergeIterator" where
  "findSmallest ops m =
     (case mi_hp m of
        [] \<Rightarrow> m\<lparr>mi_valid := False\<rparr>
      | i # _ \<Rightarrow> m\<lparr>mi_currentKey := io_Key ops (mi_iters m ! i),
                       mi_currentVal := io_Value ops (mi_iters m ! i), mi_valid := True\<rparr>)"

text \<open>The loop that positions the iterators \<open>is\<close> and pushes the valid ones.\<close>

fun fill ::
  "('it, 's) iter_ops \<Rightarrow> ('it \<Rightarrow> 's \<Rightarrow> ('it \<times> 's) option) \<Rightarrow> nat list \<Rightarrow> 'it list \<Rightarrow> nat list \<Rightarrow> 's \<Rightarrow>
     ('it list \<times> nat list \<times> 's) option" where
  "fill ops seek [] its hp s = Some (its, hp, s)"
| "fill ops seek (i # is) its hp s = do {
     (it, s) \<leftarrow> seek (its ! i) s;
     let its = its[i := it];
     let hp = (if io_Valid ops it then heap_Push (iterHeap_Less ops its) i hp else hp);
     fill ops seek is its hp s }"

definition mi_position ::
  "('it, 's) iter_ops \<Rightarrow> ('it \<Rightarrow> 's \<Rightarrow> ('it \<times> 's) option) \<Rightarrow> 'it MergeIterator \<Rightarrow> 's \<Rightarrow> ('it MergeIterator \<times> 's) option" where
  "mi_position ops seek m s = do {
     (its, hp, s) \<leftarrow> fill ops seek [0..<length (mi_iters m)] (mi_iters m) [] s;
     Some (findSmallest ops (m\<lparr>mi_iters := its, mi_hp := hp\<rparr>), s) }"

definition mi_SeekToFirst :: "('it, 's) iter_ops \<Rightarrow> 'it MergeIterator \<Rightarrow> 's \<Rightarrow> ('it MergeIterator \<times> 's) option" where
  "mi_SeekToFirst ops m s = mi_position ops (\<lambda>it s. Some (io_SeekToFirst ops it s)) m s"

definition mi_Seek :: "('it, 's) iter_ops \<Rightarrow> bytes \<Rightarrow> 'it MergeIterator \<Rightarrow> 's \<Rightarrow> ('it MergeIterator \<times> 's) option" where
  "mi_Seek ops target m s = mi_position ops (io_Seek ops target) m s"

partial_function (option) next_loop ::
  "('it, 's) iter_ops \<Rightarrow> bytes \<Rightarrow> 'it list \<Rightarrow> nat list \<Rightarrow> 's \<Rightarrow> ('it list \<times> nat list \<times> 's) option" where
  "next_loop ops key its hp s =
     (if hp \<noteq> [] \<and> io_Key ops (its ! hd hp) = key
      then case heap_Pop (iterHeap_Less ops its) hp of
             (i, hp) \<Rightarrow>
               (case io_Next ops (its ! i) s of
                  (it, s) \<Rightarrow>
                    next_loop ops key (its[i := it])
                      (if io_Valid ops it then heap_Push (iterHeap_Less ops (its[i := it])) i hp else hp) s)
      else Some (its, hp, s))"

definition mi_Next :: "('it, 's) iter_ops \<Rightarrow> 'it MergeIterator \<Rightarrow> 's \<Rightarrow> ('it MergeIterator \<times> 's) option" where
  "mi_Next ops m s =
     (if \<not> mi_valid m then Some (m, s)
      else do {
        (its, hp, s) \<leftarrow> next_loop ops (mi_currentKey m) (mi_iters m) (mi_hp m) s;
        Some (findSmallest ops (m\<lparr>mi_iters := its, mi_hp := hp\<rparr>), s) })"

section \<open>Reference\<close>

text \<open>
  The merge by definition: insert the entries of the oldest table first, then those of the newer
  ones, each replacing what is there under its key.
\<close>

definition merge_ref :: "entry list list \<Rightarrow> entry list" where
  "merge_ref yss = foldr (\<lambda>ys acc. fold (\<lambda>(k, v). upd_by CompareKeys k v) ys acc) yss []"

text \<open>The value of a key in the first table that has it.\<close>

definition first_map :: "entry list list \<Rightarrow> bytes \<Rightarrow> bytes option option" where
  "first_map yss k = foldr (\<lambda>ys r. case map_of ys k of None \<Rightarrow> r | Some v \<Rightarrow> Some v) yss None"

lemma merge_ref_spec:
  "\<forall>ys \<in> set yss. asc_by CompareKeys ys \<Longrightarrow>
     asc_by CompareKeys (merge_ref yss) \<and> (\<forall>k. map_of (merge_ref yss) k = first_map yss k)"
proof (induction yss)
  case Nil
  then show ?case by (simp add: merge_ref_def first_map_def asc_by_def)
next
  case (Cons ys yss)
  then have asc: "asc_by CompareKeys (merge_ref yss)" and mo: "\<And>k. map_of (merge_ref yss) k = first_map yss k"
    by simp_all
  have step: "merge_ref (ys # yss) = fold (\<lambda>(k, v). upd_by CompareKeys k v) ys (merge_ref yss)"
    by (simp add: merge_ref_def)
  have "map_of (rev ys) = map_of ys"
    using ck.asc_by_distinct [of ys] Cons.prems by (subst map_of_inject_set) (simp_all flip: rev_map)
  then show ?case
    unfolding step using ck.fold_upd_by [OF asc, of ys] mo
    by (auto simp: first_map_def map_add_def split: option.split)
qed

lemma first_map_eqI:
  "i < length yss \<Longrightarrow> (\<And>j. j < i \<Longrightarrow> map_of (yss ! j) k = None) \<Longrightarrow> map_of (yss ! i) k = Some v \<Longrightarrow>
     first_map yss k = Some v"
proof (induction yss arbitrary: i)
  case (Cons ys yss)
  show ?case
  proof (cases i)
    case 0
    then show ?thesis using Cons.prems by (simp add: first_map_def)
  next
    case (Suc i')
    have "map_of ys k = None" using Cons.prems(2) [of 0] Suc by simp
    moreover have "first_map yss k = Some v"
    proof (rule Cons.IH)
      show "i' < length yss" using Cons.prems(1) Suc by simp
      show "map_of (yss ! j) k = None" if "j < i'" for j using Cons.prems(2) [of "Suc j"] Suc that by simp
      show "map_of (yss ! i') k = Some v" using Cons.prems(3) Suc by simp
    qed
    ultimately show ?thesis by (simp add: first_map_def)
  qed
qed simp

lemma first_map_None: "first_map yss k = None \<longleftrightarrow> (\<forall>ys \<in> set yss. map_of ys k = None)"
  by (induction yss) (auto simp: first_map_def split: option.split)

lemma first_map_cong:
  "length yss = length zss \<Longrightarrow> (\<And>i. i < length yss \<Longrightarrow> map_of (yss ! i) k = map_of (zss ! i) k) \<Longrightarrow>
     first_map yss k = first_map zss k"
proof (induction yss zss rule: list_induct2')
  case (4 y yss z zss)
  have "map_of y k = map_of z k" using 4(3) [of 0] by simp
  moreover have "first_map yss k = first_map zss k"
    using 4(1,2) 4(3) [of "Suc _"] by simp
  ultimately show ?case by (simp add: first_map_def split: option.split)
qed simp_all

definition drop_key :: "bytes \<Rightarrow> entry list \<Rightarrow> entry list" where
  "drop_key key ys = (case ys of [] \<Rightarrow> [] | y # ys' \<Rightarrow> if fst y = key then ys' else ys)"

lemma drop_key_asc:
  assumes "asc_by CompareKeys ys" "ys \<noteq> [] \<Longrightarrow> kord key \<le> kord (fst (hd ys))"
  shows "map_of (drop_key key ys) k = (if k = key then None else map_of ys k)" "drop_key key (drop_key key ys) = drop_key key ys"
proof -
  have gt: "kord key < kord (fst p)" if "p \<in> set (drop_key key ys)" for p
    using assms that by (cases ys) (auto simp: drop_key_def ck.asc_by_Cons ck_ord split: if_splits dest: le_imp_less_or_eq)
  show "map_of (drop_key key ys) k = (if k = key then None else map_of ys k)"
  proof (cases "k = key")
    case True
    then show ?thesis using gt by (force simp: map_of_eq_None_iff)
  next
    case False
    then show ?thesis by (auto simp: drop_key_def split: list.split)
  qed
  have "fst p \<noteq> key" if "p \<in> set (drop_key key ys)" for p using gt [OF that] by auto
  then show "drop_key key (drop_key key ys) = drop_key key ys"
    by (cases "drop_key key ys") (auto simp: drop_key_def [of key "_ # _"] drop_key_def [of key "[]"])
qed

section \<open>The heap of iterators\<close>

definition front :: "('it, 's) iter_ops \<Rightarrow> 'it list \<Rightarrow> nat \<Rightarrow> (bytes \<times> bytes) \<times> nat" where
  "front ops its i = (kord (io_Key ops (its ! i)), i)"

definition heap_of :: "('it, 's) iter_ops \<Rightarrow> 'it list \<Rightarrow> nat list \<Rightarrow> nat set \<Rightarrow> bool" where
  "heap_of ops its hp A \<longleftrightarrow> distinct hp \<and> set hp = A \<and> heap_ok (front ops its) hp (length hp)"

lemma Less_front: "lt_of (front ops its) (iterHeap_Less ops its) A"
  by (auto simp: lt_of_def iterHeap_Less_def front_def Let_def ck_ord less_le)

lemma heap_of_push:
  assumes "heap_of ops its hp A" "i \<notin> A"
  shows "heap_of ops its (heap_Push (iterHeap_Less ops its) i hp) (insert i A)"
proof -
  let ?hp = "heap_Push (iterHeap_Less ops its) i hp"
  have h: "heap_ok (front ops its) ?hp (length ?hp)" "mset ?hp = add_mset i (mset hp)"
    using heap_Push_ok [OF _ Less_front, of ops its hp i] assms(1) by (simp_all add: heap_of_def)
  have "mset ?hp = mset (i # hp)" using h(2) by simp
  then have "set ?hp = set (i # hp)" "distinct ?hp \<longleftrightarrow> distinct (i # hp)"
    by (rule mset_eq_setD, rule mset_eq_imp_distinct_iff)
  with h(1) assms show ?thesis by (simp add: heap_of_def)
qed

lemma heap_of_pop:
  assumes "heap_of ops its hp A" "hp \<noteq> []" "heap_Pop (iterHeap_Less ops its) hp = (i, hp')"
  shows "i = hd hp \<and> i \<in> A \<and> heap_of ops its hp' (A - {i})"
proof -
  have h: "i = hp ! 0" "heap_ok (front ops its) hp' (length hp')" "mset hp = mset (i # hp')"
    using heap_Pop_ok [OF _ Less_front assms(2,3)] assms(1) by (simp_all add: heap_of_def)
  have "set hp = set (i # hp')" "distinct hp \<longleftrightarrow> distinct (i # hp')"
    using mset_eq_setD [OF h(3)] mset_eq_imp_distinct_iff [OF h(3)] by blast+
  with h(1,2) assms(1,2) show ?thesis by (auto simp: heap_of_def hd_conv_nth)
qed

lemma heap_of_update:
  assumes "heap_of ops its hp A" "i \<notin> A"
  shows "heap_of ops (its[i := it]) hp A"
proof -
  have "front ops (its[i := it]) (hp ! k) = front ops its (hp ! k)" if "k < length hp" for k
  proof -
    have "hp ! k \<noteq> i" using assms that by (metis heap_of_def nth_mem)
    then show ?thesis by (simp add: front_def)
  qed
  then show ?thesis using assms(1) by (fastforce simp: heap_of_def heap_ok_def)
qed

lemma heap_of_min:
  assumes "heap_of ops its hp A" "hp \<noteq> []" "j \<in> A"
  shows "front ops its (hd hp) \<le> front ops its j"
proof -
  obtain k where "k < length hp" "j = hp ! k" using assms(1,3) by (auto simp: heap_of_def in_set_conv_nth)
  then show ?thesis using heap_root [of "front ops its" hp "length hp" k] assms(1,2) by (simp add: heap_of_def hd_conv_nth)
qed

lemma heap_of_empty: "heap_of ops its [] {}"
  by (simp add: heap_of_def heap_ok_def)

section \<open>The contract of an iterator\<close>

text \<open>
  \<open>over it es\<close>: the iterator runs over the ascending entries \<open>es\<close>.  \<open>rep it es xs\<close>: it is positioned with
  the entries \<open>xs\<close> left, the current one first.  \<open>ok\<close> is what the shared state must satisfy.
\<close>

locale entry_iterator =
  fixes ops :: "('it, 's) iter_ops"
    and over :: "'it \<Rightarrow> entry list \<Rightarrow> bool"
    and rep :: "'it \<Rightarrow> entry list \<Rightarrow> entry list \<Rightarrow> bool"
    and ok :: "'s \<Rightarrow> bool"
  assumes over_asc: "over it es \<Longrightarrow> asc_by CompareKeys es"
    and rep_over: "rep it es xs \<Longrightarrow> over it es"
    and rep_suffix: "rep it es xs \<Longrightarrow> \<exists>pre. es = pre @ xs"
    and rep_Valid: "rep it es xs \<Longrightarrow> io_Valid ops it \<longleftrightarrow> xs \<noteq> []"
    and rep_entry: "rep it es (x # xs) \<Longrightarrow> x = (io_Key ops it, io_Value ops it)"
    and rep_Next: "rep it es (x # xs) \<Longrightarrow> ok s \<Longrightarrow> \<exists>it' s'. io_Next ops it s = (it', s') \<and> rep it' es xs \<and> ok s'"
    and over_First: "over it es \<Longrightarrow> ok s \<Longrightarrow> \<exists>it' s'. io_SeekToFirst ops it s = (it', s') \<and> rep it' es es \<and> ok s'"
    and over_Seek: "over it es \<Longrightarrow> ok s \<Longrightarrow> \<exists>it' s'. io_Seek ops t it s = Some (it', s') \<and>
      rep it' es (dropWhile (\<lambda>e. CompareKeys (fst e) t < 0) es) \<and> ok s'"
begin

lemma rep_asc: "rep it es xs \<Longrightarrow> asc_by CompareKeys xs"
  using rep_suffix over_asc [OF rep_over] by (metis ck.asc_by_append)

lemma rep_head: "rep it es xs \<Longrightarrow> xs \<noteq> [] \<Longrightarrow> hd xs = (io_Key ops it, io_Value ops it)"
  using rep_entry by (cases xs) auto

lemma rep_ge_head:
  assumes "rep it es xs" "map_of xs k = Some v"
  shows "kord (io_Key ops it) \<le> kord k" "io_Key ops it \<noteq> k \<Longrightarrow> map_of (tl xs) k = Some v"
proof -
  obtain x xs' where xs: "xs = x # xs'" using assms(2) by (cases xs) auto
  have x: "x = (io_Key ops it, io_Value ops it)" using rep_entry assms(1) xs by blast
  have "asc_by CompareKeys (x # xs')" using rep_asc [OF assms(1)] xs by simp
  then show "kord (io_Key ops it) \<le> kord k"
    using assms(2) xs x by (auto simp: ck.asc_by_Cons ck_ord less_imp_le dest!: map_of_SomeD split: if_splits)
  show "map_of (tl xs) k = Some v" if "io_Key ops it \<noteq> k" using assms(2) xs x that by simp
qed

lemma fill_ok:
  assumes "\<And>it es s. over it es \<Longrightarrow> ok s \<Longrightarrow> \<exists>it' s'. seek it s = Some (it', s') \<and> rep it' es (g es) \<and> ok s'"
    "distinct is" "set is \<inter> D = {}" "\<forall>i \<in> set is \<union> D. i < length its"
    "\<forall>i \<in> set is. over (its ! i) (ess ! i)" "\<forall>i \<in> D. rep (its ! i) (ess ! i) (g (ess ! i))"
    "heap_of ops its hp {i \<in> D. g (ess ! i) \<noteq> []}" "ok s"
  shows "\<exists>its' hp' s'. fill ops seek is its hp s = Some (its', hp', s') \<and> length its' = length its \<and>
    (\<forall>i \<in> set is \<union> D. rep (its' ! i) (ess ! i) (g (ess ! i))) \<and>
    heap_of ops its' hp' {i \<in> set is \<union> D. g (ess ! i) \<noteq> []} \<and> ok s'"
  using assms(2-)
proof (induction "is" arbitrary: its hp s D)
  case Nil
  then show ?case by simp
next
  case (Cons i "is")
  obtain it s1 where it: "seek (its ! i) s = Some (it, s1)" "rep it (ess ! i) (g (ess ! i))" "ok s1"
    using assms(1) Cons.prems(4,7) by (metis list.set_intros(1))
  let ?its = "its[i := it]"
  let ?hp = "if io_Valid ops it then heap_Push (iterHeap_Less ops ?its) i hp else hp"
  have i: "i < length its" "i \<notin> D" "i \<notin> set is" using Cons.prems(1-3) by auto
  have h0: "heap_of ops ?its hp {j \<in> D. g (ess ! j) \<noteq> []}" using Cons.prems(6) i(2) by (intro heap_of_update) auto
  have heap: "heap_of ops ?its ?hp {j \<in> insert i D. g (ess ! j) \<noteq> []}"
  proof (cases "g (ess ! i) = []")
    case True
    then have "{j \<in> insert i D. g (ess ! j) \<noteq> []} = {j \<in> D. g (ess ! j) \<noteq> []}" by auto
    then show ?thesis using h0 True rep_Valid [OF it(2)] by simp
  next
    case False
    then have "{j \<in> insert i D. g (ess ! j) \<noteq> []} = insert i {j \<in> D. g (ess ! j) \<noteq> []}" by auto
    then show ?thesis using heap_of_push [OF h0, of i] i(2) False rep_Valid [OF it(2)] by simp
  qed
  have "\<exists>its' hp' s'. fill ops seek is ?its ?hp s1 = Some (its', hp', s') \<and> length its' = length ?its \<and>
    (\<forall>j \<in> set is \<union> insert i D. rep (its' ! j) (ess ! j) (g (ess ! j))) \<and>
    heap_of ops its' hp' {j \<in> set is \<union> insert i D. g (ess ! j) \<noteq> []} \<and> ok s'"
  proof (rule Cons.IH)
    show "\<forall>j \<in> set is. over (?its ! j) (ess ! j)" using Cons.prems(4) i(3)
      by (metis list.set_intros(2) nth_list_update_neq)
    show "\<forall>j \<in> insert i D. rep (?its ! j) (ess ! j) (g (ess ! j))"
      using Cons.prems(5) i(1,2) it(2) by (auto simp: nth_list_update)
  qed (use Cons.prems(1-3) heap it(3) in auto)
  then show ?case using it(1) by (simp add: Let_def)
qed

text \<open>All iterators positioned, with \<open>yss\<close> left, and the heap holding those that are not at their end.\<close>

definition mset_at :: "'it list \<Rightarrow> nat list \<Rightarrow> entry list list \<Rightarrow> entry list list \<Rightarrow> bool" where
  "mset_at its hp ess yss \<longleftrightarrow> length ess = length its \<and> length yss = length its \<and>
     (\<forall>i < length its. rep (its ! i) (ess ! i) (yss ! i)) \<and>
     heap_of ops its hp {i. i < length its \<and> yss ! i \<noteq> []}"

lemma mset_at_top:
  assumes "mset_at its hp ess yss" "hp \<noteq> []"
  shows "hd hp < length its" "yss ! hd hp = (io_Key ops (its ! hd hp), io_Value ops (its ! hd hp)) # tl (yss ! hd hp)"
proof -
  have "hd hp \<in> set hp" using assms(2) by simp
  then have i: "hd hp < length its" "yss ! hd hp \<noteq> []" using assms(1) by (auto simp: mset_at_def heap_of_def)
  then show "hd hp < length its" by simp
  have "rep (its ! hd hp) (ess ! hd hp) (yss ! hd hp)" using assms(1) i by (simp add: mset_at_def)
  from rep_head [OF this i(2)] show "yss ! hd hp = (io_Key ops (its ! hd hp), io_Value ops (its ! hd hp)) # tl (yss ! hd hp)"
    using i(2) by (metis list.collapse)
qed

lemma next_step:
  assumes "mset_at its hp ess yss" "hp \<noteq> []" "ok s"
    "heap_Pop (iterHeap_Less ops its) hp = (i, hp1)" "io_Next ops (its ! i) s = (it, s1)"
    "hp2 = (if io_Valid ops it then heap_Push (iterHeap_Less ops (its[i := it])) i hp1 else hp1)"
  shows "i = hd hp \<and> mset_at (its[i := it]) hp2 ess (yss[i := tl (yss ! i)]) \<and> ok s1"
proof -
  let ?A = "{j. j < length its \<and> yss ! j \<noteq> []}" let ?yss = "yss[i := tl (yss ! i)]" let ?its = "its[i := it]"
  have "heap_of ops its hp ?A" using assms(1) by (simp add: mset_at_def)
  from heap_of_pop [OF this assms(2,4)] have i: "i = hd hp" "i \<in> ?A" and h1: "heap_of ops its hp1 (?A - {i})" by blast+
  have len: "length ess = length its" "length yss = length its" using assms(1) by (simp_all add: mset_at_def)
  have ri: "rep (its ! i) (ess ! i) ((io_Key ops (its ! i), io_Value ops (its ! i)) # tl (yss ! i))"
    using assms(1) i mset_at_top(2) [OF assms(1,2)] by (auto simp: mset_at_def)
  have r: "rep it (ess ! i) (tl (yss ! i))" "ok s1" using rep_Next [OF ri assms(3)] assms(5) by auto
  have h2: "heap_of ops ?its hp1 (?A - {i})" using h1 by (rule heap_of_update) simp
  have "heap_of ops ?its hp2 {j. j < length ?its \<and> ?yss ! j \<noteq> []}"
  proof (cases "tl (yss ! i) = []")
    case True
    then have "{j. j < length ?its \<and> ?yss ! j \<noteq> []} = ?A - {i}" using i(2) len by (auto simp: nth_list_update)
    then show ?thesis using h2 assms(6) rep_Valid [OF r(1)] True by simp
  next
    case False
    then have "{j. j < length ?its \<and> ?yss ! j \<noteq> []} = insert i (?A - {i})" using i(2) len by (auto simp: nth_list_update)
    then show ?thesis using heap_of_push [OF h2, of i] assms(6) rep_Valid [OF r(1)] False by simp
  qed
  moreover have "\<forall>j < length ?its. rep (?its ! j) (ess ! j) (?yss ! j)"
    using assms(1) r(1) i(2) len by (auto simp: nth_list_update mset_at_def)
  ultimately show ?thesis using i(1) len r(2) by (simp add: mset_at_def)
qed

lemma next_loop_ok:
  assumes "mset_at its hp ess yss" "ok s" "\<And>i. i < length its \<Longrightarrow> yss ! i \<noteq> [] \<Longrightarrow> kord key \<le> kord (fst (hd (yss ! i)))"
  shows "\<exists>its' hp' s'. next_loop ops key its hp s = Some (its', hp', s') \<and> length its' = length its \<and>
    mset_at its' hp' ess (map (drop_key key) yss) \<and> ok s'"
  using assms
proof (induction "card {i. i < length its \<and> yss ! i \<noteq> [] \<and> fst (hd (yss ! i)) = key}" arbitrary: its hp s yss rule: less_induct)
  case less
  note at = less.prems(1)
  have len: "length yss = length its" using at by (simp add: mset_at_def)
  have asc: "asc_by CompareKeys (yss ! i)" if "i < length its" for i
    using at that rep_asc by (auto simp: mset_at_def)
  show ?case
  proof (cases "hp \<noteq> [] \<and> io_Key ops (its ! hd hp) = key")
    case True
    obtain i hp1 where p: "heap_Pop (iterHeap_Less ops its) hp = (i, hp1)" by fastforce
    obtain it s1 where n: "io_Next ops (its ! i) s = (it, s1)" by fastforce
    define hp2 where "hp2 = (if io_Valid ops it then heap_Push (iterHeap_Less ops (its[i := it])) i hp1 else hp1)"
    have st: "i = hd hp" "mset_at (its[i := it]) hp2 ess (yss[i := tl (yss ! i)])" "ok s1"
      using next_step [OF at _ less.prems(2) p n hp2_def] True by blast+
    have top: "i < length its" "yss ! i = (key, io_Value ops (its ! i)) # tl (yss ! i)"
      using mset_at_top [OF at] True st(1) by auto
    have gt: "kord key < kord (fst (hd (tl (yss ! i))))" if "tl (yss ! i) \<noteq> []"
    proof -
      have "asc_by CompareKeys ((key, io_Value ops (its ! i)) # tl (yss ! i))" using asc [OF top(1)] top(2) by simp
      then show ?thesis using that by (auto simp: ck.asc_by_Cons ck_ord)
    qed
    let ?K = "\<lambda>its yss. {i. i < length (its :: 'it list) \<and> yss ! i \<noteq> [] \<and> fst (hd (yss ! i)) = key}"
    let ?yss = "yss[i := tl (yss ! i)]"
    have "?K (its[i := it]) ?yss \<subseteq> ?K its yss - {i}"
      using gt top(1) len by (auto simp: nth_list_update split: if_splits)
    moreover have "i \<in> ?K its yss" using top by (metis (mono_tags, lifting) fst_conv list.distinct(1) list.sel(1) mem_Collect_eq)
    ultimately have card: "card (?K (its[i := it]) ?yss) < card (?K its yss)"
      by (intro psubset_card_mono) auto
    have ge: "kord key \<le> kord (fst (hd (?yss ! j)))" if "j < length (its[i := it])" "?yss ! j \<noteq> []" for j
      using that gt less.prems(3) top(1) len by (cases "j = i") (auto intro: less_imp_le)
    from less.hyps [OF card st(2,3) ge] obtain its' hp' s' where
      IH: "next_loop ops key (its[i := it]) hp2 s1 = Some (its', hp', s')"
        "length its' = length (its[i := it])" "mset_at its' hp' ess (map (drop_key key) ?yss)" "ok s'" by blast
    obtain v t where yi: "yss ! i = (key, v) # t" using top(2) by blast
    then have "drop_key key (yss ! i) = tl (yss ! i)" by (simp add: drop_key_def)
    moreover have "drop_key key (drop_key key (yss ! i)) = drop_key key (yss ! i)"
      using yi by (intro drop_key_asc(2) asc top(1)) simp
    ultimately have "drop_key key (tl (yss ! i)) = drop_key key (yss ! i)" by simp
    then have "map (drop_key key) ?yss = map (drop_key key) yss"
      using top(1) len by (simp add: map_update list_update_same_conv)
    moreover have "next_loop ops key its hp s = next_loop ops key (its[i := it]) hp2 s1"
      using True p n by (subst next_loop.simps) (simp add: hp2_def)
    ultimately show ?thesis using IH by simp
  next
    case False
    have "drop_key key (yss ! i) = yss ! i" if i: "i < length its" for i
    proof (cases "yss ! i = []")
      case True
      then show ?thesis by (simp add: drop_key_def)
    next
      case ne: False
      have heap: "heap_of ops its hp {i. i < length its \<and> yss ! i \<noteq> []}" using at by (simp add: mset_at_def)
      then have "i \<in> set hp" using i ne unfolding heap_of_def by simp
      then have hp: "hp \<noteq> []" by auto
      have "front ops its (hd hp) \<le> front ops its i" using heap_of_min [OF heap hp] i ne by simp
      then have "kord (io_Key ops (its ! hd hp)) \<le> kord (io_Key ops (its ! i))" by (auto simp: front_def)
      moreover have "kord key < kord (io_Key ops (its ! hd hp))"
      proof -
        obtain v t where top: "yss ! hd hp = (io_Key ops (its ! hd hp), v) # t" using mset_at_top(2) [OF at hp] by blast
        then have "kord key \<le> kord (io_Key ops (its ! hd hp))" using less.prems(3) [OF mset_at_top(1) [OF at hp]] by simp
        moreover have "kord key \<noteq> kord (io_Key ops (its ! hd hp))" using False hp by auto
        ultimately show ?thesis by (rule order_neq_le_trans [rotated])
      qed
      moreover have "hd (yss ! i) = (io_Key ops (its ! i), io_Value ops (its ! i))"
        using rep_head ne i at by (auto simp: mset_at_def)
      ultimately show ?thesis using ne by (cases "yss ! i") (auto simp: drop_key_def)
    qed
    then have "map (drop_key key) yss = yss" using len by (intro nth_equalityI) auto
    moreover have "next_loop ops key its hp s = Some (its, hp, s)" using False by (subst next_loop.simps) auto
    ultimately show ?thesis using at less.prems(2) by simp
  qed
qed

definition merge_rep :: "'it MergeIterator \<Rightarrow> entry list list \<Rightarrow> entry list \<Rightarrow> bool" where
  "merge_rep m ess zs \<longleftrightarrow>
     (\<exists>yss. mset_at (mi_iters m) (mi_hp m) ess yss \<and> asc_by CompareKeys zs \<and> (\<forall>k. map_of zs k = first_map yss k)) \<and>
     (case zs of [] \<Rightarrow> \<not> mi_valid m | z # _ \<Rightarrow> mi_valid m \<and> z = (mi_currentKey m, mi_currentVal m))"

lemma first_map_keys:
  assumes "mset_at its hp ess yss" "first_map yss k = Some v"
  shows "\<exists>i < length its. yss ! i \<noteq> [] \<and> kord (io_Key ops (its ! i)) \<le> kord k"
proof -
  have "\<not> (\<forall>ys \<in> set yss. map_of ys k = None)" using assms(2) first_map_None [of yss k] by simp
  then obtain i v' where i: "i < length yss" "map_of (yss ! i) k = Some v'" by (auto simp: in_set_conv_nth)
  then have "rep (its ! i) (ess ! i) (yss ! i)" "i < length its" using assms(1) by (simp_all add: mset_at_def)
  then show ?thesis using rep_ge_head(1) i(2) by fastforce
qed

lemma findSmallest_ok:
  assumes "mset_at its hp ess yss" "asc_by CompareKeys zs" "\<And>k. map_of zs k = first_map yss k"
  shows "merge_rep (findSmallest ops (m\<lparr>mi_iters := its, mi_hp := hp\<rparr>)) ess zs"
proof (cases hp)
  case Nil
  then have "yss ! i = []" if "i < length its" for i using assms(1) that by (auto simp: mset_at_def heap_of_def)
  then have "first_map yss k = None" for k using first_map_keys [OF assms(1)] by (cases "first_map yss k") auto
  then have "\<And>k. map_of zs k = None" using assms(3) by simp
  then have "zs = []" by (cases zs) (simp, metis map_of_Cons_code(2) option.distinct(1) prod.collapse)
  then show ?thesis using assms Nil by (auto simp: merge_rep_def findSmallest_def)
next
  case (Cons i hp')
  have hp: "hp \<noteq> []" "hd hp = i" using Cons by simp_all
  have i: "i < length its" "yss ! i = (io_Key ops (its ! i), io_Value ops (its ! i)) # tl (yss ! i)"
    using mset_at_top [OF assms(1) hp(1)] hp(2) by auto
  let ?k = "io_Key ops (its ! i)" let ?v = "io_Value ops (its ! i)"
  have heap: "heap_of ops its hp {j. j < length its \<and> yss ! j \<noteq> []}" using assms(1) by (simp add: mset_at_def)
  have min: "front ops its i \<le> front ops its j" if "j < length its" "yss ! j \<noteq> []" for j
    using heap_of_min [OF heap hp(1)] hp(2) that by simp
  have "map_of (yss ! j) ?k = None" if j: "j < i" for j
  proof (rule ccontr)
    assume "map_of (yss ! j) ?k \<noteq> None"
    then obtain v where v: "map_of (yss ! j) ?k = Some v" by blast
    have jl: "j < length its" "yss ! j \<noteq> []" using j i(1) v by auto
    have "rep (its ! j) (ess ! j) (yss ! j)" using assms(1) jl by (simp add: mset_at_def)
    from rep_ge_head(1) [OF this v] min [OF jl] j show False by (auto simp: front_def)
  qed
  moreover have "map_of (yss ! i) ?k = Some ?v" using i(2) by (metis map_of_Cons_code(2) fst_conv)
  ultimately have fk: "map_of zs ?k = Some ?v"
    using assms(3) first_map_eqI [of i yss ?k ?v] i(1) assms(1) by (simp add: mset_at_def)
  then obtain z zs' where zs: "zs = z # zs'" by (cases zs) auto
  have "\<exists>v. first_map yss (fst z) = Some v" using assms(3) [of "fst z", symmetric] zs by auto
  then obtain j where j: "j < length its" "yss ! j \<noteq> []" "kord (io_Key ops (its ! j)) \<le> kord (fst z)"
    using first_map_keys [OF assms(1)] by blast
  have "kord ?k \<le> kord (fst z)" using min [OF j(1,2)] j(3) by (auto simp: front_def)
  moreover have "kord (fst z) \<le> kord ?k"
    using fk assms(2) zs by (auto simp: ck.asc_by_Cons ck_ord less_imp_le dest!: map_of_SomeD split: if_splits)
  ultimately have "fst z = ?k" using kord_eq by (metis order_antisym)
  then have "z = (?k, ?v)" using fk zs by (cases z) auto
  then show ?thesis using assms zs Cons by (auto simp: merge_rep_def findSmallest_def)
qed

lemma mi_position_ok:
  assumes "\<And>it es s. over it es \<Longrightarrow> ok s \<Longrightarrow> \<exists>it' s'. seek it s = Some (it', s') \<and> rep it' es (g es) \<and> ok s'"
    "list_all2 over (mi_iters m) ess" "ok s"
  shows "\<exists>m' s'. mi_position ops seek m s = Some (m', s') \<and> merge_rep m' ess (merge_ref (map g ess)) \<and> ok s'"
proof -
  let ?n = "length (mi_iters m)"
  have len: "length ess = ?n" and over: "\<And>i. i < ?n \<Longrightarrow> over (mi_iters m ! i) (ess ! i)"
    using assms(2) by (auto simp: list_all2_conv_all_nth)
  have "\<exists>its' hp' s'. fill ops seek [0..<?n] (mi_iters m) [] s = Some (its', hp', s') \<and> length its' = ?n \<and>
    (\<forall>i \<in> set [0..<?n] \<union> {}. rep (its' ! i) (ess ! i) (g (ess ! i))) \<and>
    heap_of ops its' hp' {i \<in> set [0..<?n] \<union> {}. g (ess ! i) \<noteq> []} \<and> ok s'"
    by (rule fill_ok [OF assms(1)]) (use over assms(3) heap_of_empty in auto)
  then obtain its hp s1 where f: "fill ops seek [0..<?n] (mi_iters m) [] s = Some (its, hp, s1)" "length its = ?n"
    "\<And>i. i < ?n \<Longrightarrow> rep (its ! i) (ess ! i) (g (ess ! i))" "heap_of ops its hp {i. i < ?n \<and> g (ess ! i) \<noteq> []}" "ok s1"
    by auto
  have "{i. i < length its \<and> map g ess ! i \<noteq> []} = {i. i < ?n \<and> g (ess ! i) \<noteq> []}" using f(2) len by auto
  then have at: "mset_at its hp ess (map g ess)" using f len by (simp add: mset_at_def)
  have "\<forall>ys \<in> set (map g ess). asc_by CompareKeys ys"
  proof
    fix ys assume "ys \<in> set (map g ess)"
    then obtain i where "i < ?n" "ys = g (ess ! i)" using len by (auto simp: in_set_conv_nth)
    then show "asc_by CompareKeys ys" using rep_asc [OF f(3)] by simp
  qed
  from merge_ref_spec [OF this] findSmallest_ok [OF at] f(1,5) show ?thesis by (simp add: mi_position_def)
qed

lemma mi_SeekToFirst_ok:
  assumes "list_all2 over (mi_iters m) ess" "ok s"
  shows "\<exists>m' s'. mi_SeekToFirst ops m s = Some (m', s') \<and> merge_rep m' ess (merge_ref ess) \<and> ok s'"
  using mi_position_ok [of "\<lambda>it s. Some (io_SeekToFirst ops it s)" "\<lambda>es. es", OF _ assms] over_First
  by (simp add: mi_SeekToFirst_def)

lemma mi_Seek_ok:
  assumes "list_all2 over (mi_iters m) ess" "ok s"
  shows "\<exists>m' s'. mi_Seek ops t m s = Some (m', s') \<and>
    merge_rep m' ess (merge_ref (map (dropWhile (\<lambda>e. CompareKeys (fst e) t < 0)) ess)) \<and> ok s'"
  using mi_position_ok [of "io_Seek ops t" "dropWhile (\<lambda>e. CompareKeys (fst e) t < 0)", OF _ assms] over_Seek
  by (simp add: mi_Seek_def)

lemma mi_Next_ok:
  assumes "merge_rep m ess (z # zs)" "ok s"
  shows "\<exists>m' s'. mi_Next ops m s = Some (m', s') \<and> merge_rep m' ess zs \<and> ok s'"
proof -
  obtain yss where at: "mset_at (mi_iters m) (mi_hp m) ess yss" and asc: "asc_by CompareKeys (z # zs)"
    and mo: "\<And>k. map_of (z # zs) k = first_map yss k" and v: "mi_valid m" "z = (mi_currentKey m, mi_currentVal m)"
    using assms(1) unfolding merge_rep_def list.case by blast
  let ?key = "mi_currentKey m" let ?its = "mi_iters m"
  have len: "length yss = length ?its" using at by (simp add: mset_at_def)
  have ge: "kord ?key \<le> kord (fst (hd (yss ! i)))" if i: "i < length ?its" "yss ! i \<noteq> []" for i
  proof -
    have "map_of (yss ! i) (fst (hd (yss ! i))) \<noteq> None" using i(2) by (cases "yss ! i") auto
    then have "first_map yss (fst (hd (yss ! i))) \<noteq> None"
      using first_map_None i(1) len nth_mem by metis
    then have "map_of (z # zs) (fst (hd (yss ! i))) \<noteq> None" using mo by simp
    then show ?thesis
      using asc v(2) by (auto simp: ck.asc_by_Cons ck_ord less_imp_le dest!: map_of_SomeD split: if_splits)
  qed
  from next_loop_ok [OF at assms(2) ge] obtain its hp s1 where
    l: "next_loop ops ?key ?its (mi_hp m) s = Some (its, hp, s1)" "length its = length ?its"
      "mset_at its hp ess (map (drop_key ?key) yss)" "ok s1" by blast
  have dk: "map_of (drop_key ?key (yss ! i)) k = (if k = ?key then None else map_of (yss ! i) k)" if "i < length yss" for i k
    using that len at rep_asc ge by (intro drop_key_asc(1)) (auto simp: mset_at_def)
  have "map_of zs k = first_map (map (drop_key ?key) yss) k" for k
  proof (cases "k = ?key")
    case True
    have "map_of zs ?key = None" using asc v(2) by (intro ck.map_of_asc_lt) (auto simp: ck.asc_by_Cons)
    moreover have "first_map (map (drop_key ?key) yss) ?key = None"
      unfolding first_map_None using dk by (auto simp: in_set_conv_nth)
    ultimately show ?thesis using True by simp
  next
    case False
    have "first_map (map (drop_key ?key) yss) k = first_map yss k"
      using dk False by (intro first_map_cong) simp_all
    then show ?thesis using mo [of k] False v(2) by simp
  qed
  moreover have "asc_by CompareKeys zs" using asc by (simp add: ck.asc_by_Cons)
  ultimately have "merge_rep (findSmallest ops (m\<lparr>mi_iters := its, mi_hp := hp\<rparr>)) ess zs"
    using findSmallest_ok [OF l(3)] by blast
  then show ?thesis using l v(1) by (simp add: mi_Next_def)
qed

lemma merge_rep_current:
  "merge_rep m ess zs \<Longrightarrow> mi_valid m \<longleftrightarrow> zs \<noteq> []"
  "merge_rep m ess (z # zs) \<Longrightarrow> z = (mi_currentKey m, mi_currentVal m)"
  by (auto simp: merge_rep_def split: list.splits)

end

end
