(* ===== verification/SstIter.thy ===== *)
theory SstIter
  imports SstCorrect MergeIterator
begin

text \<open>
  The SSTable iterator as an instance of the iterator interface: its method record, the proof that it
  keeps the interface's contract, and the merge of whole tables through one block cache.
\<close>

definition sst_ops :: "(bytes \<Rightarrow> nat \<Rightarrow> bytes option) \<Rightarrow> (sst_iter, BlockCache option) iter_ops" where
  "sst_ops uncompress =
     \<lparr>io_Valid = it_Valid, io_Key = it_currentKey, io_Value = it_currentVal, io_Next = it_Next uncompress,
      io_SeekToFirst = it_SeekToFirst uncompress, io_Seek = it_Seek uncompress\<rparr>"

lemma sst_ops_simps [simp]:
  "io_Valid (sst_ops u) = it_Valid" "io_Key (sst_ops u) = it_currentKey" "io_Value (sst_ops u) = it_currentVal"
  "io_Next (sst_ops u) = it_Next u" "io_SeekToFirst (sst_ops u) = it_SeekToFirst u" "io_Seek (sst_ops u) = it_Seek u"
  by (simp_all add: sst_ops_def)

definition sst_over ::
  "(bytes \<Rightarrow> u64 \<times> u64) \<Rightarrow> (bytes \<Rightarrow> nat \<Rightarrow> bytes option) \<Rightarrow> (u64 \<times> u64 \<Rightarrow> bytes option) \<Rightarrow> sst_iter \<Rightarrow> entry list \<Rightarrow> bool" where
  "sst_over sum128 uncompress T it es \<longleftrightarrow>
     it_err it = None \<and> (\<exists>bs. reader_rep sum128 uncompress (it_reader it) bs \<and> knows T (it_reader it) bs \<and> concat bs = es)"

definition sst_rep ::
  "(bytes \<Rightarrow> u64 \<times> u64) \<Rightarrow> (bytes \<Rightarrow> nat \<Rightarrow> bytes option) \<Rightarrow> (u64 \<times> u64 \<Rightarrow> bytes option) \<Rightarrow> sst_iter \<Rightarrow>
     entry list \<Rightarrow> entry list \<Rightarrow> bool" where
  "sst_rep sum128 uncompress T it es xs \<longleftrightarrow>
     (\<exists>bs. iter_rep sum128 uncompress bs it xs \<and> knows T (it_reader it) bs \<and> concat bs = es)"

interpretation sst: entry_iterator "sst_ops uncompress" "sst_over sum128 uncompress T" "sst_rep sum128 uncompress T" "cache_fits T"
  for sum128 uncompress T
proof
  show "asc_by CompareKeys es" if "sst_over sum128 uncompress T it es" for it es
    using that by (auto simp: sst_over_def reader_rep_def)
  show "sst_over sum128 uncompress T it es" if "sst_rep sum128 uncompress T it es xs" for it es xs
    using that by (auto simp: sst_over_def sst_rep_def iter_rep_def)
  show "\<exists>pre. es = pre @ xs" if "sst_rep sum128 uncompress T it es xs" for it es xs
    using that iter_rep_suffix by (auto simp: sst_rep_def)
  show "io_Valid (sst_ops uncompress) it \<longleftrightarrow> xs \<noteq> []" if "sst_rep sum128 uncompress T it es xs" for it es xs
    using that iter_rep_Valid by (auto simp: sst_rep_def)
  show "x = (io_Key (sst_ops uncompress) it, io_Value (sst_ops uncompress) it)"
    if "sst_rep sum128 uncompress T it es (x # xs)" for it es x xs
    using that by (auto simp: sst_rep_def dest: iter_rep_entry)
  show "\<exists>it' s'. io_Next (sst_ops uncompress) it s = (it', s') \<and> sst_rep sum128 uncompress T it' es xs \<and> cache_fits T s'"
    if "sst_rep sum128 uncompress T it es (x # xs)" "cache_fits T s" for it es x xs s
    using that it_Next_rep unfolding sst_rep_def sst_ops_simps by metis
  show "\<exists>it' s'. io_SeekToFirst (sst_ops uncompress) it s = (it', s') \<and> sst_rep sum128 uncompress T it' es es \<and> cache_fits T s'"
    if ov: "sst_over sum128 uncompress T it es" and c: "cache_fits T s" for it es s
  proof -
    obtain bs where bs: "it_err it = None" "reader_rep sum128 uncompress (it_reader it) bs" "knows T (it_reader it) bs" "concat bs = es"
      using ov by (auto simp: sst_over_def)
    from loadBlock_rep [of sum128 uncompress "it\<lparr>it_blockIdx := 0\<rparr>" bs T s] bs c show ?thesis
      by (auto simp: it_SeekToFirst_def sst_rep_def intro!: exI [of _ bs])
  qed
  show "\<exists>it' s'. io_Seek (sst_ops uncompress) t it s = Some (it', s') \<and>
      sst_rep sum128 uncompress T it' es (dropWhile (\<lambda>e. CompareKeys (fst e) t < 0) es) \<and> cache_fits T s'"
    if ov: "sst_over sum128 uncompress T it es" and c: "cache_fits T s" for it es t s
  proof -
    obtain bs where bs: "it_err it = None" "reader_rep sum128 uncompress (it_reader it) bs" "knows T (it_reader it) bs" "concat bs = es"
      using ov by (auto simp: sst_over_def)
    from it_Seek_rep [OF bs(2,1,3) c, of t] bs(3,4) show ?thesis by (auto simp: sst_rep_def)
  qed
qed

end
