(* ===== verification/LsmVersion.thy ===== *)
theory LsmVersion
  imports Manifest
begin

text \<open>
  Versions of the tree: what an edit does to each level, and the shape a version keeps, with files of
  their own level, numbers used once, and every level below the first sorted and free of overlaps.
\<close>

section \<open>Edits level by level\<close>

definition survives :: "VersionEdit \<Rightarrow> nat \<Rightarrow> FileMetadata \<Rightarrow> bool" where
  "survives e l f \<longleftrightarrow> (\<forall>df \<in> set (ve_DeletedFiles e). df_Level df = int l \<longrightarrow> df_FileNum df \<noteq> fm_FileNum f)"

definition added_at :: "VersionEdit \<Rightarrow> nat \<Rightarrow> FileMetadata list" where
  "added_at e l = filter (\<lambda>f. fm_Level f = int l) (ve_AddedFiles e)"

lemma run_delete_file:
  "run_opt delete_file dfs v = Some v' \<Longrightarrow> length v = MaxLevels \<Longrightarrow>
     length v' = MaxLevels \<and>
     (\<forall>l < MaxLevels. v' ! l = filter (\<lambda>f. \<forall>df \<in> set dfs. df_Level df = int l \<longrightarrow> df_FileNum df \<noteq> fm_FileNum f) (v ! l))"
proof (induction dfs arbitrary: v)
  case (Cons df dfs)
  let ?l = "nat (df_Level df)"
  have lv: "0 \<le> df_Level df" "df_Level df < int MaxLevels"
    and rest: "run_opt delete_file dfs (v[?l := filter (\<lambda>f. fm_FileNum f \<noteq> df_FileNum df) (v ! ?l)]) = Some v'"
    using Cons.prems(1) by (auto simp: delete_file_def [of df] split: if_splits option.splits)
  have "v[?l := x] ! l = (if df_Level df = int l then x else v ! l)" if "l < MaxLevels" for l x
    using lv Cons.prems(2) that by (auto simp: nth_list_update)
  then show ?case using Cons.IH [OF rest] Cons.prems(2) lv by (auto intro!: filter_cong)
qed simp

lemma run_add_file:
  "run_opt add_file afs v = Some v' \<Longrightarrow> length v = MaxLevels \<Longrightarrow>
     length v' = MaxLevels \<and> (\<forall>l < MaxLevels. v' ! l = v ! l @ filter (\<lambda>f. fm_Level f = int l) afs)"
proof (induction afs arbitrary: v)
  case (Cons af afs)
  let ?l = "nat (fm_Level af)"
  have lv: "0 \<le> fm_Level af" "fm_Level af < int MaxLevels"
    and rest: "run_opt add_file afs (v[?l := v ! ?l @ [af]]) = Some v'"
    using Cons.prems(1) by (auto simp: add_file_def [of af] split: if_splits option.splits)
  have "v[?l := x] ! l = (if fm_Level af = int l then x else v ! l)" if "l < MaxLevels" for l x
    using lv Cons.prems(2) that by (auto simp: nth_list_update)
  then show ?case using Cons.IH [OF rest] Cons.prems(2) lv by auto
qed simp

lemma sort_levels_nth:
  "l < length v \<Longrightarrow> sort_levels v ! l = (if l = 0 \<or> length (v ! l) \<le> 1 then v ! l else SortBySmallestKey (v ! l))"
  by (cases v; cases l) (auto simp: sort_levels_def)

lemma length_sort_levels [simp]: "length (sort_levels v) = length v"
  by (cases v) (auto simp: sort_levels_def)

lemma edit_version_level:
  assumes "edit_version e v = Some v'" "length v = MaxLevels"
  shows "length v' = MaxLevels" "v' ! 0 = filter (survives e 0) (v ! 0) @ added_at e 0"
    "l < MaxLevels \<Longrightarrow> mset (v' ! l) = mset (filter (survives e l) (v ! l) @ added_at e l)"
    "0 < l \<Longrightarrow> l < MaxLevels \<Longrightarrow> sorted_wrt smallest_le (v' ! l)"
proof -
  obtain v1 v2 where r: "run_opt delete_file (ve_DeletedFiles e) v = Some v1" "run_opt add_file (ve_AddedFiles e) v1 = Some v2"
    "v' = sort_levels v2" using assms(1) by (auto simp: edit_version_def split: bind_splits)
  note d = run_delete_file [OF r(1) assms(2)]
  note a = run_add_file [OF r(2) conjunct1 [OF d]]
  show "length v' = MaxLevels" using a r(3) by simp
  have v2: "v2 ! l = filter (survives e l) (v ! l) @ added_at e l" if "l < MaxLevels" for l
    using d a that by (simp add: survives_def [abs_def] added_at_def)
  have v': "v' ! l = (if l = 0 \<or> length (v2 ! l) \<le> 1 then v2 ! l else SortBySmallestKey (v2 ! l))" if "l < MaxLevels" for l
    using sort_levels_nth [of l v2] a r(3) that by simp
  have "0 < MaxLevels" by (simp add: MaxLevels_def)
  from v' [OF this] v2 [OF this] show "v' ! 0 = filter (survives e 0) (v ! 0) @ added_at e 0" by simp
  show "mset (v' ! l) = mset (filter (survives e l) (v ! l) @ added_at e l)" if "l < MaxLevels"
    using v' [OF that] v2 [OF that] by simp
  have one: "sorted_wrt smallest_le fs" if "length fs \<le> 1" for fs
    using that by (cases fs) (auto simp: length_Suc_conv)
  show "sorted_wrt smallest_le (v' ! l)" if "0 < l" "l < MaxLevels"
    using v' [OF that(2)] that one sorted_SortBySmallestKey by simp
qed

section \<open>Well-formed versions\<close>

definition before :: "FileMetadata \<Rightarrow> FileMetadata \<Rightarrow> bool" where
  "before f g \<longleftrightarrow> CompareKeys (fm_LargestKey f) (fm_SmallestKey g) < 0"

definition file_wf :: "nat \<Rightarrow> FileMetadata \<Rightarrow> bool" where
  "file_wf l f \<longleftrightarrow> fm_Level f = int l \<and> CompareKeys (fm_SmallestKey f) (fm_LargestKey f) \<le> 0"

definition version_wf :: "Version \<Rightarrow> bool" where
  "version_wf v \<longleftrightarrow> length v = MaxLevels \<and> (\<forall>l < MaxLevels. \<forall>f \<in> set (v ! l). file_wf l f) \<and>
     (\<forall>l < MaxLevels. distinct (v ! l)) \<and>
     (\<forall>l < MaxLevels. \<forall>m < MaxLevels. \<forall>f \<in> set (v ! l). \<forall>g \<in> set (v ! m). fm_FileNum f = fm_FileNum g \<longrightarrow> f = g) \<and>
     (\<forall>l. 0 < l \<longrightarrow> l < MaxLevels \<longrightarrow> sorted_wrt before (v ! l))"

lemma version_wf_empty: "version_wf empty_version"
  by (auto simp: version_wf_def empty_version_def MaxLevels_def nth_replicate)

text \<open>Files that are pairwise apart are in order once sorted by smallest key.\<close>

lemma sorted_apart:
  assumes "sorted_wrt smallest_le fs" "distinct fs" "\<forall>f \<in> set fs. file_wf l f"
    "\<forall>f \<in> set fs. \<forall>g \<in> set fs. f \<noteq> g \<longrightarrow> before f g \<or> before g f"
  shows "sorted_wrt before fs"
  using assms
proof (induction fs)
  case (Cons f fs)
  have "before f g" if "g \<in> set fs" for g
  proof (rule ccontr)
    assume "\<not> before f g"
    moreover have "f \<noteq> g" using Cons.prems(2) that by auto
    ultimately have "before g f" using Cons.prems(4) that by auto
    moreover have "smallest_le f g" "file_wf l g" "file_wf l f" using Cons.prems that by auto
    ultimately show False using \<open>\<not> before f g\<close> by (auto simp: before_def smallest_le_def file_wf_def ck_ord)
  qed
  then show ?case using Cons by auto
qed simp

definition version_nums :: "Version \<Rightarrow> u64 set" where
  "version_nums v = fm_FileNum ` set (concat v)"

lemma version_nums_nth: "l < length v \<Longrightarrow> f \<in> set (v ! l) \<Longrightarrow> fm_FileNum f \<in> version_nums v"
  using nth_mem [of l v] by (force simp: version_nums_def)

lemma set_edit_level:
  assumes "edit_version e v = Some v'" "length v = MaxLevels" "l < MaxLevels"
  shows "set (v' ! l) = {f \<in> set (v ! l). survives e l f} \<union> {f \<in> set (ve_AddedFiles e). fm_Level f = int l}"
  using edit_version_level(3) [OF assms] by (metis added_at_def mset_eq_setD set_append set_filter)

lemma edit_version_nums:
  assumes "edit_version e v = Some v'" "length v = MaxLevels"
  shows "version_nums v' \<subseteq> version_nums v \<union> fm_FileNum ` set (ve_AddedFiles e)"
proof
  fix num assume "num \<in> version_nums v'"
  then obtain fs f where "fs \<in> set v'" "f \<in> set fs" "num = fm_FileNum f" by (auto simp: version_nums_def)
  then obtain l where f: "l < MaxLevels" "f \<in> set (v' ! l)" "num = fm_FileNum f"
    using edit_version_level(1) [OF assms] by (metis in_set_conv_nth)
  then show "num \<in> version_nums v \<union> fm_FileNum ` set (ve_AddedFiles e)"
    using set_edit_level [OF assms f(1)] version_nums_nth [of l v f] assms(2) by auto
qed

lemma edit_version_wf:
  assumes "edit_version e v = Some v'" "version_wf v" "distinct (map fm_FileNum (ve_AddedFiles e))"
    "\<forall>f \<in> set (ve_AddedFiles e). fm_FileNum f \<notin> version_nums v"
    "\<forall>f \<in> set (ve_AddedFiles e). CompareKeys (fm_SmallestKey f) (fm_LargestKey f) \<le> 0"
    "\<And>l f g. 0 < l \<Longrightarrow> l < MaxLevels \<Longrightarrow> f \<in> set (ve_AddedFiles e) \<Longrightarrow> fm_Level f = int l \<Longrightarrow>
       g \<in> set (ve_AddedFiles e) \<and> fm_Level g = int l \<or> g \<in> set (v ! l) \<and> survives e l g \<Longrightarrow> f \<noteq> g \<Longrightarrow> before f g \<or> before g f"
  shows "version_wf v'"
proof -
  have len: "length v = MaxLevels" using assms(2) by (simp add: version_wf_def)
  note lv = edit_version_level [OF assms(1) len] note st = set_edit_level [OF assms(1) len]
  have wf: "file_wf l f" if "l < MaxLevels" "f \<in> set (v' ! l)" for l f
    using st [OF that(1)] that assms(2,5) by (auto simp: version_wf_def file_wf_def)
  have old: "f = g" if "l < MaxLevels" "m < MaxLevels" "f \<in> set (v ! l)" "g \<in> set (v ! m)" "fm_FileNum f = fm_FileNum g" for l m f g
    using assms(2) that unfolding version_wf_def by blast
  have new: "fm_FileNum f \<noteq> fm_FileNum g" if "f \<in> set (ve_AddedFiles e)" "g \<in> set (v ! l)" "l < MaxLevels" for f g l
    using assms(4) version_nums_nth [of l v g] that len by auto
  have inj: "f = g" if "f \<in> set (ve_AddedFiles e)" "g \<in> set (ve_AddedFiles e)" "fm_FileNum f = fm_FileNum g" for f g
    using assms(3) that by (simp add: distinct_map inj_on_def)
  have uniq: "f = g" if "l < MaxLevels" "m < MaxLevels" "f \<in> set (v' ! l)" "g \<in> set (v' ! m)" "fm_FileNum f = fm_FileNum g" for l m f g
    using that(3-) st [OF that(1)] st [OF that(2)] old [OF that(1,2)] new [of f g m] new [of g f l] inj [of f g] that(1,2) by auto
  have dist: "distinct (v' ! l)" if "l < MaxLevels" for l
  proof -
    have "distinct (filter (survives e l) (v ! l) @ added_at e l)"
      using assms(2,3) new that by (fastforce simp: version_wf_def added_at_def distinct_map)
    then show ?thesis using lv(3) [OF that] mset_eq_imp_distinct_iff by blast
  qed
  have "sorted_wrt before (v' ! l)" if l: "0 < l" "l < MaxLevels" for l
  proof (rule sorted_apart [OF lv(4) [OF l] dist [OF l(2)]])
    show "\<forall>f \<in> set (v' ! l). file_wf l f" using wf l(2) by blast
    have srt: "sorted_wrt before (v ! l)" using assms(2) l by (simp add: version_wf_def)
    have both: "before f g \<or> before g f" if "f \<in> set (v ! l)" "g \<in> set (v ! l)" "f \<noteq> g" for f g
      using srt that by (metis in_set_conv_nth linorder_neqE_nat sorted_wrt_nth_less)
    show "\<forall>f \<in> set (v' ! l). \<forall>g \<in> set (v' ! l). f \<noteq> g \<longrightarrow> before f g \<or> before g f"
    proof (intro ballI impI)
      fix f g assume fg: "f \<in> set (v' ! l)" "g \<in> set (v' ! l)" "f \<noteq> g"
      show "before f g \<or> before g f"
        using fg st [OF l(2)] both [of f g] assms(6) [OF l, of f g] assms(6) [OF l, of g f] by auto
    qed
  qed
  then show ?thesis using lv(1) wf dist uniq unfolding version_wf_def by blast
qed

end
