(* ===== verification/Compaction.thy ===== *)
theory Compaction
  imports Manifest SstIter
begin

text \<open>
  Compaction (\<^verbatim>\<open>internal/lsm/compaction.go\<close>): the choice of the input files and the merge that writes the
  output files, updates the manifest and deletes the inputs.

  Files are known by their number (the name is the number printed with six digits or more).
  \<open>st_disk\<close> holds their bytes; a reader keeps the bytes it opened, so an allocated number must not be
  the number of an open input.  The environment \<open>cenv\<close> collects the options, the third-party functions
  and the outcomes of the system calls: whether a file can be created, the script of its writes,
  whether it can be removed, and whether it can be stat'ed.  \<open>ce_minActive\<close> gives the answers of \<^verbatim>\<open>minActiveSnapshot\<close> call by call;
  \<^term>\<open>None\<close> is the nil function.  The rate limiter only delays the loop and is modelled on its own.
\<close>

section \<open>Picking the inputs\<close>

record Compaction =
  cp_Level :: nat
  cp_Source :: "FileMetadata list"
  cp_Target :: "FileMetadata list"
  cp_OutputLevel :: nat

definition best_level :: "(rat \<Rightarrow> rat) \<Rightarrow> Version \<Rightarrow> int \<times> rat" where
  "best_level rnd v =
     fold (\<lambda>level (bestLevel, bestScore).
             let score = CompactionScore rnd level (v ! level)
             in if bestScore < score then (int level, score) else (bestLevel, bestScore))
          [0..<MaxLevels - 1] (- 1, - 1)"

text \<open>The key range of the L0 files, widened file by file.\<close>

definition key_range :: "FileMetadata list \<Rightarrow> bytes \<times> bytes" where
  "key_range files =
     (case files of
        [] \<Rightarrow> ([], [])
      | f # fs \<Rightarrow>
          fold (\<lambda>f (smallest, largest).
                  (if CompareKeys (fm_SmallestKey f) smallest < 0 then fm_SmallestKey f else smallest,
                   if 0 < CompareKeys (fm_LargestKey f) largest then fm_LargestKey f else largest))
               fs (fm_SmallestKey f, fm_LargestKey f))"

definition largest_file :: "FileMetadata \<Rightarrow> FileMetadata list \<Rightarrow> FileMetadata" where
  "largest_file f fs = fold (\<lambda>f best. if fm_FileSize best < fm_FileSize f then f else best) fs f"

definition PickCompaction :: "(rat \<Rightarrow> rat) \<Rightarrow> Version \<Rightarrow> Compaction option" where
  "PickCompaction rnd v =
     (let (bestLevel, bestScore) = best_level rnd v in
      if bestScore \<le> 1 then None
      else let level = nat bestLevel;
               source = (if level = 0 then v ! 0 else [largest_file (hd (v ! level)) (tl (v ! level))]);
               (smallest, largest) = (if level = 0 then key_range source
                                      else (fm_SmallestKey (hd source), fm_LargestKey (hd source)))
           in Some \<lparr>cp_Level = level, cp_Source = source,
                    cp_Target = GetOverlappingFiles (v ! (level + 1)) smallest largest, cp_OutputLevel = level + 1\<rparr>)"

section \<open>Executing a compaction\<close>

record store =
  st_disk :: "u64 \<Rightarrow> bytes option"
  st_manifest :: Manifest
  st_cache :: "BlockCache option"

record cenv =
  ce_blockSize :: int
  ce_bloomBits :: int
  ce_targetSize :: u64
  ce_minActive :: "(nat \<Rightarrow> u64) option"
  ce_sum128 :: "bytes \<Rightarrow> u64 \<times> u64"
  ce_compress :: "bytes \<Rightarrow> bytes option"
  ce_uncompress :: "bytes \<Rightarrow> nat \<Rightarrow> bytes option"
  ce_create :: "u64 \<Rightarrow> bool"
  ce_script :: "u64 \<Rightarrow> io_outcome list"
  ce_removable :: "u64 \<Rightarrow> bool"
  ce_stat :: "u64 \<Rightarrow> bool"

datatype lsm_error = ErrOpen | ErrReader sst_error | ErrCreate | ErrWrite | ErrManifest manifest_error

text \<open>Opening the input files, one reader and one iterator each.\<close>

fun open_inputs :: "cenv \<Rightarrow> FileMetadata list \<Rightarrow> store \<Rightarrow> (lsm_error + sst_iter list) \<times> store" where
  "open_inputs env [] st = (Inr [], st)"
| "open_inputs env (f # fs) st =
     (case st_disk st (fm_FileNum f) of
        None \<Rightarrow> (Inl ErrOpen, st)
      | Some data \<Rightarrow>
          (case OpenReader data (fm_FileNum f) of
             Inl e \<Rightarrow> (Inl (ErrReader e), st)
           | Inr r \<Rightarrow>
               (case NewIterator (ce_uncompress env) r (st_cache st) of
                  (it, cache) \<Rightarrow>
                    (case open_inputs env fs (st\<lparr>st_cache := cache\<rparr>) of
                       (Inl e, st) \<Rightarrow> (Inl e, st)
                     | (Inr its, st) \<Rightarrow> (Inr (it # its), st)))))"

text \<open>The variables of the merge loop.\<close>

record merge_state =
  ms_writer :: "sst_writer option"
  ms_fileNum :: u64
  ms_smallest :: bytes
  ms_entries :: u64
  ms_size :: u64
  ms_added :: "FileMetadata list"
  ms_lastKey :: bytes
  ms_lastUserKey :: bytes
  ms_seen :: bool
  ms_bytesOut :: i64
  ms_calls :: nat

definition new_merge_state :: merge_state where
  "new_merge_state =
     \<lparr>ms_writer = None, ms_fileNum = 0, ms_smallest = [], ms_entries = 0, ms_size = 0, ms_added = [], ms_lastKey = [],
      ms_lastUserKey = [], ms_seen = False, ms_bytesOut = 0, ms_calls = 0\<rparr>"

text \<open>Which versions survive: the tests at the head of the loop body.\<close>

definition gc_step :: "u64 \<Rightarrow> bool \<Rightarrow> entry \<Rightarrow> bytes \<times> bool \<Rightarrow> bool \<times> bytes \<times> bool" where
  "gc_step minActive deepest e s =
     (let (userKey, ts) = DecodeKey (fst e);
          (lastUserKey, seen) = (if userKey \<noteq> fst s then (userKey, False) else s)
      in if ts < minActive
         then if seen then (False, lastUserKey, seen)
              else if snd e = None \<and> deepest then (False, lastUserKey, True)
              else (True, lastUserKey, True)
         else (True, lastUserKey, seen))"

definition write_through :: "u64 \<Rightarrow> sst_writer \<Rightarrow> store \<Rightarrow> store" where
  "write_through num w st = st\<lparr>st_disk := (st_disk st)(num \<mapsto> f_data (sw_file w))\<rparr>"

definition finishCurrentFile :: "cenv \<Rightarrow> nat \<Rightarrow> merge_state \<Rightarrow> store \<Rightarrow> bool \<times> merge_state \<times> store" where
  "finishCurrentFile env outputLevel ms st =
     (case ms_writer ms of
        None \<Rightarrow> (True, ms, st)
      | Some w \<Rightarrow>
          (case sst_Close (ce_compress env) w of
             (ok, w) \<Rightarrow>
               let st = write_through (ms_fileNum ms) w st in
               if \<not> ok then (False, ms\<lparr>ms_writer := Some w\<rparr>, st)
               else let fileSize = sst_Size w in
                 (True, ms\<lparr>ms_bytesOut := ms_bytesOut ms + fileSize,
                           ms_added := ms_added ms @
                             [\<lparr>fm_Level = int outputLevel, fm_FileNum = ms_fileNum ms, fm_FileSize = fileSize,
                               fm_SmallestKey = ms_smallest ms, fm_LargestKey = [], fm_NumEntries = ms_entries ms\<rparr>],
                           ms_writer := None\<rparr>, st)))"

definition set_largest :: "merge_state \<Rightarrow> merge_state" where
  "set_largest ms =
     (if ms_added ms = [] then ms
      else ms\<lparr>ms_added := butlast (ms_added ms) @ [(last (ms_added ms))\<lparr>fm_LargestKey := ms_lastKey ms\<rparr>]\<rparr>)"

definition open_output :: "cenv \<Rightarrow> bytes \<Rightarrow> merge_state \<Rightarrow> store \<Rightarrow> bool \<times> merge_state \<times> store" where
  "open_output env key ms st =
     (case ms_writer ms of
        Some w \<Rightarrow> (True, ms, st)
      | None \<Rightarrow>
          (case NextFileNumber (st_manifest st) of
             (num, mf) \<Rightarrow>
               let ms = ms\<lparr>ms_fileNum := num\<rparr>; st = st\<lparr>st_manifest := mf\<rparr> in
               if \<not> ce_create env num then (False, ms, st)
               else let w = sst_NewWriter \<lparr>f_data = [], f_script = ce_script env num\<rparr> (ce_blockSize env) (ce_bloomBits env) in
                 (True, ms\<lparr>ms_writer := Some w, ms_smallest := key, ms_entries := 0, ms_size := 0\<rparr>, write_through num w st)))"

definition add_output :: "cenv \<Rightarrow> nat \<Rightarrow> entry \<Rightarrow> merge_state \<Rightarrow> store \<Rightarrow> (lsm_error + merge_state) \<times> store" where
  "add_output env outputLevel e ms st =
     (case open_output env (fst e) ms st of
        (False, ms, st) \<Rightarrow> (Inl ErrCreate, st)
      | (True, ms, st) \<Rightarrow>
          (case ms_writer ms of
             None \<Rightarrow> (Inr ms, st)
           | Some w \<Rightarrow>
               (case sst_Add (ce_sum128 env) (ce_compress env) (fst e) (snd e) w of
                  (ok, w) \<Rightarrow>
                    let st = write_through (ms_fileNum ms) w st in
                    if \<not> ok then (Inl ErrWrite, st)
                    else let ms = ms\<lparr>ms_writer := Some w, ms_entries := ms_entries ms + 1,
                                     ms_size := ms_size ms + of_nat (length (fst e) + vlen (snd e) + 8), ms_lastKey := fst e\<rparr>
                      in if ms_size ms < ce_targetSize env then (Inr ms, st)
                         else (case finishCurrentFile env outputLevel ms st of
                                 (False, ms, st) \<Rightarrow> (Inl ErrWrite, st)
                               | (True, ms, st) \<Rightarrow> (Inr (set_largest ms), st)))))"

text \<open>The body of the merge loop.\<close>

definition merge_entry :: "cenv \<Rightarrow> nat \<Rightarrow> nat \<Rightarrow> entry \<Rightarrow> merge_state \<Rightarrow> store \<Rightarrow> (lsm_error + merge_state) \<times> store" where
  "merge_entry env outputLevel maxOccupiedLevel e ms st =
     (let (minActive, calls) = (case ce_minActive env of None \<Rightarrow> (0, ms_calls ms) | Some f \<Rightarrow> (f (ms_calls ms), ms_calls ms + 1));
          (keep, lastUserKey, seen) =
            gc_step minActive (maxOccupiedLevel \<le> outputLevel) e (ms_lastUserKey ms, ms_seen ms);
          ms = ms\<lparr>ms_calls := calls, ms_lastUserKey := lastUserKey, ms_seen := seen\<rparr>
      in if keep then add_output env outputLevel e ms st else (Inr ms, st))"

text \<open>The merge loop; a loop that does not return is \<^term>\<open>None\<close>.\<close>

partial_function (option) merge_loop ::
  "cenv \<Rightarrow> nat \<Rightarrow> nat \<Rightarrow> sst_iter MergeIterator \<Rightarrow> merge_state \<Rightarrow> store \<Rightarrow> ((lsm_error + merge_state) \<times> store) option" where
  "merge_loop env outputLevel maxOccupiedLevel m ms st =
     (if \<not> mi_valid m then Some (Inr ms, st)
      else case merge_entry env outputLevel maxOccupiedLevel (mi_currentKey m, mi_currentVal m) ms st of
             (Inl e, st) \<Rightarrow> Some (Inl e, st)
           | (Inr ms, st) \<Rightarrow> do {
               (m, cache) \<leftarrow> mi_Next (sst_ops (ce_uncompress env)) m (st_cache st);
               merge_loop env outputLevel maxOccupiedLevel m ms (st\<lparr>st_cache := cache\<rparr>) })"

definition delete_input :: "cenv \<Rightarrow> DeletedFile \<Rightarrow> store \<Rightarrow> store" where
  "delete_input env df st =
     st\<lparr>st_cache := map_option (cache_RemoveFile (df_FileNum df)) (st_cache st),
        st_disk := (if ce_removable env (df_FileNum df) then (st_disk st)(df_FileNum df := None) else st_disk st)\<rparr>"

definition compaction_edit :: "Compaction \<Rightarrow> FileMetadata list \<Rightarrow> VersionEdit" where
  "compaction_edit c added =
     \<lparr>ve_AddedFiles = added,
      ve_DeletedFiles = map (\<lambda>f. \<lparr>df_Level = int (cp_Level c), df_FileNum = fm_FileNum f\<rparr>) (cp_Source c) @
                        map (\<lambda>f. \<lparr>df_Level = int (cp_Level c) + 1, df_FileNum = fm_FileNum f\<rparr>) (cp_Target c),
      ve_NextFileNum = 0\<rparr>"

text \<open>After the merge: close the last file, record the edit, delete the inputs.\<close>

definition conclude :: "cenv \<Rightarrow> Compaction \<Rightarrow> i64 \<Rightarrow> merge_state \<Rightarrow> store \<Rightarrow> (lsm_error + i64 \<times> i64) \<times> store" where
  "conclude env c totalBytesIn ms st =
     (case finishCurrentFile env (cp_OutputLevel c) ms st of
        (False, ms, st) \<Rightarrow> (Inl ErrWrite, st)
      | (True, ms, st) \<Rightarrow>
          let ms = set_largest ms; edit = compaction_edit c (ms_added ms) in
          (case manifest_Apply edit (st_manifest st) of
             (Some e, mf) \<Rightarrow> (Inl (ErrManifest e), st\<lparr>st_manifest := mf\<rparr>)
           | (None, mf) \<Rightarrow>
               (Inr (totalBytesIn, ms_bytesOut ms),
                fold (delete_input env) (ve_DeletedFiles edit) (st\<lparr>st_manifest := mf\<rparr>))))"

definition Execute :: "cenv \<Rightarrow> Compaction option \<Rightarrow> nat \<Rightarrow> store \<Rightarrow> ((lsm_error + i64 \<times> i64) \<times> store) option" where
  "Execute env c maxOccupiedLevel st =
     (case c of
        None \<Rightarrow> Some (Inr (0, 0), st)
      | Some c \<Rightarrow>
          if cp_Source c = [] then Some (Inr (0, 0), st)
          else case open_inputs env (cp_Source c @ cp_Target c) st of
                 (Inl e, st) \<Rightarrow> Some (Inl e, st)
               | (Inr its, st) \<Rightarrow> do {
                   let totalBytesIn = sum_list (map fm_FileSize (cp_Source c @ cp_Target c));
                   (m, cache) \<leftarrow> mi_SeekToFirst (sst_ops (ce_uncompress env)) (NewMergeIterator its) (st_cache st);
                   (res, st) \<leftarrow> merge_loop env (cp_OutputLevel c) maxOccupiedLevel m new_merge_state (st\<lparr>st_cache := cache\<rparr>);
                   Some (case res of Inl e \<Rightarrow> (Inl e, st) | Inr ms \<Rightarrow> conclude env c totalBytesIn ms st) })"

end
