(* ===== verification/PickerCorrect.thy ===== *)
theory PickerCorrect
  imports LsmVersion Compaction
begin

text \<open>
  The compaction picker: the level it chooses, the files it takes, and why the levels stay sorted and
  free of overlaps when the outputs replace those files.
\<close>

section \<open>The chosen level\<close>

lemma best_level_fold:
  assumes "fold (\<lambda>level (bestLevel, bestScore).
             let score = CompactionScore rnd level (v ! level)
             in if bestScore < score then (int level, score) else (bestLevel, bestScore)) ls (bl0, bs0) = (bl, bs)"
  shows "bs0 \<le> bs \<and> (\<forall>l \<in> set ls. CompactionScore rnd l (v ! l) \<le> bs) \<and>
    ((bl, bs) = (bl0, bs0) \<or> 0 \<le> bl \<and> nat bl \<in> set ls \<and> bs = CompactionScore rnd (nat bl) (v ! nat bl))"
  using assms
proof (induction ls arbitrary: bl0 bs0)
  case (Cons l ls)
  then show ?case by (fastforce simp: Let_def split: if_splits)
qed simp

lemma best_level_spec:
  assumes "best_level rnd v = (bl, bs)" "1 < bs"
  shows "0 \<le> bl" "nat bl < MaxLevels - 1" "bs = CompactionScore rnd (nat bl) (v ! nat bl)"
    "\<And>l. l < MaxLevels - 1 \<Longrightarrow> CompactionScore rnd l (v ! l) \<le> bs"
  using best_level_fold [OF assms(1) [unfolded best_level_def]] assms(2) by auto

lemma best_level_low:
  assumes "best_level rnd v = (bl, bs)" "bs \<le> 1" "l < MaxLevels - 1"
  shows "CompactionScore rnd l (v ! l) \<le> 1"
proof -
  have "l \<in> set [0..<MaxLevels - 1]" using assms(3) by simp
  then have "CompactionScore rnd l (v ! l) \<le> bs" using best_level_fold [OF assms(1) [unfolded best_level_def]] by blast
  then show ?thesis using assms(2) by linarith
qed

section \<open>The chosen files\<close>

definition inside :: "bytes \<Rightarrow> bytes \<Rightarrow> FileMetadata \<Rightarrow> bool" where
  "inside s l f \<longleftrightarrow> kord s \<le> kord (fm_SmallestKey f) \<and> kord (fm_LargestKey f) \<le> kord l"

lemma key_range_fold:
  assumes "fold (\<lambda>f (smallest, largest).
                  (if CompareKeys (fm_SmallestKey f) smallest < 0 then fm_SmallestKey f else smallest,
                   if 0 < CompareKeys (fm_LargestKey f) largest then fm_LargestKey f else largest)) fs (s0, l0) = (s, l)"
  shows "kord s \<le> kord s0 \<and> kord l0 \<le> kord l \<and> (\<forall>f \<in> set fs. inside s l f) \<and>
    s \<in> insert s0 (fm_SmallestKey ` set fs) \<and> l \<in> insert l0 (fm_LargestKey ` set fs)"
  using assms
proof (induction fs arbitrary: s0 l0)
  case (Cons f fs)
  let ?s = "if CompareKeys (fm_SmallestKey f) s0 < 0 then fm_SmallestKey f else s0"
  let ?l = "if 0 < CompareKeys (fm_LargestKey f) l0 then fm_LargestKey f else l0"
  have "kord ?s \<le> kord s0" "kord ?s \<le> kord (fm_SmallestKey f)" "kord l0 \<le> kord ?l" "kord (fm_LargestKey f) \<le> kord ?l"
    by (auto simp: ck_ord less_imp_le)
  moreover note Cons.IH [of ?s ?l] Cons.prems
  ultimately show ?case by (auto simp: inside_def split: if_splits)
qed simp

lemma key_range_spec:
  assumes "key_range fs = (s, l)" "fs \<noteq> []"
  shows "\<forall>f \<in> set fs. inside s l f" "s \<in> fm_SmallestKey ` set fs" "l \<in> fm_LargestKey ` set fs"
proof -
  obtain f gs where fs: "fs = f # gs" using assms(2) by (cases fs) auto
  note k = key_range_fold [of gs "fm_SmallestKey f" "fm_LargestKey f" s l]
  show "\<forall>f \<in> set fs. inside s l f" "s \<in> fm_SmallestKey ` set fs" "l \<in> fm_LargestKey ` set fs"
    using k assms(1) fs by (auto simp: key_range_def inside_def)
qed

lemma largest_file_spec: "largest_file f fs \<in> set (f # fs) \<and> (\<forall>g \<in> set (f # fs). fm_FileSize g \<le> fm_FileSize (largest_file f fs))"
  unfolding largest_file_def
proof (induction fs arbitrary: f)
  case (Cons g fs)
  show ?case
  proof (cases "fm_FileSize f < fm_FileSize g")
    case True
    then show ?thesis using Cons.IH [of g] by (auto intro: order_trans less_imp_le)
  next
    case False
    then show ?thesis using Cons.IH [of f] by (auto simp: not_less intro: order_trans)
  qed
qed simp

text \<open>The range of the source files, and what the target takes of the next level.\<close>

definition overlaps :: "bytes \<Rightarrow> bytes \<Rightarrow> FileMetadata \<Rightarrow> bool" where
  "overlaps s l f \<longleftrightarrow> kord s \<le> kord (fm_LargestKey f) \<and> kord (fm_SmallestKey f) \<le> kord l"

definition picked :: "Version \<Rightarrow> Compaction \<Rightarrow> bytes \<Rightarrow> bytes \<Rightarrow> bool" where
  "picked v c s l \<longleftrightarrow>
     cp_Level c < MaxLevels - 1 \<and> cp_OutputLevel c = cp_Level c + 1 \<and> cp_Source c \<noteq> [] \<and>
     set (cp_Source c) \<subseteq> set (v ! cp_Level c) \<and> (cp_Level c = 0 \<longrightarrow> cp_Source c = v ! 0) \<and>
     (\<forall>f \<in> set (cp_Source c). inside s l f) \<and>
     s \<in> fm_SmallestKey ` set (cp_Source c) \<and> l \<in> fm_LargestKey ` set (cp_Source c) \<and>
     cp_Target c = filter (overlaps s l) (v ! cp_OutputLevel c)"

lemma GetOverlappingFiles_overlaps: "GetOverlappingFiles fs s l = filter (overlaps s l) fs"
  by (simp add: GetOverlappingFiles_filter overlaps_def [abs_def] ck_ord)

lemma empty_score: "rnd 0 = 0 \<Longrightarrow> CompactionScore rnd l [] = 0"
  by (simp add: CompactionScore_def)

lemma PickCompaction_picked:
  assumes "PickCompaction rnd v = Some c" "rnd 0 = 0"
  shows "\<exists>s l. picked v c s l" "1 < CompactionScore rnd (cp_Level c) (v ! cp_Level c)"
    "\<And>l. l < MaxLevels - 1 \<Longrightarrow> CompactionScore rnd l (v ! l) \<le> CompactionScore rnd (cp_Level c) (v ! cp_Level c)"
proof -
  obtain bl bs where b: "best_level rnd v = (bl, bs)" by fastforce
  with assms(1) have bs: "1 < bs" by (auto simp: PickCompaction_def Let_def split: if_splits)
  note bl = best_level_spec [OF b bs]
  let ?k = "nat bl" let ?fs = "v ! ?k"
  have "?fs \<noteq> []" using bl(3) bs empty_score [of rnd ?k] assms(2) by (cases ?fs) auto
  define source where "source = (if ?k = 0 then v ! 0 else [largest_file (hd ?fs) (tl ?fs)])"
  obtain s l where sl: "(if ?k = 0 then key_range source else (fm_SmallestKey (hd source), fm_LargestKey (hd source))) = (s, l)"
    by (metis surj_pair)
  have c: "c = \<lparr>cp_Level = ?k, cp_Source = source, cp_Target = GetOverlappingFiles (v ! (?k + 1)) s l, cp_OutputLevel = ?k + 1\<rparr>"
    using assms(1) b bs sl by (auto simp: PickCompaction_def Let_def source_def split: if_splits prod.splits)
  have ne: "source \<noteq> []" using \<open>?fs \<noteq> []\<close> by (auto simp: source_def)
  have sub: "set source \<subseteq> set ?fs"
    using largest_file_spec [of "hd ?fs" "tl ?fs"] \<open>?fs \<noteq> []\<close> by (auto simp: source_def)
  have rng: "(\<forall>f \<in> set source. inside s l f) \<and> s \<in> fm_SmallestKey ` set source \<and> l \<in> fm_LargestKey ` set source"
    using key_range_spec [of source s l] ne sl by (auto simp: inside_def source_def split: if_splits)
  show "\<exists>s l. picked v c s l"
    using bl(2) ne sub rng c by (intro exI [of _ s] exI [of _ l]) (auto simp: picked_def GetOverlappingFiles_overlaps source_def)
  show "1 < CompactionScore rnd (cp_Level c) (v ! cp_Level c)"
    "\<And>l. l < MaxLevels - 1 \<Longrightarrow> CompactionScore rnd l (v ! l) \<le> CompactionScore rnd (cp_Level c) (v ! cp_Level c)"
    using bl bs c by auto
qed

section \<open>The levels afterwards\<close>

text \<open>The keys a compaction can write: those between the bounds of one of its inputs.\<close>

definition input_key :: "Compaction \<Rightarrow> bytes \<Rightarrow> bool" where
  "input_key c k \<longleftrightarrow> (\<exists>f \<in> set (cp_Source c @ cp_Target c). kord (fm_SmallestKey f) \<le> kord k \<and> kord k \<le> kord (fm_LargestKey f))"

lemma level_apart:
  assumes "version_wf v" "0 < l" "l < MaxLevels" "f \<in> set (v ! l)" "g \<in> set (v ! l)" "f \<noteq> g"
  shows "before f g \<or> before g f"
proof -
  have "sorted_wrt before (v ! l)" using assms(1-3) by (simp add: version_wf_def)
  then show ?thesis using assms(4-6) by (metis in_set_conv_nth linorder_neqE_nat sorted_wrt_nth_less)
qed

lemma rest_below_inputs:
  assumes "version_wf v" "picked v c s l" "r \<in> set (v ! cp_OutputLevel c)" "r \<notin> set (cp_Target c)" "input_key c k"
    "kord (fm_LargestKey r) < kord s"
  shows "kord (fm_LargestKey r) < kord k"
proof -
  let ?o = "cp_OutputLevel c"
  have o: "0 < ?o" "?o < MaxLevels" using assms(2) by (auto simp: picked_def)
  obtain f where f: "f \<in> set (cp_Source c @ cp_Target c)" "kord (fm_SmallestKey f) \<le> kord k"
    using assms(5) by (auto simp: input_key_def)
  have "kord (fm_LargestKey r) < kord (fm_SmallestKey f)"
  proof (cases "f \<in> set (cp_Source c)")
    case True
    then show ?thesis using assms(2,6) by (auto simp: picked_def inside_def)
  next
    case False
    then have t: "f \<in> set (v ! ?o)" "overlaps s l f" "f \<noteq> r" using f(1) assms(2,4) by (auto simp: picked_def)
    have wf: "kord (fm_SmallestKey r) \<le> kord (fm_LargestKey r)" using assms(1,3) o by (auto simp: version_wf_def file_wf_def ck_ord)
    from level_apart [OF assms(1) o t(1) assms(3) t(3)] show ?thesis
      using t(2) wf assms(6) by (auto simp: before_def ck_ord overlaps_def)
  qed
  then show ?thesis using f(2) by (rule less_le_trans)
qed

lemma rest_above_inputs:
  assumes "version_wf v" "picked v c s l" "r \<in> set (v ! cp_OutputLevel c)" "r \<notin> set (cp_Target c)" "input_key c k"
    "kord l < kord (fm_SmallestKey r)"
  shows "kord k < kord (fm_SmallestKey r)"
proof -
  let ?o = "cp_OutputLevel c"
  have o: "0 < ?o" "?o < MaxLevels" using assms(2) by (auto simp: picked_def)
  obtain f where f: "f \<in> set (cp_Source c @ cp_Target c)" "kord k \<le> kord (fm_LargestKey f)"
    using assms(5) by (auto simp: input_key_def)
  have "kord (fm_LargestKey f) < kord (fm_SmallestKey r)"
  proof (cases "f \<in> set (cp_Source c)")
    case True
    then show ?thesis using assms(2,6) by (auto simp: picked_def inside_def)
  next
    case False
    then have t: "f \<in> set (v ! ?o)" "overlaps s l f" "f \<noteq> r" using f(1) assms(2,4) by (auto simp: picked_def)
    have wf: "kord (fm_SmallestKey r) \<le> kord (fm_LargestKey r)" using assms(1,3) o by (auto simp: version_wf_def file_wf_def ck_ord)
    from level_apart [OF assms(1) o t(1) assms(3) t(3)] show ?thesis
      using t(2) wf assms(6) by (auto simp: before_def ck_ord overlaps_def)
  qed
  then show ?thesis using f(2) by (rule le_less_trans [rotated])
qed

lemma output_apart:
  assumes "version_wf v" "picked v c s l" "r \<in> set (v ! cp_OutputLevel c)" "r \<notin> set (cp_Target c)"
    "input_key c (fm_SmallestKey f)" "input_key c (fm_LargestKey f)"
  shows "before f r \<or> before r f"
proof -
  have "\<not> overlaps s l r" using assms(2-4) by (auto simp: picked_def)
  then consider "kord (fm_LargestKey r) < kord s" | "kord l < kord (fm_SmallestKey r)"
    by (auto simp: overlaps_def not_le)
  then show ?thesis
    using rest_below_inputs [OF assms(1-5)] rest_above_inputs [OF assms(1-4,6)] by cases (auto simp: before_def ck_ord)
qed

end
