(* ===== verification/Lsm.thy ===== *)
theory Lsm
  imports MemTable Compaction
begin

text \<open>
  The tree (\<^verbatim>\<open>internal/lsm/lsm.go\<close>), write stalls (\<^verbatim>\<open>write_stall.go\<close>), the compaction counters
  (\<^verbatim>\<open>metrics.go\<close>) and the rate limiter (\<^verbatim>\<open>rate_limiter.go\<close>).

  An operation that holds the tree's lock is one step of the model.  A wait on a condition is a result
  \<^term>\<open>None\<close>: the caller blocks in that state.  \<^verbatim>\<open>Get\<close> reads the version before it takes the lock, so the
  version is an argument of its body.  The compaction signal is the channel's one-place buffer.
\<close>

section \<open>Counters\<close>

record CompactionStats =
  cs_BytesCompacted :: i64
  cs_BytesWritten :: i64
  cs_CompactionCount :: i64
  cs_CompactionTimeMs :: i64
  cs_StallTimeMs :: i64
  cs_pending :: "32 word"

definition new_stats :: CompactionStats where
  "new_stats = \<lparr>cs_BytesCompacted = 0, cs_BytesWritten = 0, cs_CompactionCount = 0, cs_CompactionTimeMs = 0,
     cs_StallTimeMs = 0, cs_pending = 0\<rparr>"

definition RecordCompaction :: "i64 \<Rightarrow> i64 \<Rightarrow> i64 \<Rightarrow> CompactionStats \<Rightarrow> CompactionStats" where
  "RecordCompaction bytesIn bytesOut ms s =
     s\<lparr>cs_BytesCompacted := cs_BytesCompacted s + bytesIn, cs_BytesWritten := cs_BytesWritten s + bytesOut,
       cs_CompactionCount := cs_CompactionCount s + 1, cs_CompactionTimeMs := cs_CompactionTimeMs s + ms\<rparr>"

definition RecordStall :: "i64 \<Rightarrow> CompactionStats \<Rightarrow> CompactionStats" where
  "RecordStall ms s = s\<lparr>cs_StallTimeMs := cs_StallTimeMs s + ms\<rparr>"

definition IncrPending :: "CompactionStats \<Rightarrow> CompactionStats" where
  "IncrPending s = s\<lparr>cs_pending := cs_pending s + 1\<rparr>"

definition DecrPending :: "CompactionStats \<Rightarrow> CompactionStats" where
  "DecrPending s = s\<lparr>cs_pending := cs_pending s - 1\<rparr>"

record CompactionStatsSnapshot =
  ss_BytesCompacted :: i64
  ss_BytesWritten :: i64
  ss_CompactionCount :: i64
  ss_CompactionTimeMs :: i64
  ss_StallTimeMs :: i64
  ss_PendingCompactions :: "32 word"

definition stats_Snapshot :: "CompactionStats \<Rightarrow> CompactionStatsSnapshot" where
  "stats_Snapshot s =
     \<lparr>ss_BytesCompacted = cs_BytesCompacted s, ss_BytesWritten = cs_BytesWritten s, ss_CompactionCount = cs_CompactionCount s,
      ss_CompactionTimeMs = cs_CompactionTimeMs s, ss_StallTimeMs = cs_StallTimeMs s, ss_PendingCompactions = cs_pending s\<rparr>"

section \<open>The tree\<close>

record LSMOptions =
  lo_BlockSize :: int
  lo_BloomBitsPerKey :: int
  lo_BlockCacheSize :: int
  lo_CompactionRateMB :: int
  lo_MinActiveSnapshot :: "(nat \<Rightarrow> nat \<Rightarrow> u64) option"
  lo_L0StallTrigger :: int

record LSMTree =
  ls_store :: store
  ls_readers :: "u64 \<rightharpoonup> sst_reader"
  ls_opts :: LSMOptions
  ls_compactCh :: bool
  ls_stopped :: bool
  ls_stalled :: bool
  ls_stats :: CompactionStats

abbreviation ls_manifest :: "LSMTree \<Rightarrow> Manifest" where
  "ls_manifest l \<equiv> st_manifest (ls_store l)"

abbreviation ls_version :: "LSMTree \<Rightarrow> Version" where
  "ls_version l \<equiv> mf_current (ls_manifest l)"

text \<open>
  What the compaction executor is created with.  The answers of \<^verbatim>\<open>MinActiveSnapshot\<close> are listed by the round of
  the compaction loop and the call within it.
\<close>

definition executor_env :: "LSMOptions \<Rightarrow> nat \<Rightarrow> cenv \<Rightarrow> cenv" where
  "executor_env opts i env =
     env\<lparr>ce_blockSize := lo_BlockSize opts, ce_bloomBits := lo_BloomBitsPerKey opts, ce_targetSize := TargetSize 1,
         ce_minActive := map_option (\<lambda>f. f i) (lo_MinActiveSnapshot opts)\<rparr>"

fun load_readers :: "(u64 \<Rightarrow> bytes option) \<Rightarrow> FileMetadata list \<Rightarrow> (u64 \<rightharpoonup> sst_reader) \<Rightarrow> lsm_error + (u64 \<rightharpoonup> sst_reader)" where
  "load_readers disk [] readers = Inr readers"
| "load_readers disk (f # fs) readers =
     (case disk (fm_FileNum f) of
        None \<Rightarrow> Inl ErrOpen
      | Some data \<Rightarrow>
          (case OpenReader data (fm_FileNum f) of
             Inl e \<Rightarrow> Inl (ErrReader e)
           | Inr r \<Rightarrow> load_readers disk fs (readers(fm_FileNum f \<mapsto> r))))"

definition NewLSMTree :: "LSMOptions \<Rightarrow> osfile \<Rightarrow> (u64 \<Rightarrow> bytes option) \<Rightarrow> lsm_error + LSMTree" where
  "NewLSMTree opts manifestFile disk =
     (case OpenManifest manifestFile of
        Inl e \<Rightarrow> Inl (ErrManifest e)
      | Inr m \<Rightarrow>
          (case load_readers disk (concat (mf_current m)) Map.empty of
             Inl e \<Rightarrow> Inl e
           | Inr readers \<Rightarrow>
               Inr \<lparr>ls_store = \<lparr>st_disk = disk, st_manifest = m, st_cache = Some (NewBlockCache (lo_BlockCacheSize opts))\<rparr>,
                    ls_readers = readers, ls_opts = opts, ls_compactCh = False, ls_stopped = False, ls_stalled = False,
                    ls_stats = new_stats\<rparr>))"

section \<open>Write stalls\<close>

definition CheckWriteStall :: "LSMTree \<Rightarrow> LSMTree" where
  "CheckWriteStall l = l\<lparr>ls_stalled := lo_L0StallTrigger (ls_opts l) \<le> int (length (ls_version l ! 0))\<rparr>"

text \<open>\<open>waited\<close> is the time the caller has spent in the wait loop, if it entered it.\<close>

definition WaitForStall :: "i64 option \<Rightarrow> LSMTree \<Rightarrow> LSMTree option" where
  "WaitForStall waited l =
     (if ls_stalled l then None
      else Some (case waited of None \<Rightarrow> l | Some ms \<Rightarrow> l\<lparr>ls_stats := RecordStall ms (ls_stats l)\<rparr>))"

definition ReleaseStall :: "LSMTree \<Rightarrow> LSMTree" where
  "ReleaseStall l = CheckWriteStall l"

section \<open>Flush\<close>

text \<open>The loop over the memtable: the writer, the smallest and the largest key and the number of entries.\<close>

fun flush_entries :: "cenv \<Rightarrow> entry list \<Rightarrow> sst_writer \<times> bytes \<times> bytes \<times> u64 \<Rightarrow> bool \<times> sst_writer \<times> bytes \<times> bytes \<times> u64" where
  "flush_entries env [] s = (True, s)"
| "flush_entries env (e # es) (w, smallest, largest, n) =
     (case sst_Add (ce_sum128 env) (ce_compress env) (fst e) (snd e) w of
        (False, w) \<Rightarrow> (False, snd (sst_Close (ce_compress env) w), if n = 0 then fst e else smallest, fst e, n)
      | (True, w) \<Rightarrow> flush_entries env es (w, if n = 0 then fst e else smallest, fst e, n + 1))"

text \<open>Writing the table: the error, or its metadata.\<close>

definition flush_table :: "cenv \<Rightarrow> entry list \<Rightarrow> store \<Rightarrow> (lsm_error + FileMetadata \<times> sst_reader) \<times> store" where
  "flush_table env es st =
     (case NextFileNumber (st_manifest st) of
        (num, mf) \<Rightarrow>
          let st = st\<lparr>st_manifest := mf\<rparr> in
          if \<not> ce_create env num then (Inl ErrCreate, st)
          else case flush_entries env es
                      (sst_NewWriter \<lparr>f_data = [], f_script = ce_script env num\<rparr> (ce_blockSize env) (ce_bloomBits env), [], [], 0) of
                 (False, w, _) \<Rightarrow> (Inl ErrWrite, write_through num w st)
               | (True, w, smallest, largest, n) \<Rightarrow>
                   (case sst_Close (ce_compress env) w of
                      (ok, w) \<Rightarrow>
                        let st = write_through num w st; data = f_data (sw_file w) in
                        if \<not> ok then (Inl ErrWrite, st)
                        else if \<not> ce_stat env num then (Inl ErrOpen, st)
                        else case OpenReader data num of
                               Inl e \<Rightarrow> (Inl (ErrReader e), st)
                             | Inr r \<Rightarrow>
                                 (Inr (\<lparr>fm_Level = 0, fm_FileNum = num, fm_FileSize = of_nat (length data),
                                        fm_SmallestKey = smallest, fm_LargestKey = largest, fm_NumEntries = n\<rparr>, r), st)))"

definition flush_edit :: "FileMetadata \<Rightarrow> VersionEdit" where
  "flush_edit f = \<lparr>ve_AddedFiles = [f], ve_DeletedFiles = [], ve_NextFileNum = 0\<rparr>"

definition flush_run :: "cenv \<Rightarrow> entry list \<Rightarrow> LSMTree \<Rightarrow> lsm_error option \<times> LSMTree" where
  "flush_run env es l =
     (case flush_table (executor_env (ls_opts l) 0 env) es (ls_store l) of
        (Inl e, st) \<Rightarrow> (Some e, l\<lparr>ls_store := st\<rparr>)
      | (Inr (f, r), st) \<Rightarrow>
          (case manifest_Apply (flush_edit f) (st_manifest st) of
             (err, mf) \<Rightarrow>
               let l = l\<lparr>ls_readers := (ls_readers l)(fm_FileNum f \<mapsto> r), ls_store := st\<lparr>st_manifest := mf\<rparr>\<rparr> in
               case err of
                 Some e \<Rightarrow> (Some (ErrManifest e), l)
               | None \<Rightarrow> (None, (CheckWriteStall l)\<lparr>ls_compactCh := True\<rparr>)))"

definition lsm_Flush :: "cenv \<Rightarrow> i64 option \<Rightarrow> MemTable \<Rightarrow> LSMTree \<Rightarrow> (lsm_error option \<times> LSMTree) option" where
  "lsm_Flush env waited mt l = do {
     l \<leftarrow> WaitForStall waited l;
     es \<leftarrow> mt_entries mt;
     Some (flush_run env es l) }"

section \<open>Get\<close>

text \<open>The binary search for the one file of a level whose range holds the key.\<close>

function find_file :: "bytes \<Rightarrow> FileMetadata list \<Rightarrow> int \<Rightarrow> int \<Rightarrow> FileMetadata option" where
  "find_file key files left right =
     (if right < left then None
      else let mid = left + (right - left) div 2; f = files ! nat mid in
        if 0 \<le> CompareKeys key (fm_SmallestKey f) \<and> CompareKeys key (fm_LargestKey f) \<le> 0 then Some f
        else if CompareKeys key (fm_SmallestKey f) < 0 then find_file key files left (mid - 1)
        else find_file key files (mid + 1) right)"
  by pat_completeness auto
termination
  by (relation "measure (\<lambda>(key, files, left, right). nat (right - left + 1))") (auto simp: Let_def)

declare find_file.simps [simp del]

text \<open>The files in the order they are asked.\<close>

definition level_candidates :: "bytes \<Rightarrow> FileMetadata list \<Rightarrow> FileMetadata list" where
  "level_candidates key files =
     (if files = [] then []
      else case find_file key files 0 (int (length files) - 1) of None \<Rightarrow> [] | Some f \<Rightarrow> [f])"

definition candidates :: "bytes \<Rightarrow> Version \<Rightarrow> FileMetadata list" where
  "candidates key v = rev (v ! 0) @ concat (map (\<lambda>level. level_candidates key (v ! level)) [1..<MaxLevels])"

fun probe :: "cenv \<Rightarrow> (u64 \<rightharpoonup> sst_reader) \<Rightarrow> bytes \<Rightarrow> FileMetadata list \<Rightarrow> BlockCache option \<Rightarrow>
    (lsm_error + bytes option option) \<times> BlockCache option" where
  "probe env readers key [] cache = (Inr None, cache)"
| "probe env readers key (f # fs) cache =
     (case readers (fm_FileNum f) of
        None \<Rightarrow> probe env readers key fs cache
      | Some r \<Rightarrow>
          (case sst_Get (ce_sum128 env) (ce_uncompress env) key r cache of
             (Inl e, cache) \<Rightarrow> (Inl (ErrReader e), cache)
           | (Inr (Some v), cache) \<Rightarrow> (Inr (Some v), cache)
           | (Inr None, cache) \<Rightarrow> probe env readers key fs cache))"

definition get_version :: "cenv \<Rightarrow> bytes \<Rightarrow> Version \<Rightarrow> LSMTree \<Rightarrow> (lsm_error + bytes option option) \<times> LSMTree" where
  "get_version env key v l =
     (case probe env (ls_readers l) key (candidates key v) (st_cache (ls_store l)) of
        (res, cache) \<Rightarrow> (res, l\<lparr>ls_store := (ls_store l)\<lparr>st_cache := cache\<rparr>\<rparr>))"

definition lsm_Get :: "cenv \<Rightarrow> bytes \<Rightarrow> LSMTree \<Rightarrow> (lsm_error + bytes option option) \<times> LSMTree" where
  "lsm_Get env key l = get_version env key (ls_version l) l"

section \<open>Background compaction\<close>

definition maxOccupiedLevel :: "Version \<Rightarrow> nat" where
  "maxOccupiedLevel v = fold (\<lambda>i m. if v ! i \<noteq> [] then i else m) [0..<MaxLevels] 0"

text \<open>The readers after a compaction: those of the inputs go, those of the output level are opened.\<close>

definition drop_readers :: "FileMetadata list \<Rightarrow> (u64 \<rightharpoonup> sst_reader) \<Rightarrow> (u64 \<rightharpoonup> sst_reader)" where
  "drop_readers files readers = fold (\<lambda>f rs. rs(fm_FileNum f := None)) files readers"

definition open_reader :: "(u64 \<Rightarrow> bytes option) \<Rightarrow> FileMetadata \<Rightarrow> (u64 \<rightharpoonup> sst_reader) \<Rightarrow> (u64 \<rightharpoonup> sst_reader)" where
  "open_reader disk f readers =
     (if readers (fm_FileNum f) \<noteq> None then readers
      else case disk (fm_FileNum f) of
             None \<Rightarrow> readers
           | Some data \<Rightarrow>
               (case OpenReader data (fm_FileNum f) of Inl e \<Rightarrow> readers | Inr r \<Rightarrow> readers(fm_FileNum f \<mapsto> r)))"

definition install :: "Compaction \<Rightarrow> LSMTree \<Rightarrow> LSMTree" where
  "install c l =
     l\<lparr>ls_readers := fold (open_reader (st_disk (ls_store l))) (ls_version l ! cp_OutputLevel c)
                       (drop_readers (cp_Source c @ cp_Target c) (ls_readers l))\<rparr>"

text \<open>One round of the loop: whether it goes on, and the tree.\<close>

definition compact_round :: "(rat \<Rightarrow> rat) \<Rightarrow> nat \<Rightarrow> cenv \<Rightarrow> i64 \<Rightarrow> LSMTree \<Rightarrow> (bool \<times> LSMTree) option" where
  "compact_round rnd i env ms l =
     (case PickCompaction rnd (ls_version l) of
        None \<Rightarrow> Some (False, l)
      | Some c \<Rightarrow>
          (case Execute (executor_env (ls_opts l) i env) (Some c) (maxOccupiedLevel (ls_version l)) (ls_store l) of
             None \<Rightarrow> None
           | Some (Inl e, st) \<Rightarrow> Some (True, l\<lparr>ls_store := st\<rparr>)
           | Some (Inr (bytesIn, bytesOut), st) \<Rightarrow>
               Some (True, ReleaseStall (install c
                 (l\<lparr>ls_store := st, ls_stats := RecordCompaction bytesIn bytesOut ms (ls_stats l)\<rparr>)))))"

text \<open>Round \<open>i\<close> runs in the environment \<open>envs i\<close> and takes \<open>durs i\<close>.\<close>

partial_function (option) compact_rounds ::
  "(rat \<Rightarrow> rat) \<Rightarrow> (nat \<Rightarrow> cenv) \<Rightarrow> (nat \<Rightarrow> i64) \<Rightarrow> nat \<Rightarrow> LSMTree \<Rightarrow> LSMTree option" where
  "compact_rounds rnd envs durs i l =
     (case compact_round rnd i (envs i) (durs i) l of
        None \<Rightarrow> None
      | Some (again, l) \<Rightarrow> if again then compact_rounds rnd envs durs (Suc i) l else Some l)"

definition doCompaction :: "(rat \<Rightarrow> rat) \<Rightarrow> (nat \<Rightarrow> cenv) \<Rightarrow> (nat \<Rightarrow> i64) \<Rightarrow> LSMTree \<Rightarrow> LSMTree option" where
  "doCompaction rnd envs durs l = do {
     l \<leftarrow> compact_rounds rnd envs durs 0 (l\<lparr>ls_stats := IncrPending (ls_stats l)\<rparr>);
     Some (l\<lparr>ls_stats := DecrPending (ls_stats l)\<rparr>) }"

text \<open>One turn of the background goroutine; \<^term>\<open>None\<close> when it waits, for a signal or in a compaction.\<close>

definition compactionLoop :: "(rat \<Rightarrow> rat) \<Rightarrow> (nat \<Rightarrow> cenv) \<Rightarrow> (nat \<Rightarrow> i64) \<Rightarrow> LSMTree \<Rightarrow> LSMTree option" where
  "compactionLoop rnd envs durs l = (if ls_compactCh l then doCompaction rnd envs durs (l\<lparr>ls_compactCh := False\<rparr>) else None)"

text \<open>
  Closing: the compaction goroutine ends and the files are closed; a second call panics.  The manifest's
  error is the only one returned.
\<close>

definition lsm_Close :: "LSMTree \<Rightarrow> (lsm_error option \<times> LSMTree) option" where
  "lsm_Close l =
     (if ls_stopped l then None
      else case file_close (mf_file (ls_manifest l)) of
             (ok, f) \<Rightarrow>
               Some (if ok then None else Some (ErrManifest ErrManifestIO),
                     l\<lparr>ls_stopped := True, ls_store := (ls_store l)\<lparr>st_manifest := (ls_manifest l)\<lparr>mf_file := f\<rparr>\<rparr>\<rparr>))"

definition lsm_Stats :: "LSMTree \<Rightarrow> CompactionStatsSnapshot" where
  "lsm_Stats l = stats_Snapshot (ls_stats l)"

section \<open>Rate limiter\<close>

record RateLimiter =
  rl_bytesPerSec :: int
  rl_available :: int

definition NewRateLimiter :: "int \<Rightarrow> RateLimiter option" where
  "NewRateLimiter bytesPerSec =
     (if bytesPerSec \<le> 0 then None else Some \<lparr>rl_bytesPerSec = bytesPerSec, rl_available = bytesPerSec\<rparr>)"

definition refill_amount :: "RateLimiter \<Rightarrow> int" where
  "refill_amount r = (if rl_bytesPerSec r div 10 = 0 then 1 else rl_bytesPerSec r div 10)"

definition refill :: "RateLimiter \<Rightarrow> RateLimiter" where
  "refill r = r\<lparr>rl_available := min (rl_available r + refill_amount r) (rl_bytesPerSec r)\<rparr>"

text \<open>One pass of the request loop: the bytes still to be granted; the request waits for a refill if any are left.\<close>

definition request_step :: "int \<Rightarrow> RateLimiter \<Rightarrow> int \<times> RateLimiter" where
  "request_step bytes r =
     (if bytes \<le> 0 then (0, r)
      else if bytes \<le> rl_available r then (0, r\<lparr>rl_available := rl_available r - bytes\<rparr>)
      else if 0 < rl_available r then (bytes - rl_available r, r\<lparr>rl_available := 0\<rparr>)
      else (bytes, r))"

text \<open>A request that waits alone, one refill at each wake-up; the number of refills it waits for.\<close>

partial_function (option) Request :: "int \<Rightarrow> RateLimiter \<Rightarrow> (nat \<times> RateLimiter) option" where
  "Request bytes r =
     (case request_step bytes r of
        (left, r) \<Rightarrow>
          if left \<le> 0 then Some (0, r)
          else do { (n, r) \<leftarrow> Request left (refill r); Some (Suc n, r) })"

end
