(* ===== verification/VersionGc.thy ===== *)
theory VersionGc
  imports Compaction
begin

text \<open>
  The garbage collection of the merge loop in \<^verbatim>\<open>internal/lsm/compaction.go\<close>: which versions of a merged run
  survive, and what a snapshot read sees of them.
\<close>

section \<open>Garbage collection of versions\<close>

text \<open>The survivors of a merged run: \<open>gc_step\<close> along the entries, \<open>M i\<close> being the answer of call \<open>i\<close>.\<close>

fun gc_list :: "(nat \<Rightarrow> u64) \<Rightarrow> bool \<Rightarrow> nat \<Rightarrow> bytes \<times> bool \<Rightarrow> entry list \<Rightarrow> entry list" where
  "gc_list M deepest n s [] = []"
| "gc_list M deepest n s (e # es) =
     (case gc_step (M n) deepest e s of
        (keep, s) \<Rightarrow> (if keep then [e] else []) @ gc_list M deepest (Suc n) s es)"

abbreviation key_ts :: "bytes \<Rightarrow> u64" where
  "key_ts k \<equiv> snd (DecodeKey k)"

text \<open>A snapshot read: the first, hence newest, version of the user key not above the snapshot.\<close>

definition visible :: "entry list \<Rightarrow> bytes \<Rightarrow> u64 \<Rightarrow> entry option" where
  "visible es uk s = find (\<lambda>e. UserKey (fst e) = uk \<and> key_ts (fst e) \<le> s) es"

definition snapshot_read :: "entry list \<Rightarrow> bytes \<Rightarrow> u64 \<Rightarrow> bytes option" where
  "snapshot_read es uk s = Option.bind (visible es uk s) snd"

lemma gc_step_simps:
  "gc_step M d e (luk, seen) =
     (let seen' = (if UserKey (fst e) = luk then seen else False) in
      if key_ts (fst e) < M
      then if seen' then (False, UserKey (fst e), True)
           else (\<not> (snd e = None \<and> d), UserKey (fst e), True)
      else (True, UserKey (fst e), seen'))"
  using fst_DecodeKey [of "fst e"] by (auto simp: gc_step_def Let_def split: prod.splits)

lemma gc_step_key: "fst (snd (gc_step M d e s)) = UserKey (fst e)"
  by (cases s) (simp add: gc_step_simps Let_def)

lemma set_gc_list: "set (gc_list M d n s es) \<subseteq> set es"
  by (induction es arbitrary: n s) (auto split: prod.splits if_splits)

lemma same_user_key_ts:
  assumes "8 \<le> length a" "8 \<le> length b" "UserKey a = UserKey b" "kord a < kord b"
  shows "key_ts b < key_ts a"
proof -
  have a: "EncodeKey (UserKey a) (key_ts a) = a" and b: "EncodeKey (UserKey b) (key_ts b) = b"
    using EncodeKey_DecodeKey assms(1,2) by (simp_all add: fst_DecodeKey)
  have "EncodeKey (UserKey b) (key_ts a) < EncodeKey (UserKey b) (key_ts b)"
    using a b assms(3,4) by (simp add: kord_def)
  then show ?thesis by (simp add: EncodeKey_def append_less_same_prefix put_be_NOT_less)
qed

lemma gc_list_seen:
  assumes "mono M" "\<forall>e \<in> set es. UserKey (fst e) = uk \<longrightarrow> key_ts (fst e) < M n" "asc_by CompareKeys es"
    "\<forall>e \<in> set es. uk \<le> UserKey (fst e)"
  shows "visible (gc_list M d n (uk, True) es) uk s = None"
  using assms
proof (induction es arbitrary: n)
  case Nil
  then show ?case by (simp add: visible_def)
next
  case (Cons e es)
  show ?case
  proof (cases "UserKey (fst e) = uk")
    case True
    have "key_ts (fst e) < M n" using Cons.prems(2) True by simp
    then have step: "gc_step (M n) d e (uk, True) = (False, uk, True)" using True by (simp add: gc_step_simps)
    have "M n \<le> M (Suc n)" using Cons.prems(1) by (simp add: monoD)
    then have "visible (gc_list M d (Suc n) (uk, True) es) uk s = None"
      using Cons.prems by (intro Cons.IH) (auto simp: ck.asc_by_Cons intro: less_le_trans)
    then show ?thesis by (simp add: step)
  next
    case False
    have "UserKey (fst e') \<noteq> uk" if "e' \<in> set es" for e'
    proof -
      have "uk < UserKey (fst e)" using Cons.prems(4) False by (simp add: order_neq_le_trans)
      moreover have "kord (fst e) < kord (fst e')" using Cons.prems(3) that by (simp add: ck.asc_by_Cons ck_ord)
      ultimately show ?thesis by (auto simp: kord_def)
    qed
    then have "UserKey (fst x) \<noteq> uk" if "x \<in> set (gc_list M d n (uk, True) (e # es))" for x
      using that False subsetD [OF set_gc_list] by fastforce
    then show ?thesis unfolding visible_def find_None_iff by blast
  qed
qed

lemma gc_list_visible:
  assumes "mono M" "\<And>i. M i \<le> s" "asc_by CompareKeys es" "\<forall>e \<in> set es. 8 \<le> length (fst e)" "\<not> (seen \<and> uk = luk)"
  shows "(\<not> d \<longrightarrow> visible (gc_list M d n (luk, seen) es) uk s = visible es uk s) \<and>
    snapshot_read (gc_list M d n (luk, seen) es) uk s = snapshot_read es uk s"
  using assms(3-)
proof (induction es arbitrary: n luk seen)
  case Nil
  then show ?case by simp
next
  case (Cons e es)
  have asc: "asc_by CompareKeys es" "\<forall>e' \<in> set es. kord (fst e) < kord (fst e')"
    using Cons.prems(1) by (simp_all add: ck.asc_by_Cons ck_ord)
  show ?case
  proof (cases "UserKey (fst e) = uk")
    case False
    obtain keep seen' where st: "gc_step (M n) d e (luk, seen) = (keep, UserKey (fst e), seen')"
      using gc_step_key [of "M n" d e "(luk, seen)"] by (metis prod.collapse)
    have "\<not> (seen' \<and> uk = UserKey (fst e))" using False by simp
    note IH = Cons.IH [OF asc(1) _ this, of "Suc n"]
    have gc: "gc_list M d n (luk, seen) (e # es) = (if keep then [e] else []) @ gc_list M d (Suc n) (UserKey (fst e), seen') es"
      using st by simp
    show ?thesis unfolding gc using IH Cons.prems(2) False by (auto simp: visible_def snapshot_read_def)
  next
    case True
    have fresh: "(if UserKey (fst e) = luk then seen else False) = False" using Cons.prems(3) True by auto
    show ?thesis
    proof (cases "key_ts (fst e) < M n")
      case old: True
      have le: "key_ts (fst e) \<le> s" using less_le_trans [OF old assms(2)] by (rule less_imp_le)
      then have vis: "visible (e # es) uk s = Some e" using True by (simp add: visible_def)
      show ?thesis
      proof (cases "snd e = None \<and> d")
        case tomb: True
        have "gc_step (M n) d e (luk, seen) = (False, uk, True)"
          using True old fresh tomb by (simp add: gc_step_simps)
        moreover have "visible (gc_list M d (Suc n) (uk, True) es) uk s = None"
        proof (rule gc_list_seen [OF assms(1) _ asc(1)])
          show "\<forall>e' \<in> set es. UserKey (fst e') = uk \<longrightarrow> key_ts (fst e') < M (Suc n)"
          proof (intro ballI impI)
            fix e' assume e': "e' \<in> set es" "UserKey (fst e') = uk"
            have "key_ts (fst e') < key_ts (fst e)"
              using same_user_key_ts [of "fst e" "fst e'"] e' True asc(2) Cons.prems(2) by simp
            also have "\<dots> < M n" by (rule old)
            also have "\<dots> \<le> M (Suc n)" using assms(1) by (simp add: monoD)
            finally show "key_ts (fst e') < M (Suc n)" .
          qed
          show "\<forall>e' \<in> set es. uk \<le> UserKey (fst e')"
            using asc(2) True by (auto simp: kord_def)
        qed
        ultimately show ?thesis using vis tomb by (simp add: snapshot_read_def)
      next
        case False
        then have "gc_step (M n) d e (luk, seen) = (True, uk, True)"
          using True old fresh by (simp add: gc_step_simps)
        then have gc: "gc_list M d n (luk, seen) (e # es) = e # gc_list M d (Suc n) (uk, True) es" by simp
        show ?thesis unfolding gc using vis True le by (simp add: visible_def snapshot_read_def)
      qed
    next
      case False
      then have st: "gc_step (M n) d e (luk, seen) = (True, uk, False)"
        using True fresh by (simp add: gc_step_simps)
      have gc: "gc_list M d n (luk, seen) (e # es) = e # gc_list M d (Suc n) (uk, False) es" using st by simp
      show ?thesis unfolding gc
        using Cons.IH [OF asc(1), of False uk "Suc n"] Cons.prems(2) by (auto simp: visible_def snapshot_read_def)
    qed
  qed
qed

lemma gc_list_nil: "gc_list (\<lambda>_. 0) d n s es = es"
proof (induction es arbitrary: n s)
  case (Cons e es)
  obtain luk seen where "s = (luk, seen)" by (cases s)
  then show ?case using Cons by (simp add: gc_step_simps)
qed simp

lemma asc_gc_list: "asc_by CompareKeys es \<Longrightarrow> asc_by CompareKeys (gc_list M d n s es)"
  using set_gc_list by (induction es arbitrary: n s) (fastforce simp: ck.asc_by_Cons split: prod.splits)+

lemma length_gc_list: "length (gc_list M d n s es) \<le> length es"
  by (induction es arbitrary: n s) (auto split: prod.splits intro: le_SucI)

end
