(* ===== verification/CompactionMerge.thy ===== *)
theory CompactionMerge
  imports VersionGc
begin

text \<open>
  The merge loop of a compaction on a disk that works: the invariant \<open>merge_inv\<close> that relates the loop's
  variables and the files written so far to the entries consumed, kept by every step of the loop.
\<close>

section \<open>The size of a table\<close>

definition entry_weight :: "entry \<Rightarrow> nat" where
  "entry_weight e = 21 + 2 * length (encode_kv e)"

definition weight :: "entry list \<Rightarrow> nat" where
  "weight es = sum_list (map entry_weight es)"

lemma weight_simps [simp]: "weight [] = 0" "weight (e # es) = entry_weight e + weight es" "weight (es @ fs) = weight es + weight fs"
  by (simp_all add: weight_def)

lemma block_weight:
  assumes "b \<noteq> []"
  shows "21 + length (encode_block b) + length (fst (last b)) \<le> weight b"
proof -
  have enc: "length (encode_block b) + 21 * length b + length (encode_block b) = weight b"
    by (induction b) (simp_all add: entry_weight_def)
  have "length (encode_kv (last b)) \<le> length (encode_block b)"
    using assms by (subst append_butlast_last_id [OF assms, symmetric]) (simp del: append_butlast_last_id)
  then have "length (fst (last b)) \<le> length (encode_block b)" by (simp add: length_encode_kv)
  moreover have "21 \<le> 21 * length b" using assms by (cases b) auto
  ultimately show ?thesis using enc by linarith
qed

lemma length_disk_block: "length (disk_block compress b) \<le> 1 + length (encode_block b)"
  by (simp add: disk_block_def Let_def split: option.split)

lemma length_fold_bloom_Add: "length (bf_bits (fold (bloom_Add sum128) ks f)) = length (bf_bits f)"
  by (induction ks arbitrary: f) simp_all

lemma table_file_bound:
  assumes "[] \<notin> set bs"
  shows "length (table_file sum128 compress bpk bs) \<le> weight (concat bs) + 2 ^ 32 + 49"
proof -
  let ?I = "\<lambda>off bs. concat (map encode_index (index_of compress off bs))"
  have body: "length (data_section compress bs) + length (?I off bs) \<le> weight (concat bs)" for off
    using assms
  proof (induction bs arbitrary: off)
    case (Cons b bs)
    have "length (disk_block compress b) + 20 + length (fst (last b)) \<le> weight b"
      using length_disk_block [of compress b] block_weight [of b] Cons.prems by (cases "b = []") auto
    moreover have "length (data_section compress bs) + length (?I (off + length (disk_block compress b)) bs) \<le> weight (concat bs)"
      using Cons.prems by (intro Cons.IH) simp
    moreover have "length (encode_index e) = 20 + length (ie_Key e)" for e by (simp add: encode_index_def)
    ultimately show ?case by simp
  qed simp
  have "length (bf_bits (NewFilter 10000 bpk)) \<le> 2 ^ 32"
    using unat_u32_less by (simp add: NewFilter_def Let_def less_imp_le)
  then have "length (bloom_Encode (table_filter sum128 bpk bs)) \<le> 2 ^ 32 + 1"
    by (simp add: bloom_Encode_def table_filter_def length_fold_bloom_Add)
  then show ?thesis using body [of 0] by (simp add: table_file_def Let_def FooterSize_def)
qed

section \<open>Tables on disk\<close>

definition env_good :: "cenv \<Rightarrow> bool" where
  "env_good env \<longleftrightarrow> (\<forall>n. ce_create env n) \<and> (\<forall>n. ce_script env n = []) \<and> (\<forall>n. ce_stat env n) \<and>
     lz4_ok (ce_compress env) (ce_uncompress env) \<and> bloom_request 10000 (ce_bloomBits env) \<le> - 8 \<and>
     0 < ce_blockSize env \<and> ce_blockSize env \<le> int (8 * DefaultBlockSize)"

text \<open>The file of that number opens and holds exactly these entries.\<close>

definition table_on :: "cenv \<Rightarrow> (u64 \<Rightarrow> bytes option) \<Rightarrow> u64 \<Rightarrow> entry list \<Rightarrow> bool" where
  "table_on env disk num es \<longleftrightarrow>
     (\<exists>data r bs. disk num = Some data \<and> OpenReader data num = Inr r \<and>
        reader_rep (ce_sum128 env) (ce_uncompress env) r bs \<and> concat bs = es)"

lemma OpenReader_FileID: "OpenReader data num = Inr r \<Longrightarrow> sr_FileID r = num"
  by (auto simp: OpenReader_def split: if_splits option.splits sum.splits)

lemma table_on_written:
  assumes "env_good env" "disk num = Some (table_file (ce_sum128 env) (ce_compress env) (ce_bloomBits env) bs)" "[] \<notin> set bs"
    "\<forall>b \<in> set bs. block_small b" "asc_by CompareKeys (concat bs)" "\<forall>e \<in> set (concat bs). entry_small (ce_blockSize env) e"
    "weight (concat bs) + 2 ^ 33 < max_alloc"
  shows "table_on env disk num (concat bs)"
proof -
  have "length (table_file (ce_sum128 env) (ce_compress env) (ce_bloomBits env) bs) < max_alloc"
    using table_file_bound [OF assms(3), of "ce_sum128 env" "ce_compress env" "ce_bloomBits env"] assms(7) by simp
  moreover have "\<forall>e \<in> set (concat bs). kv_fits e"
    using assms(1,6) entry_small_fits [of "ce_blockSize env"] unfolding env_good_def by blast
  ultimately show ?thesis
    using OpenReader_rep [of "ce_compress env" "ce_uncompress env" "ce_bloomBits env" "ce_sum128 env" bs num] assms
    by (auto simp: table_on_def env_good_def)
qed

text \<open>What a finished output file is.\<close>

definition out_ok :: "cenv \<Rightarrow> nat \<Rightarrow> (u64 \<Rightarrow> bytes option) \<Rightarrow> FileMetadata \<Rightarrow> entry list \<Rightarrow> bool" where
  "out_ok env lvl disk f es \<longleftrightarrow> es \<noteq> [] \<and>
     (\<exists>bs. disk (fm_FileNum f) = Some (table_file (ce_sum128 env) (ce_compress env) (ce_bloomBits env) bs) \<and>
        concat bs = es \<and> [] \<notin> set bs \<and> (\<forall>b \<in> set bs. block_small b) \<and>
        fm_FileSize f = of_nat (length (table_file (ce_sum128 env) (ce_compress env) (ce_bloomBits env) bs))) \<and>
     fm_Level f = int lvl \<and> fm_SmallestKey f = fst (hd es) \<and> fm_LargestKey f = fst (last es) \<and>
     fm_NumEntries f = of_nat (length es)"

lemma out_ok_table:
  assumes "out_ok env lvl disk f es" "env_good env" "asc_by CompareKeys es" "\<forall>e \<in> set es. entry_small (ce_blockSize env) e"
    "weight es + 2 ^ 33 < max_alloc"
  shows "table_on env disk (fm_FileNum f) es"
  using assms table_on_written [OF assms(2), of disk "fm_FileNum f"] by (auto simp: out_ok_def)

section \<open>Writing the outputs\<close>

definition writer_ok :: "cenv \<Rightarrow> merge_state \<Rightarrow> entry list \<Rightarrow> u64 \<Rightarrow> bool" where
  "writer_ok env ms cur num \<longleftrightarrow>
     (case ms_writer ms of
        None \<Rightarrow> cur = []
      | Some w \<Rightarrow> cur \<noteq> [] \<and> ms_fileNum ms = num \<and> ms_smallest ms = fst (hd cur) \<and> ms_entries ms = of_nat (length cur) \<and>
          sw_blockSize w = ce_blockSize env \<and>
          (\<exists>bs cb. writer_rep (ce_sum128 env) (ce_compress env) (ce_bloomBits env) w bs cb \<and> concat bs @ cb = cur \<and>
             (\<forall>b \<in> set bs. block_small b) \<and> int (length (encode_block cb)) < ce_blockSize env))"

definition allocated :: "u64 \<Rightarrow> nat \<Rightarrow> u64 set" where
  "allocated n0 k = (\<lambda>i. n0 + of_nat i) ` {..<k}"

definition outputs :: "entry list list \<Rightarrow> entry list \<Rightarrow> nat" where
  "outputs tss cur = length tss + (if cur = [] then 0 else 1)"

definition merge_inv :: "cenv \<Rightarrow> nat \<Rightarrow> store \<Rightarrow> merge_state \<Rightarrow> store \<Rightarrow> entry list list \<Rightarrow> entry list \<Rightarrow> bool" where
  "merge_inv env lvl st0 ms st tss cur \<longleftrightarrow>
     (let n0 = mf_nextFileNum (st_manifest st0) in
      list_all2 (out_ok env lvl (st_disk st)) (ms_added ms) tss \<and>
      map fm_FileNum (ms_added ms) = map (\<lambda>i. n0 + of_nat i) [0..<length tss] \<and>
      (concat tss @ cur \<noteq> [] \<longrightarrow> ms_lastKey ms = fst (last (concat tss @ cur))) \<and>
      writer_ok env ms cur (n0 + of_nat (length tss)) \<and>
      st_manifest st = (st_manifest st0)\<lparr>mf_nextFileNum := n0 + of_nat (outputs tss cur)\<rparr> \<and>
      (\<forall>num. num \<notin> allocated n0 (outputs tss cur) \<longrightarrow> st_disk st num = st_disk st0 num))"

lemma merge_inv_new: "merge_inv env lvl st new_merge_state st [] []"
  by (simp add: merge_inv_def Let_def writer_ok_def new_merge_state_def outputs_def allocated_def)

lemma merge_inv_frame:
  "merge_inv env lvl st0 ms st tss cur \<Longrightarrow>
     merge_inv env lvl st0 (ms\<lparr>ms_calls := n, ms_lastUserKey := k, ms_seen := b\<rparr>) (st\<lparr>st_cache := c\<rparr>) tss cur"
  by (simp add: merge_inv_def Let_def writer_ok_def cong: option.case_cong)

lemma env_good_compress: "env_good env \<Longrightarrow> ce_compress env u \<noteq> None"
  by (simp add: env_good_def lz4_ok_def)

lemma out_ok_length: "list_all2 (out_ok env lvl disk) fs tss \<Longrightarrow> length tss \<le> length (concat tss)"
proof (induction rule: list_all2_induct)
  case (Cons f fs es tss)
  then show ?case by (cases es) (auto simp: out_ok_def)
qed simp

lemma out_ok_other:
  "list_all2 (out_ok env lvl disk) fs tss \<Longrightarrow> num \<notin> fm_FileNum ` set fs \<Longrightarrow>
     list_all2 (out_ok env lvl (disk(num := x))) fs tss"
  by (induction rule: list_all2_induct) (auto simp: out_ok_def)

lemma fresh_number:
  assumes "map fm_FileNum fs = map (\<lambda>i. n0 + of_nat i) [0..<length tss]" "length tss < 2 ^ 64"
  shows "n0 + of_nat (length tss) \<notin> fm_FileNum ` set fs"
proof -
  have "unat (of_nat i :: u64) = i" if "i \<le> length tss" for i
    using that assms(2) by (simp add: unat_of_nat take_bit_nat_eq_self)
  from this [OF order_refl] this [OF less_imp_le]
  have "n0 + of_nat (length tss) \<noteq> n0 + of_nat i" if "i < length tss" for i
    using that by (metis add_left_cancel nat_neq_iff)
  moreover have "fm_FileNum ` set fs = (\<lambda>i. n0 + of_nat i) ` {..<length tss}"
    unfolding set_map [symmetric] assms(1) by (simp add: lessThan_atLeast0)
  ultimately show ?thesis by auto
qed

lemma open_output_ok:
  assumes "env_good env" "merge_inv env lvl st0 ms st tss cur" "length tss < 2 ^ 64"
  shows "\<exists>ms' st' w bs cb. open_output env k ms st = (True, ms', st') \<and> ms_writer ms' = Some w \<and>
    writer_rep (ce_sum128 env) (ce_compress env) (ce_bloomBits env) w bs cb \<and> concat bs @ cb = cur \<and>
    (\<forall>b \<in> set bs. block_small b) \<and> int (length (encode_block cb)) < ce_blockSize env \<and> sw_blockSize w = ce_blockSize env \<and>
    ms_fileNum ms' = mf_nextFileNum (st_manifest st0) + of_nat (length tss) \<and>
    ms_smallest ms' = (if cur = [] then k else fst (hd cur)) \<and> ms_entries ms' = of_nat (length cur) \<and>
    ms_added ms' = ms_added ms \<and> ms_lastUserKey ms' = ms_lastUserKey ms \<and> ms_seen ms' = ms_seen ms \<and> ms_calls ms' = ms_calls ms \<and>
    list_all2 (out_ok env lvl (st_disk st')) (ms_added ms) tss \<and>
    st_manifest st' = (st_manifest st0)\<lparr>mf_nextFileNum := mf_nextFileNum (st_manifest st0) + of_nat (Suc (length tss))\<rparr> \<and>
    st_cache st' = st_cache st \<and>
    (\<forall>num. num \<notin> allocated (mf_nextFileNum (st_manifest st0)) (Suc (length tss)) \<longrightarrow> st_disk st' num = st_disk st0 num)"
proof (cases "ms_writer ms")
  case None
  let ?n0 = "mf_nextFileNum (st_manifest st0)"
  let ?num = "?n0 + of_nat (length tss)"
  let ?w = "sst_NewWriter (good_file []) (ce_blockSize env) (ce_bloomBits env)"
  have inv: "list_all2 (out_ok env lvl (st_disk st)) (ms_added ms) tss" "cur = []"
    "map fm_FileNum (ms_added ms) = map (\<lambda>i. ?n0 + of_nat i) [0..<length tss]"
    "st_manifest st = (st_manifest st0)\<lparr>mf_nextFileNum := ?num\<rparr>"
    "\<And>num. num \<notin> allocated ?n0 (length tss) \<Longrightarrow> st_disk st num = st_disk st0 num"
    using assms(2) None by (auto simp: merge_inv_def Let_def writer_ok_def outputs_def)
  have op: "open_output env k ms st =
    (True, ms\<lparr>ms_fileNum := ?num, ms_writer := Some ?w, ms_smallest := k, ms_entries := 0, ms_size := 0\<rparr>,
     write_through ?num ?w (st\<lparr>st_manifest := (st_manifest st0)\<lparr>mf_nextFileNum := ?num + 1\<rparr>\<rparr>))"
    using None inv(4) assms(1) by (simp add: open_output_def NextFileNumber_def Let_def env_good_def good_file_def)
  have "list_all2 (out_ok env lvl ((st_disk st)(?num \<mapsto> f_data (sw_file ?w)))) (ms_added ms) tss"
    by (rule out_ok_other [OF inv(1) fresh_number [OF inv(3) assms(3)]])
  moreover have "?num \<in> allocated ?n0 (Suc (length tss))" by (simp add: allocated_def)
  moreover have "num \<notin> allocated ?n0 (length tss)" if "num \<notin> allocated ?n0 (Suc (length tss))" for num
    using that by (auto simp: allocated_def)
  moreover have "sw_blockSize ?w = ce_blockSize env" by (simp add: sst_NewWriter_def)
  ultimately show ?thesis
    using op NewWriter_rep [of "ce_sum128 env" "ce_compress env" "ce_bloomBits env" "ce_blockSize env"] inv(2,5) assms(1)
    by (auto simp: write_through_def env_good_def add.commute add.left_commute intro!: exI [of _ "[]"])
next
  case (Some w)
  then have "open_output env k ms st = (True, ms, st)" by (simp add: open_output_def)
  then show ?thesis using Some assms(2) by (auto simp: merge_inv_def Let_def writer_ok_def outputs_def)
qed

lemma finish_ok:
  assumes "env_good env" "merge_inv env lvl st0 ms st tss cur" "cur \<noteq> []" "length tss < 2 ^ 64"
  shows "\<exists>ms' st'. finishCurrentFile env lvl ms st = (True, ms', st') \<and> merge_inv env lvl st0 (set_largest ms') st' (tss @ [cur]) [] \<and>
    st_cache st' = st_cache st \<and> ms_lastUserKey (set_largest ms') = ms_lastUserKey ms \<and> ms_seen (set_largest ms') = ms_seen ms \<and>
    ms_calls (set_largest ms') = ms_calls ms"
proof -
  let ?n0 = "mf_nextFileNum (st_manifest st0)"
  let ?num = "?n0 + of_nat (length tss)"
  let ?T = "table_file (ce_sum128 env) (ce_compress env) (ce_bloomBits env)"
  have inv: "list_all2 (out_ok env lvl (st_disk st)) (ms_added ms) tss"
    "map fm_FileNum (ms_added ms) = map (\<lambda>i. ?n0 + of_nat i) [0..<length tss]" "ms_lastKey ms = fst (last cur)"
    "st_manifest st = (st_manifest st0)\<lparr>mf_nextFileNum := ?n0 + of_nat (Suc (length tss))\<rparr>"
    "\<And>num. num \<notin> allocated ?n0 (Suc (length tss)) \<Longrightarrow> st_disk st num = st_disk st0 num"
    using assms(2,3) by (auto simp: merge_inv_def Let_def outputs_def)
  obtain w bs cb where w: "ms_writer ms = Some w" "ms_fileNum ms = ?num" "ms_smallest ms = fst (hd cur)"
    "ms_entries ms = of_nat (length cur)" "writer_rep (ce_sum128 env) (ce_compress env) (ce_bloomBits env) w bs cb"
    "concat bs @ cb = cur" "\<forall>b \<in> set bs. block_small b" "int (length (encode_block cb)) < ce_blockSize env"
    using assms(2,3) by (auto simp: merge_inv_def Let_def writer_ok_def split: option.splits)
  from sst_Close_rep [OF w(5) env_good_compress [OF assms(1)]] w(6) obtain w' bs' where
    w': "sst_Close (ce_compress env) w = (True, w')" "concat bs' = cur" "bs' = bs \<or> bs' = bs @ [cb]" "[] \<notin> set bs'"
      "sw_file w' = good_file (?T bs')" "sst_Size w' = of_nat (length (?T bs'))"
    by auto
  have "block_small cb" using w(8) assms(1) by (simp add: block_small_def env_good_def)
  then have small: "\<forall>b \<in> set bs'. block_small b" using w(7) w'(3) by auto
  let ?f = "\<lparr>fm_Level = int lvl, fm_FileNum = ?num, fm_FileSize = sst_Size w', fm_SmallestKey = fst (hd cur),
    fm_LargestKey = [], fm_NumEntries = of_nat (length cur)\<rparr>"
  let ?ms = "ms\<lparr>ms_bytesOut := ms_bytesOut ms + sst_Size w', ms_added := ms_added ms @ [?f], ms_writer := None\<rparr>"
  have fin: "finishCurrentFile env lvl ms st = (True, ?ms, write_through ?num w' st)"
    using w w'(1) by (simp add: finishCurrentFile_def Let_def)
  let ?disk = "(st_disk st)(?num \<mapsto> ?T bs')"
  have "out_ok env lvl ?disk (?f\<lparr>fm_LargestKey := fst (last cur)\<rparr>) cur"
    using assms(3) w'(2,4,6) small by (auto simp: out_ok_def intro!: exI [of _ bs'])
  moreover have "list_all2 (out_ok env lvl ?disk) (ms_added ms) tss"
    by (rule out_ok_other [OF inv(1) fresh_number [OF inv(2) assms(4)]])
  moreover have "?num \<in> allocated ?n0 (Suc (length tss))" by (simp add: allocated_def)
  ultimately have "merge_inv env lvl st0 (set_largest ?ms) (write_through ?num w' st) (tss @ [cur]) []"
    using inv(2-) assms(3) w'(5)
    by (auto simp: merge_inv_def Let_def writer_ok_def outputs_def set_largest_def write_through_def intro!: list_all2_appendI)
  with fin show ?thesis by (simp add: write_through_def set_largest_def)
qed

lemma set_largest_done:
  assumes "merge_inv env lvl st0 ms st tss []"
  shows "set_largest ms = ms"
proof (cases "ms_added ms = []")
  case False
  have inv: "list_all2 (out_ok env lvl (st_disk st)) (ms_added ms) tss" "concat tss \<noteq> [] \<Longrightarrow> ms_lastKey ms = fst (last (concat tss))"
    using assms by (auto simp: merge_inv_def Let_def)
  then have "tss \<noteq> []" using False by auto
  have "out_ok env lvl (st_disk st) (last (ms_added ms)) (last tss)"
    using inv(1) False \<open>tss \<noteq> []\<close> by (simp add: list_all2_conv_all_nth last_conv_nth)
  moreover have "concat tss = concat (butlast tss) @ last tss" using \<open>tss \<noteq> []\<close> by (metis append_butlast_last_id concat.simps(1) concat.simps(2) concat_append self_append_conv)
  ultimately have "(last (ms_added ms))\<lparr>fm_LargestKey := ms_lastKey ms\<rparr> = last (ms_added ms)"
    using inv(2) by (auto simp: out_ok_def)
  then show ?thesis using False by (simp add: set_largest_def)
qed (simp add: set_largest_def)

lemma add_output_ok:
  assumes "env_good env" "merge_inv env lvl st0 ms st tss cur" "entry_small (ce_blockSize env) e"
    "length (concat tss @ cur) < 2 ^ 64"
  shows "\<exists>ms' st' tss' cur'. add_output env lvl e ms st = (Inr ms', st') \<and> merge_inv env lvl st0 ms' st' tss' cur' \<and>
    concat tss' @ cur' = concat tss @ cur @ [e] \<and> st_cache st' = st_cache st \<and>
    ms_lastUserKey ms' = ms_lastUserKey ms \<and> ms_seen ms' = ms_seen ms \<and> ms_calls ms' = ms_calls ms"
proof -
  let ?n0 = "mf_nextFileNum (st_manifest st0)" let ?k = "fst e"
  have inv: "list_all2 (out_ok env lvl (st_disk st)) (ms_added ms) tss"
    "map fm_FileNum (ms_added ms) = map (\<lambda>i. ?n0 + of_nat i) [0..<length tss]"
    using assms(2) by (simp_all add: merge_inv_def Let_def)
  have few: "length tss < 2 ^ 64" using out_ok_length [OF inv(1)] assms(4) by simp
  from open_output_ok [OF assms(1,2) few, of ?k] obtain ms1 st1 w bs cb where
    op: "open_output env ?k ms st = (True, ms1, st1)" "ms_writer ms1 = Some w"
      "writer_rep (ce_sum128 env) (ce_compress env) (ce_bloomBits env) w bs cb" "concat bs @ cb = cur"
      "\<forall>b \<in> set bs. block_small b" "int (length (encode_block cb)) < ce_blockSize env" "sw_blockSize w = ce_blockSize env"
      "ms_fileNum ms1 = ?n0 + of_nat (length tss)" "ms_smallest ms1 = (if cur = [] then ?k else fst (hd cur))"
      "ms_entries ms1 = of_nat (length cur)" "ms_added ms1 = ms_added ms" "ms_lastUserKey ms1 = ms_lastUserKey ms"
      "ms_seen ms1 = ms_seen ms" "ms_calls ms1 = ms_calls ms" "list_all2 (out_ok env lvl (st_disk st1)) (ms_added ms) tss"
      "st_manifest st1 = (st_manifest st0)\<lparr>mf_nextFileNum := ?n0 + of_nat (Suc (length tss))\<rparr>" "st_cache st1 = st_cache st"
      "\<forall>num. num \<notin> allocated ?n0 (Suc (length tss)) \<longrightarrow> st_disk st1 num = st_disk st0 num"
    by blast
  from sst_Add_rep [OF op(3) env_good_compress [OF assms(1)], of ?k "snd e"] op(7) obtain w' bs' cb' where
    ad: "sst_Add (ce_sum128 env) (ce_compress env) ?k (snd e) w = (True, w')"
      "writer_rep (ce_sum128 env) (ce_compress env) (ce_bloomBits env) w' bs' cb'"
      "bs' = bs \<and> cb' = cb @ [e] \<and> int (length (encode_block cb')) < ce_blockSize env \<or> bs' = bs @ [cb @ [e]] \<and> cb' = []"
      "sw_blockSize w' = ce_blockSize env"
    by auto
  have blk: "concat bs' @ cb' = cur @ [e]" "\<forall>b \<in> set bs'. block_small b" "int (length (encode_block cb')) < ce_blockSize env"
    using ad(3) op(4,5,6) assms(1,3) by (auto simp: block_small_def entry_small_def env_good_def)
  define ms2 where "ms2 = ms1\<lparr>ms_writer := Some w', ms_entries := ms_entries ms1 + 1,
    ms_size := ms_size ms1 + of_nat (length ?k + vlen (snd e) + 8), ms_lastKey := ?k\<rparr>"
  define st2 where "st2 = write_through (ms_fileNum ms1) w' st1"
  have "list_all2 (out_ok env lvl (st_disk st2)) (ms_added ms) tss"
    unfolding st2_def write_through_def op(8) using out_ok_other [OF op(15) fresh_number [OF inv(2) few]] by simp
  moreover have "?n0 + of_nat (length tss) \<in> allocated ?n0 (Suc (length tss))" by (simp add: allocated_def)
  moreover have "writer_ok env ms2 (cur @ [e]) (?n0 + of_nat (length tss))"
    using ad(2,4) blk op(8,9,10) by (auto simp: writer_ok_def ms2_def intro!: exI [of _ bs'] exI [of _ cb'])
  ultimately have inv2: "merge_inv env lvl st0 ms2 st2 tss (cur @ [e])"
    using op inv(2) by (auto simp: merge_inv_def Let_def outputs_def ms2_def st2_def write_through_def)
  have add: "add_output env lvl e ms st =
    (if ms_size ms2 < ce_targetSize env then (Inr ms2, st2)
     else case finishCurrentFile env lvl ms2 st2 of
            (False, ms, st) \<Rightarrow> (Inl ErrWrite, st) | (True, ms, st) \<Rightarrow> (Inr (set_largest ms), st))"
    using op(1,2) ad(1) by (simp add: add_output_def Let_def ms2_def st2_def)
  have keep: "st_cache st2 = st_cache st" "ms_lastUserKey ms2 = ms_lastUserKey ms" "ms_seen ms2 = ms_seen ms" "ms_calls ms2 = ms_calls ms"
    using op by (simp_all add: st2_def ms2_def write_through_def)
  show ?thesis
  proof (cases "ms_size ms2 < ce_targetSize env")
    case True
    then show ?thesis using add inv2 keep by (intro exI [of _ ms2] exI [of _ st2] exI [of _ tss] exI [of _ "cur @ [e]"]) simp
  next
    case False
    from finish_ok [OF assms(1) inv2 _ few] obtain ms3 st3 where
      "finishCurrentFile env lvl ms2 st2 = (True, ms3, st3)" "merge_inv env lvl st0 (set_largest ms3) st3 (tss @ [cur @ [e]]) []"
      "st_cache st3 = st_cache st2" "ms_lastUserKey (set_largest ms3) = ms_lastUserKey ms2" "ms_seen (set_largest ms3) = ms_seen ms2"
      "ms_calls (set_largest ms3) = ms_calls ms2"
      by auto
    then show ?thesis
      using add False keep
      by (intro exI [of _ "set_largest ms3"] exI [of _ st3] exI [of _ "tss @ [cur @ [e]]"] exI [of _ "[]"]) simp
  qed
qed

section \<open>The merge loop\<close>

definition min_at :: "cenv \<Rightarrow> nat \<Rightarrow> u64" where
  "min_at env n = (case ce_minActive env of None \<Rightarrow> 0 | Some f \<Rightarrow> f n)"

lemma merge_entry_ok:
  assumes "env_good env" "merge_inv env lvl st0 ms st tss cur" "entry_small (ce_blockSize env) e"
    "length (concat tss @ cur) < 2 ^ 64" "ce_minActive env \<noteq> None \<Longrightarrow> ms_calls ms = n"
    "gc_step (min_at env n) (maxl \<le> lvl) e (ms_lastUserKey ms, ms_seen ms) = (keep, s')"
  shows "\<exists>ms' st' tss' cur'. merge_entry env lvl maxl e ms st = (Inr ms', st') \<and> merge_inv env lvl st0 ms' st' tss' cur' \<and>
    concat tss' @ cur' = concat tss @ cur @ (if keep then [e] else []) \<and> st_cache st' = st_cache st \<and>
    (ms_lastUserKey ms', ms_seen ms') = s' \<and> (ce_minActive env \<noteq> None \<longrightarrow> ms_calls ms' = Suc n)"
proof -
  define calls where "calls = (if ce_minActive env = None then ms_calls ms else Suc (ms_calls ms))"
  let ?ms = "ms\<lparr>ms_calls := calls, ms_lastUserKey := fst s', ms_seen := snd s'\<rparr>"
  have me: "merge_entry env lvl maxl e ms st = (if keep then add_output env lvl e ?ms st else (Inr ?ms, st))"
    using assms(5,6) by (auto simp: merge_entry_def min_at_def calls_def split: option.splits prod.splits)
  have inv: "merge_inv env lvl st0 ?ms st tss cur"
    using merge_inv_frame [OF assms(2), where n = calls and k = "fst s'" and b = "snd s'" and c = "st_cache st"] by simp
  have calls: "ce_minActive env \<noteq> None \<Longrightarrow> calls = Suc n" using assms(5) by (simp add: calls_def)
  show ?thesis
  proof (cases keep)
    case True
    from add_output_ok [OF assms(1) inv assms(3,4)] obtain ms' st' tss' cur' where
      "add_output env lvl e ?ms st = (Inr ms', st')" "merge_inv env lvl st0 ms' st' tss' cur'"
      "concat tss' @ cur' = concat tss @ cur @ [e]" "st_cache st' = st_cache st"
      "ms_lastUserKey ms' = fst s'" "ms_seen ms' = snd s'" "ms_calls ms' = calls"
      by auto
    then show ?thesis using me True calls
      by (intro exI [of _ ms'] exI [of _ st'] exI [of _ tss'] exI [of _ cur']) simp
  next
    case False
    then show ?thesis using me inv calls
      by (intro exI [of _ ?ms] exI [of _ st] exI [of _ tss] exI [of _ cur]) simp
  qed
qed

lemma merge_loop_ok:
  assumes "env_good env" "sst.merge_rep (ce_uncompress env) (ce_sum128 env) T m ess zs" "cache_fits T (st_cache st)"
    "merge_inv env lvl st0 ms st tss cur" "\<forall>e \<in> set zs. entry_small (ce_blockSize env) e"
    "length (concat tss @ cur @ zs) < 2 ^ 64" "ce_minActive env \<noteq> None \<Longrightarrow> ms_calls ms = n"
  shows "\<exists>ms' st' tss' cur'. merge_loop env lvl maxl m ms st = Some (Inr ms', st') \<and> merge_inv env lvl st0 ms' st' tss' cur' \<and>
    concat tss' @ cur' = concat tss @ cur @ gc_list (min_at env) (maxl \<le> lvl) n (ms_lastUserKey ms, ms_seen ms) zs \<and>
    cache_fits T (st_cache st')"
  using assms(2-)
proof (induction zs arbitrary: m ms st tss cur n)
  case Nil
  then have "\<not> mi_valid m" using sst.merge_rep_current(1) by blast
  then show ?case using Nil by (subst merge_loop.simps) auto
next
  case (Cons z zs)
  have m: "mi_valid m" "z = (mi_currentKey m, mi_currentVal m)"
    using sst.merge_rep_current(1) [OF Cons.prems(1)] sst.merge_rep_current(2) [OF Cons.prems(1)] by blast+
  obtain keep s' where gc: "gc_step (min_at env n) (maxl \<le> lvl) z (ms_lastUserKey ms, ms_seen ms) = (keep, s')" by (metis surj_pair)
  have "entry_small (ce_blockSize env) z" "length (concat tss @ cur) < 2 ^ 64" using Cons.prems(4,5) by simp_all
  from merge_entry_ok [OF assms(1) Cons.prems(3) this Cons.prems(6) gc] obtain ms1 st1 tss1 cur1 where
    me: "merge_entry env lvl maxl z ms st = (Inr ms1, st1)" "merge_inv env lvl st0 ms1 st1 tss1 cur1"
      "concat tss1 @ cur1 = concat tss @ cur @ (if keep then [z] else [])" "st_cache st1 = st_cache st"
      "(ms_lastUserKey ms1, ms_seen ms1) = s'" "ce_minActive env \<noteq> None \<Longrightarrow> ms_calls ms1 = Suc n"
    by auto
  from sst.mi_Next_ok [OF Cons.prems(1,2)] obtain m1 c1 where
    nx: "mi_Next (sst_ops (ce_uncompress env)) m (st_cache st1) = Some (m1, c1)"
      "sst.merge_rep (ce_uncompress env) (ce_sum128 env) T m1 ess zs" "cache_fits T c1"
    using me(4) by auto
  have inv1: "merge_inv env lvl st0 ms1 (st1\<lparr>st_cache := c1\<rparr>) tss1 cur1"
    using merge_inv_frame [OF me(2), where n = "ms_calls ms1" and k = "ms_lastUserKey ms1" and b = "ms_seen ms1" and c = c1] by simp
  have "length (concat tss1 @ cur1 @ zs) < 2 ^ 64" using Cons.prems(5) arg_cong [OF me(3), of length] by (auto split: if_splits)
  from Cons.IH [OF nx(2) _ inv1 _ this me(6)] nx(3) Cons.prems(4) obtain ms' st' tss' cur' where
    "merge_loop env lvl maxl m1 ms1 (st1\<lparr>st_cache := c1\<rparr>) = Some (Inr ms', st')" "merge_inv env lvl st0 ms' st' tss' cur'"
    "concat tss' @ cur' = concat tss1 @ cur1 @ gc_list (min_at env) (maxl \<le> lvl) (Suc n) (ms_lastUserKey ms1, ms_seen ms1) zs"
    "cache_fits T (st_cache st')"
    by auto
  moreover have "merge_loop env lvl maxl m ms st = merge_loop env lvl maxl m1 ms1 (st1\<lparr>st_cache := c1\<rparr>)"
    using m me(1) nx(1) by (subst merge_loop.simps) simp
  ultimately show ?case using me(3,5) gc
    by (intro exI [of _ ms'] exI [of _ st'] exI [of _ tss'] exI [of _ cur']) auto
qed

end
