(* ===== verification/CompactionCorrect.thy ===== *)
theory CompactionCorrect
  imports CompactionMerge
begin

text \<open>
  Correctness of compaction: the picked inputs, and the tables, the manifest, the disk and the block
  cache an execution leaves behind.
\<close>

section \<open>The block cache and the disk\<close>

text \<open>The blocks the cache may hold: those of the files on disk.\<close>

definition disk_truth :: "cenv \<Rightarrow> (u64 \<Rightarrow> bytes option) \<Rightarrow> u64 \<times> u64 \<Rightarrow> bytes option" where
  "disk_truth env disk k =
     (case disk (fst k) of
        None \<Rightarrow> None
      | Some data \<Rightarrow>
          (case OpenReader data (fst k) of
             Inl _ \<Rightarrow> None
           | Inr r \<Rightarrow>
               (case find (\<lambda>e. bh_Offset (ie_Handle e) = snd k) (sr_indexEntries r) of
                  None \<Rightarrow> None
                | Some e \<Rightarrow> (case fetch_block (ce_uncompress env) r (ie_Handle e) of Inl _ \<Rightarrow> None | Inr d \<Rightarrow> Some d))))"

lemma knows_disk_truth:
  assumes "disk num = Some data" "OpenReader data num = Inr r" "reader_rep (ce_sum128 env) (ce_uncompress env) r bs"
  shows "knows (disk_truth env disk) r bs"
  unfolding knows_def
proof (intro allI impI)
  fix i assume i: "i < length bs"
  let ?e = "sr_indexEntries r ! i"
  have r: "length (sr_indexEntries r) = length bs" "distinct (map (bh_Offset \<circ> ie_Handle) (sr_indexEntries r))"
    "fetch_block (ce_uncompress env) r (ie_Handle ?e) = Inr (encode_block (bs ! i))"
    using assms(3) i by (simp_all add: reader_rep_def)
  have "bh_Offset (ie_Handle (sr_indexEntries r ! j)) \<noteq> bh_Offset (ie_Handle ?e)" if "j < i" for j
    using r(1) nth_eq_iff_index_eq [OF r(2), of j i] i that by simp
  then have "find (\<lambda>e. bh_Offset (ie_Handle e) = bh_Offset (ie_Handle ?e)) (sr_indexEntries r) = Some ?e"
    using i r(1) by (auto simp: find_Some_iff)
  then show "disk_truth env disk (sr_FileID r, bh_Offset (ie_Handle ?e)) = Some (encode_block (bs ! i))"
    using assms(1,2) OpenReader_FileID [OF assms(2)] r(3) by (simp add: disk_truth_def)
qed

lemma cache_fits_mono:
  assumes "cache_fits T c" "\<And>k d. T k = Some d \<Longrightarrow> T' k = Some d"
  shows "cache_fits T' c"
proof (cases c)
  case (Some b)
  have "lru_inv cap T ls \<Longrightarrow> lru_inv cap T' ls" for cap ls
    using assms(2) by (simp add: lru_inv_def lru_good_def)
  then show ?thesis using assms(1) Some by (auto simp: cache_fits_def cache_coh_def)
qed (simp add: cache_fits_def)

lemma cache_fits_RemoveFile:
  assumes "cache_fits T c"
  shows "cache_fits (\<lambda>k. if fst k = f then None else T k) (map_option (cache_RemoveFile f) c)"
proof (cases c)
  case (Some b)
  then obtain cap ls where b: "cache_rep cap b ls" "0 \<le> cap" "lru_inv cap T ls"
    using assms by (auto simp: cache_fits_def cache_coh_def)
  from cache_exec_rep [OF b(1), of "CRemoveFile f"] lru_exec_inv [OF b(3,2), of "CRemoveFile f"] b(2) Some show ?thesis
    by (auto simp: cache_fits_def cache_coh_def simp del: lru_exec.simps)
qed (simp add: cache_fits_def)

definition store_ok :: "cenv \<Rightarrow> store \<Rightarrow> bool" where
  "store_ok env st \<longleftrightarrow> cache_fits (disk_truth env (st_disk st)) (st_cache st) \<and>
     (\<forall>num. mf_nextFileNum (st_manifest st) \<le> num \<longrightarrow> st_disk st num = None)"

lemma open_inputs_ok:
  assumes "list_all2 (\<lambda>f. table_on env disk (fm_FileNum f)) fs ess" "st_disk st = disk"
    "cache_fits (disk_truth env disk) (st_cache st)"
  shows "\<exists>its c. open_inputs env fs st = (Inr its, st\<lparr>st_cache := c\<rparr>) \<and>
    list_all2 (sst_over (ce_sum128 env) (ce_uncompress env) (disk_truth env disk)) its ess \<and>
    cache_fits (disk_truth env disk) c"
  using assms
proof (induction fs ess arbitrary: st rule: list_all2_induct)
  case Nil
  then show ?case by (intro exI [of _ "[]"] exI [of _ "st_cache st"]) simp
next
  case (Cons f fs es ess)
  let ?T = "disk_truth env disk"
  obtain data r bs where t: "disk (fm_FileNum f) = Some data" "OpenReader data (fm_FileNum f) = Inr r"
    "reader_rep (ce_sum128 env) (ce_uncompress env) r bs" "concat bs = es"
    using Cons.hyps(1) unfolding table_on_def by blast
  let ?it = "\<lparr>it_reader = r, it_blockIdx = 0, it_offset = 0, it_err = None, it_blockData = [], it_currentKey = [],
    it_currentVal = None, it_isTombstone = False, it_valid = False\<rparr>"
  have "sst_over (ce_sum128 env) (ce_uncompress env) ?T ?it es"
    using t knows_disk_truth [where disk = disk, OF t(1-3)] by (auto simp: sst_over_def)
  from sst.over_First [OF this Cons.prems(2)] obtain it c where
    it: "NewIterator (ce_uncompress env) r (st_cache st) = (it, c)" "sst_rep (ce_sum128 env) (ce_uncompress env) ?T it es es"
      "cache_fits ?T c"
    by (auto simp: NewIterator_def)
  obtain its c' where "open_inputs env fs (st\<lparr>st_cache := c\<rparr>) = (Inr its, st\<lparr>st_cache := c'\<rparr>)"
    "list_all2 (sst_over (ce_sum128 env) (ce_uncompress env) ?T) its ess" "cache_fits ?T c'"
    using Cons.IH [of "st\<lparr>st_cache := c\<rparr>"] it(3) Cons.prems(1) by auto
  then show ?case using t(1,2) it(1) Cons.prems(1) sst.rep_over [OF it(2)]
    by (intro exI [of _ "it # its"] exI [of _ c']) simp
qed

lemma fold_delete_input:
  "st_manifest (fold (delete_input env) dfs st) = st_manifest st"
  "st_disk (fold (delete_input env) dfs st) =
     (\<lambda>num. if num \<in> df_FileNum ` set dfs \<and> ce_removable env num then None else st_disk st num)"
  by (induction dfs arbitrary: st) (auto simp: delete_input_def)

lemma fold_delete_cache:
  "cache_fits T (st_cache st) \<Longrightarrow>
     cache_fits (\<lambda>k. if fst k \<in> df_FileNum ` set dfs then None else T k) (st_cache (fold (delete_input env) dfs st))"
proof (induction dfs arbitrary: st T)
  case (Cons df dfs)
  have "cache_fits (\<lambda>k. if fst k = df_FileNum df then None else T k) (st_cache (delete_input env df st))"
    using cache_fits_RemoveFile [OF Cons.prems] by (simp add: delete_input_def)
  from Cons.IH [OF this] show ?case unfolding fold_simps by (rule cache_fits_mono) (auto split: if_splits)
qed simp

section \<open>Executing a compaction\<close>

definition level_ok :: "int \<Rightarrow> bool" where
  "level_ok l \<longleftrightarrow> 0 \<le> l \<and> l < int MaxLevels"

lemma edit_version_total:
  assumes "\<forall>df \<in> set (ve_DeletedFiles e). level_ok (df_Level df)" "\<forall>af \<in> set (ve_AddedFiles e). level_ok (fm_Level af)"
  shows "\<exists>v'. edit_version e v = Some v'"
proof -
  have "\<exists>v'. run_opt delete_file dfs v = Some v'" if "\<forall>df \<in> set dfs. level_ok (df_Level df)" for dfs v
    using that by (induction dfs arbitrary: v) (simp_all add: delete_file_def level_ok_def)
  moreover have "\<exists>v'. run_opt add_file afs v = Some v'" if "\<forall>af \<in> set afs. level_ok (fm_Level af)" for afs v
    using that by (induction afs arbitrary: v) (simp_all add: add_file_def level_ok_def)
  ultimately show ?thesis using assms unfolding edit_version_def by (metis bind.bind_lunit)
qed

text \<open>A file's metadata tell the truth about the table of that number.\<close>

definition describes :: "cenv \<Rightarrow> (u64 \<Rightarrow> bytes option) \<Rightarrow> nat \<Rightarrow> FileMetadata \<Rightarrow> entry list \<Rightarrow> bool" where
  "describes env disk lvl f es \<longleftrightarrow>
     table_on env disk (fm_FileNum f) es \<and> es \<noteq> [] \<and> fm_Level f = int lvl \<and>
     map_option (\<lambda>d. of_nat (length d)) (disk (fm_FileNum f)) = Some (fm_FileSize f) \<and>
     fm_SmallestKey f = fst (hd es) \<and> fm_LargestKey f = fst (last es) \<and> fm_NumEntries f = of_nat (length es)"

lemma weight_gc_list: "weight (gc_list M d n s es) \<le> weight es"
  by (induction es arbitrary: n s) (auto split: prod.splits intro: trans_le_add2)

lemma weight_concat: "es \<in> set ess \<Longrightarrow> weight es \<le> weight (concat ess)"
  by (induction ess) auto

lemma asc_concat: "asc_by CompareKeys (concat ess) \<Longrightarrow> es \<in> set ess \<Longrightarrow> asc_by CompareKeys es"
  by (induction ess) (auto simp: ck.asc_by_append)

lemma allocated_ge:
  assumes "unat n0 + k < 2 ^ 64" "num \<in> allocated n0 k"
  shows "n0 \<le> num" "num < n0 + of_nat k"
proof -
  obtain i where i: "i < k" "num = n0 + of_nat i" using assms(2) by (auto simp: allocated_def)
  have "unat (n0 + of_nat j) = unat n0 + j" if "j \<le> k" for j
    using assms(1) that by (simp add: unat_word_ariths unat_of_nat take_bit_nat_eq_self)
  from this [of i] this [of k] i show "n0 \<le> num" "num < n0 + of_nat k"
    by (simp_all add: word_le_nat_alt word_less_nat_alt)
qed

lemma outputs_describe:
  assumes "env_good env" "list_all2 (out_ok env lvl disk) fs tss" "asc_by CompareKeys (concat tss)"
    "\<forall>e \<in> set (concat tss). entry_small (ce_blockSize env) e" "weight (concat tss) + 2 ^ 33 < max_alloc"
    "\<And>f. f \<in> set fs \<Longrightarrow> disk' (fm_FileNum f) = disk (fm_FileNum f)"
  shows "list_all2 (describes env disk' lvl) fs tss"
  unfolding list_all2_conv_all_nth
proof (intro conjI allI impI)
  show len: "length fs = length tss" using assms(2) by (rule list_all2_lengthD)
  fix i assume i: "i < length fs"
  let ?f = "fs ! i" let ?es = "tss ! i"
  have ok: "out_ok env lvl disk ?f ?es" using assms(2) i by (simp add: list_all2_conv_all_nth)
  then have ok': "out_ok env lvl disk' ?f ?es" using assms(6) i by (simp add: out_ok_def)
  have mem: "?es \<in> set tss" using i len by simp
  have "asc_by CompareKeys ?es" using assms(3) mem by (rule asc_concat)
  moreover have "weight ?es + 2 ^ 33 < max_alloc" using weight_concat [OF mem] assms(5) by linarith
  ultimately have "table_on env disk' (fm_FileNum ?f) ?es"
    using out_ok_table [OF ok' assms(1)] assms(4) mem by auto
  then show "describes env disk' lvl ?f ?es" using ok' by (auto simp: describes_def out_ok_def)
qed

text \<open>Closing the last file.\<close>

lemma finish_last:
  assumes "env_good env" "merge_inv env lvl st0 ms st tss cur" "length tss < 2 ^ 64"
  shows "\<exists>ms' st' tss'. finishCurrentFile env lvl ms st = (True, ms', st') \<and> merge_inv env lvl st0 (set_largest ms') st' tss' [] \<and>
    concat tss' = concat tss @ cur \<and> st_cache st' = st_cache st"
proof (cases "cur = []")
  case True
  then have "ms_writer ms = None" using assms(2) by (auto simp: merge_inv_def Let_def writer_ok_def split: option.splits)
  then have "finishCurrentFile env lvl ms st = (True, ms, st)" by (simp add: finishCurrentFile_def)
  then show ?thesis using assms(2) True set_largest_done by auto
next
  case False
  from finish_ok [OF assms(1,2) False assms(3)] obtain ms' st' where
    "finishCurrentFile env lvl ms st = (True, ms', st')" "merge_inv env lvl st0 (set_largest ms') st' (tss @ [cur]) []"
    "st_cache st' = st_cache st" by auto
  then show ?thesis by (intro exI [of _ ms'] exI [of _ st'] exI [of _ "tss @ [cur]"]) simp
qed

definition input_files :: "Compaction \<Rightarrow> FileMetadata list" where
  "input_files c = cp_Source c @ cp_Target c"

lemma edit_deleted_nums: "df_FileNum ` set (ve_DeletedFiles (compaction_edit c added)) = fm_FileNum ` set (input_files c)"
  by (force simp: compaction_edit_def input_files_def)

lemma distinct_allocated:
  assumes "unat n0 + k < 2 ^ 64"
  shows "distinct (map (\<lambda>i. n0 + of_nat i :: u64) [0..<k])"
proof -
  have "unat (of_nat i :: u64) = i" if "i < k" for i using that assms by (simp add: unat_of_nat take_bit_nat_eq_self)
  then have "inj_on (\<lambda>i. n0 + of_nat i) {0..<k}" by (intro inj_onI) (metis add_left_cancel atLeastLessThan_iff)
  then show ?thesis by (simp add: distinct_map)
qed

text \<open>A cache without the blocks of the deleted files fits the disk without them.\<close>

lemma deleted_cache_fits:
  assumes "cache_fits (\<lambda>key. if fst key \<in> D then None else disk_truth env disk key) cache"
    "\<And>num. num \<notin> D \<Longrightarrow> disk num \<noteq> None \<Longrightarrow> disk' num = disk num"
  shows "cache_fits (disk_truth env disk') cache"
  using assms(1)
proof (rule cache_fits_mono)
  fix key d assume t: "(if fst key \<in> D then None else disk_truth env disk key) = Some d"
  then have "fst key \<notin> D" "disk (fst key) \<noteq> None" by (auto simp: disk_truth_def split: if_splits option.splits)
  from assms(2) [OF this] t show "disk_truth env disk' key = Some d" by (auto simp: disk_truth_def split: if_splits)
qed

lemma conclude_ok:
  assumes "env_good env" "merge_inv env (cp_OutputLevel c) st0 ms st tss cur" "unat (mf_nextFileNum (st_manifest st0)) + length (concat tss @ cur) < 2 ^ 64"
    "f_script (mf_file (st_manifest st0)) = []" "cp_OutputLevel c = cp_Level c + 1" "cp_OutputLevel c < MaxLevels"
    "store_ok env st0" "cache_fits (disk_truth env (st_disk st0)) (st_cache st)"
    "\<forall>f \<in> set (input_files c). fm_FileNum f < mf_nextFileNum (st_manifest st0)"
    "asc_by CompareKeys (concat tss @ cur)" "\<forall>e \<in> set (concat tss @ cur). entry_small (ce_blockSize env) e"
    "weight (concat tss @ cur) + 2 ^ 33 < max_alloc"
  shows "\<exists>out st' tss' added. conclude env c inb ms st = (Inr (inb, out), st') \<and> concat tss' = concat tss @ cur \<and>
    list_all2 (describes env (st_disk st') (cp_OutputLevel c)) added tss' \<and>
    edit_version (compaction_edit c added) (mf_current (st_manifest st0)) = Some (mf_current (st_manifest st')) \<and>
    mf_file (st_manifest st') = good_file (f_data (mf_file (st_manifest st0)) @ frame (compaction_edit c added)) \<and>
    mf_nextFileNum (st_manifest st') = mf_nextFileNum (st_manifest st0) + of_nat (length added) \<and>
    (\<forall>f \<in> set added. mf_nextFileNum (st_manifest st0) \<le> fm_FileNum f) \<and> distinct (map fm_FileNum added) \<and>
    store_ok env st' \<and>
    (\<forall>num < mf_nextFileNum (st_manifest st0).
       st_disk st' num = (if num \<in> fm_FileNum ` set (input_files c) \<and> ce_removable env num then None else st_disk st0 num))"
proof -
  let ?lvl = "cp_OutputLevel c" let ?n0 = "mf_nextFileNum (st_manifest st0)"
  have "list_all2 (out_ok env ?lvl (st_disk st)) (ms_added ms) tss" using assms(2) by (simp add: merge_inv_def Let_def)
  then have "length tss < 2 ^ 64" using out_ok_length assms(3) by fastforce
  from finish_last [OF assms(1,2) this] obtain ms0 st1 tss' where
    fin: "finishCurrentFile env ?lvl ms st = (True, ms0, st1)" "merge_inv env ?lvl st0 (set_largest ms0) st1 tss' []"
      "concat tss' = concat tss @ cur" "st_cache st1 = st_cache st" by auto
  define ms1 where "ms1 = set_largest ms0"
  let ?added = "ms_added ms1" let ?edit = "compaction_edit c ?added" let ?k = "length tss'"
  have inv: "list_all2 (out_ok env ?lvl (st_disk st1)) ?added tss'"
    "map fm_FileNum ?added = map (\<lambda>i. ?n0 + of_nat i) [0..<?k]"
    "st_manifest st1 = (st_manifest st0)\<lparr>mf_nextFileNum := ?n0 + of_nat ?k\<rparr>"
    "\<And>num. num \<notin> allocated ?n0 ?k \<Longrightarrow> st_disk st1 num = st_disk st0 num"
    using fin(2) by (auto simp: merge_inv_def Let_def outputs_def ms1_def)
  have "?k \<le> length (concat tss @ cur)" using out_ok_length [OF inv(1)] fin(3) by metis
  then have k: "unat ?n0 + ?k < 2 ^ 64" using assms(3) by linarith
  have lv: "\<forall>af \<in> set ?added. fm_Level af = int ?lvl"
    using inv(1) by (auto simp: list_all2_conv_all_nth in_set_conv_nth out_ok_def)
  have "\<forall>df \<in> set (ve_DeletedFiles ?edit). level_ok (df_Level df)" "\<forall>af \<in> set (ve_AddedFiles ?edit). level_ok (fm_Level af)"
    using lv assms(5,6) by (auto simp: compaction_edit_def level_ok_def)
  from edit_version_total [OF this] obtain v where v: "edit_version ?edit (mf_current (st_manifest st0)) = Some v" by blast
  define m1 where "m1 = (st_manifest st1)\<lparr>mf_current := v, mf_file := good_file (f_data (mf_file (st_manifest st0)) @ frame ?edit)\<rparr>"
  have ap: "manifest_Apply ?edit (st_manifest st1) = (None, m1)"
    using manifest_Apply_good [of "st_manifest st1" ?edit "(st_manifest st1)\<lparr>mf_current := v\<rparr>"] v inv(3) assms(4)
    by (simp add: applyEditToMemory_def compaction_edit_def m1_def)
  define st' where "st' = fold (delete_input env) (ve_DeletedFiles ?edit) (st1\<lparr>st_manifest := m1\<rparr>)"
  have con: "conclude env c inb ms st = (Inr (inb, ms_bytesOut ms1), st')"
    using fin(1) ap by (simp add: conclude_def Let_def ms1_def st'_def)
  have man: "st_manifest st' = m1" by (simp add: st'_def fold_delete_input)
  have disk: "st_disk st' = (\<lambda>num. if num \<in> fm_FileNum ` set (input_files c) \<and> ce_removable env num then None else st_disk st1 num)"
    by (simp add: st'_def fold_delete_input edit_deleted_nums cong: if_cong)
  have nums: "fm_FileNum ` set ?added = allocated ?n0 ?k"
    unfolding set_map [symmetric] inv(2) by (simp add: allocated_def lessThan_atLeast0)
  note ge = allocated_ge [OF k]
  have new: "fm_FileNum f \<notin> fm_FileNum ` set (input_files c)" if "f \<in> set ?added" for f
    using ge(1) [of "fm_FileNum f"] nums that assms(9) by fastforce
  have desc: "list_all2 (describes env (st_disk st') ?lvl) ?added tss'"
    using outputs_describe [OF assms(1) inv(1)] assms(10-12) fin(3) disk new by simp
  have le: "?n0 \<le> ?n0 + of_nat ?k"
    using k by (simp add: word_le_nat_alt unat_word_ariths unat_of_nat take_bit_nat_eq_self)
  have "st_disk st' num = None" if "?n0 + of_nat ?k \<le> num" for num
  proof -
    have "num \<notin> allocated ?n0 ?k" using ge(2) [of num] that by (metis leD)
    moreover have "st_disk st0 num = None" using assms(7) order_trans [OF le that] by (simp add: store_ok_def)
    ultimately show ?thesis using disk inv(4) by simp
  qed
  moreover have "cache_fits (disk_truth env (st_disk st')) (st_cache st')"
  proof -
    have "cache_fits (disk_truth env (st_disk st0)) (st_cache (st1\<lparr>st_manifest := m1\<rparr>))" using assms(8) fin(4) by simp
    from fold_delete_cache [OF this, of "ve_DeletedFiles ?edit" env]
    have fits: "cache_fits (\<lambda>key. if fst key \<in> fm_FileNum ` set (input_files c) then None else disk_truth env (st_disk st0) key) (st_cache st')"
      unfolding st'_def [symmetric] edit_deleted_nums .
    show ?thesis
    proof (rule deleted_cache_fits [OF fits])
      fix num assume "num \<notin> fm_FileNum ` set (input_files c)" "st_disk st0 num \<noteq> None"
      moreover from this(2) have "num \<notin> allocated ?n0 ?k" using ge(1) assms(7) by (auto simp: store_ok_def)
      ultimately show "st_disk st' num = st_disk st0 num" using disk inv(4) by simp
    qed
  qed
  ultimately have ok: "store_ok env st'" using man inv(3) by (simp add: store_ok_def m1_def)
  have "st_disk st' num = (if num \<in> fm_FileNum ` set (input_files c) \<and> ce_removable env num then None else st_disk st0 num)"
    if "num < ?n0" for num
  proof -
    have "num \<notin> allocated ?n0 ?k" using that ge(1) [of num] by (metis leD)
    then show ?thesis using inv(4) disk by simp
  qed
  moreover have "distinct (map fm_FileNum ?added)"
    unfolding inv(2) by (rule distinct_allocated [OF k])
  moreover have "\<forall>f \<in> set ?added. ?n0 \<le> fm_FileNum f" using ge(1) nums by auto
  moreover have "length ?added = ?k" using list_all2_lengthD [OF inv(1)] .
  ultimately show ?thesis
    using con fin(3) desc ok man v inv(3)
    by (intro exI [of _ "ms_bytesOut ms1"] exI [of _ st'] exI [of _ tss'] exI [of _ ?added]) (simp add: m1_def)
qed

lemma Execute_ok:
  assumes "env_good env" "store_ok env st" "cp_Source c \<noteq> []" "cp_OutputLevel c = cp_Level c + 1" "cp_OutputLevel c < MaxLevels"
    "list_all2 (\<lambda>f. table_on env (st_disk st) (fm_FileNum f)) (input_files c) ess" "f_script (mf_file (st_manifest st)) = []"
    "unat (mf_nextFileNum (st_manifest st)) + length (merge_ref ess) < 2 ^ 64"
    "\<forall>e \<in> set (merge_ref ess). entry_small (ce_blockSize env) e" "weight (merge_ref ess) + 2 ^ 33 < max_alloc"
  shows "\<exists>bytesOut st' tss added. Execute env (Some c) maxl st = Some (Inr (sum_list (map fm_FileSize (input_files c)), bytesOut), st') \<and>
    concat tss = gc_list (min_at env) (maxl \<le> cp_OutputLevel c) 0 ([], False) (merge_ref ess) \<and>
    list_all2 (describes env (st_disk st') (cp_OutputLevel c)) added tss \<and>
    edit_version (compaction_edit c added) (mf_current (st_manifest st)) = Some (mf_current (st_manifest st')) \<and>
    mf_file (st_manifest st') = good_file (f_data (mf_file (st_manifest st)) @ frame (compaction_edit c added)) \<and>
    mf_nextFileNum (st_manifest st') = mf_nextFileNum (st_manifest st) + of_nat (length added) \<and>
    (\<forall>f \<in> set added. mf_nextFileNum (st_manifest st) \<le> fm_FileNum f) \<and> distinct (map fm_FileNum added) \<and>
    store_ok env st' \<and>
    (\<forall>num < mf_nextFileNum (st_manifest st).
       st_disk st' num = (if num \<in> fm_FileNum ` set (input_files c) \<and> ce_removable env num then None else st_disk st num))"
proof -
  let ?T = "disk_truth env (st_disk st)" let ?lvl = "cp_OutputLevel c" let ?zs = "merge_ref ess"
  let ?gc = "gc_list (min_at env) (maxl \<le> ?lvl) 0 ([], False) ?zs"
  have coh: "cache_fits ?T (st_cache st)" using assms(2) by (simp add: store_ok_def)
  from open_inputs_ok [OF assms(6) refl coh] obtain its c1 where
    op: "open_inputs env (input_files c) st = (Inr its, st\<lparr>st_cache := c1\<rparr>)"
      "list_all2 (sst_over (ce_sum128 env) (ce_uncompress env) ?T) its ess" "cache_fits ?T c1" by blast
  have "list_all2 (sst_over (ce_sum128 env) (ce_uncompress env) ?T) (mi_iters (NewMergeIterator its)) ess"
    using op(2) by (simp add: NewMergeIterator_def)
  from sst.mi_SeekToFirst_ok [OF this op(3)] obtain m c2 where
    sk: "mi_SeekToFirst (sst_ops (ce_uncompress env)) (NewMergeIterator its) c1 = Some (m, c2)"
      "sst.merge_rep (ce_uncompress env) (ce_sum128 env) ?T m ess ?zs" "cache_fits ?T c2" by blast
  have inv0: "merge_inv env ?lvl st new_merge_state (st\<lparr>st_cache := c2\<rparr>) [] []"
    using merge_inv_frame [OF merge_inv_new, where n = 0 and k = "[]" and b = False and c = c2]
    by (simp add: new_merge_state_def)
  from merge_loop_ok [OF assms(1) sk(2) _ inv0 assms(9), of 0 maxl] sk(3) assms(8) obtain ms st1 tss cur where
    lp: "merge_loop env ?lvl maxl m new_merge_state (st\<lparr>st_cache := c2\<rparr>) = Some (Inr ms, st1)"
      "merge_inv env ?lvl st ms st1 tss cur" "concat tss @ cur = ?gc" "cache_fits ?T (st_cache st1)"
    by (auto simp: new_merge_state_def)
  have old: "\<forall>f \<in> set (input_files c). fm_FileNum f < mf_nextFileNum (st_manifest st)"
  proof
    fix f assume "f \<in> set (input_files c)"
    then obtain es where "table_on env (st_disk st) (fm_FileNum f) es" using assms(6) by (auto simp: list_all2_conv_all_nth in_set_conv_nth)
    then show "fm_FileNum f < mf_nextFileNum (st_manifest st)"
      using assms(2) unfolding table_on_def store_ok_def by (metis not_le option.distinct(1))
  qed
  have "asc_by CompareKeys ?zs"
    using merge_ref_spec [of ess] assms(6) by (force simp: list_all2_conv_all_nth in_set_conv_nth table_on_def reader_rep_def)
  then have asc: "asc_by CompareKeys (concat tss @ cur)" unfolding lp(3) by (rule asc_gc_list)
  have small: "\<forall>e \<in> set (concat tss @ cur). entry_small (ce_blockSize env) e"
    unfolding lp(3) using assms(9) set_gc_list by fast
  have w: "weight (concat tss @ cur) + 2 ^ 33 < max_alloc"
    unfolding lp(3) using weight_gc_list [of "min_at env" "maxl \<le> ?lvl" 0 "([], False)" ?zs] assms(10) by linarith
  have len: "unat (mf_nextFileNum (st_manifest st)) + length (concat tss @ cur) < 2 ^ 64"
    unfolding lp(3) using length_gc_list [of "min_at env" "maxl \<le> ?lvl" 0 "([], False)" ?zs] assms(8) by linarith
  have "Execute env (Some c) maxl st = Some (conclude env c (sum_list (map fm_FileSize (input_files c))) ms st1)"
    using assms(3) op(1) sk(1) lp(1) by (simp add: Execute_def input_files_def Let_def)
  with conclude_ok [OF assms(1) lp(2) len assms(7,4,5,2) lp(4) old asc small w, of "sum_list (map fm_FileSize (input_files c))"] lp(3)
  show ?thesis by auto
qed

section \<open>Properties\<close>

text \<open>
  C3. What a compaction does when the disk works.  It returns; the tables it leaves hold, in order,
  exactly the entries the garbage collection keeps of the merged inputs, with truthful metadata and
  numbers never used before; the manifest records them in place of the inputs, in memory and in the
  file; every other table is untouched, and the block cache holds no block of a removed file.
\<close>

theorem compaction_correct:
  assumes "env_good env" "store_ok env st" "cp_Source c \<noteq> []" "cp_OutputLevel c = cp_Level c + 1" "cp_OutputLevel c < MaxLevels"
    "list_all2 (\<lambda>f. table_on env (st_disk st) (fm_FileNum f)) (input_files c) ess" "f_script (mf_file (st_manifest st)) = []"
    "unat (mf_nextFileNum (st_manifest st)) + length (merge_ref ess) < 2 ^ 64"
    "\<forall>e \<in> set (merge_ref ess). entry_small (ce_blockSize env) e" "weight (merge_ref ess) + 2 ^ 33 < max_alloc"
  shows "\<exists>bytesOut st' tss added. Execute env (Some c) maxl st = Some (Inr (sum_list (map fm_FileSize (input_files c)), bytesOut), st') \<and>
    concat tss = gc_list (min_at env) (maxl \<le> cp_OutputLevel c) 0 ([], False) (merge_ref ess) \<and>
    list_all2 (describes env (st_disk st') (cp_OutputLevel c)) added tss \<and>
    edit_version (compaction_edit c added) (mf_current (st_manifest st)) = Some (mf_current (st_manifest st')) \<and>
    mf_file (st_manifest st') = good_file (f_data (mf_file (st_manifest st)) @ frame (compaction_edit c added)) \<and>
    (\<forall>f \<in> set added. mf_nextFileNum (st_manifest st) \<le> fm_FileNum f) \<and> distinct (map fm_FileNum added) \<and>
    store_ok env st' \<and>
    (\<forall>num < mf_nextFileNum (st_manifest st).
       st_disk st' num = (if num \<in> fm_FileNum ` set (input_files c) \<and> ce_removable env num then None else st_disk st num))"
  using Execute_ok [OF assms, of maxl] by blast

text \<open>Two level-0 tables: a key overwritten by a tombstone, and another key.\<close>

abbreviation sample_env :: cenv where
  "sample_env \<equiv> \<lparr>ce_blockSize = 4096, ce_bloomBits = 10, ce_targetSize = 2097152, ce_minActive = Some (\<lambda>_. 10),
     ce_sum128 = (\<lambda>_. (1, 2)), ce_compress = (\<lambda>_. Some []), ce_uncompress = (\<lambda>_ _. None), ce_create = (\<lambda>_. True),
     ce_script = (\<lambda>_. []), ce_removable = (\<lambda>_. True), ce_stat = (\<lambda>_. True)\<rparr>"

abbreviation sample_old :: "entry list" where
  "sample_old \<equiv> [(EncodeKey [97] 3, Some [1]), (EncodeKey [98] 4, Some [2])]"

abbreviation sample_new :: "entry list" where
  "sample_new \<equiv> [(EncodeKey [97] 5, None)]"

abbreviation sample_meta :: "u64 \<Rightarrow> entry list \<Rightarrow> FileMetadata" where
  "sample_meta num es \<equiv> \<lparr>fm_Level = 0, fm_FileNum = num, fm_FileSize = 0, fm_SmallestKey = fst (hd es), fm_LargestKey = fst (last es),
     fm_NumEntries = of_nat (length es)\<rparr>"

abbreviation sample_store :: store where
  "sample_store \<equiv> \<lparr>st_disk = [1 \<mapsto> table_file (\<lambda>_. (1, 2)) (\<lambda>_. Some []) 10 [sample_old], 2 \<mapsto> table_file (\<lambda>_. (1, 2)) (\<lambda>_. Some []) 10 [sample_new]],
     st_manifest = \<lparr>mf_file = good_file [], mf_current = [[sample_meta 1 sample_old, sample_meta 2 sample_new], [], [], [], [], [], []],
       mf_nextFileNum = 3\<rparr>,
     st_cache = Some (NewBlockCache 1000)\<rparr>"

abbreviation sample_compaction :: Compaction where
  "sample_compaction \<equiv> \<lparr>cp_Level = 0, cp_Source = [sample_meta 1 sample_old, sample_meta 2 sample_new], cp_Target = [], cp_OutputLevel = 1\<rparr>"

lemma sample_env_good: "env_good sample_env"
  by (simp add: env_good_def lz4_ok_def bloom_request_def DefaultBlockSize_def)

lemma sample_merge: "merge_ref [sample_old, sample_new] = [(EncodeKey [97] 5, None), (EncodeKey [97] 3, Some [1]), (EncodeKey [98] 4, Some [2])]"
  by code_simp

lemma sample_written:
  assumes "st_disk sample_store num = Some (table_file (\<lambda>_. (1, 2)) (\<lambda>_. Some []) 10 [es])" "es \<in> {sample_old, sample_new}"
  shows "table_on sample_env (st_disk sample_store) num es"
proof -
  have "asc_by CompareKeys (concat [es])" "concat [es] = es" using assms(2) by (auto simp: asc_by_def ck_ord kord_def EncodeKey_def UserKey_def)
  then show ?thesis
    using table_on_written [OF sample_env_good, of "st_disk sample_store" num "[es]"] assms
    by (auto simp: block_small_def entry_small_def length_encode_kv vlen_def DefaultBlockSize_def entry_weight_def max_alloc_def EncodeKey_def)
qed

lemma sample_store_ok: "store_ok sample_env sample_store"
proof -
  have "cache_fits T (Some (NewBlockCache 1000))" for T by (simp add: cache_fits_def NewBlockCache_coh)
  moreover have "st_disk sample_store num = None" if "3 \<le> num" for num
    using that by (auto simp: word_le_nat_alt)
  ultimately show ?thesis by (simp add: store_ok_def)
qed

lemma sample_inputs:
  "list_all2 (\<lambda>f. table_on sample_env (st_disk sample_store) (fm_FileNum f)) (input_files sample_compaction) [sample_old, sample_new]"
  "\<forall>e \<in> set (merge_ref [sample_old, sample_new]). entry_small (ce_blockSize sample_env) e"
  "weight (merge_ref [sample_old, sample_new]) + 2 ^ 33 < max_alloc"
  using sample_written [of 1 sample_old] sample_written [of 2 sample_new] unfolding sample_merge
  by (simp_all add: input_files_def entry_small_def length_encode_kv vlen_def DefaultBlockSize_def entry_weight_def
      max_alloc_def EncodeKey_def)

lemma sample_gc:
  "gc_list (min_at sample_env) True 0 ([], False) (merge_ref [sample_old, sample_new]) = [(EncodeKey [98] 4, Some [2])]"
  unfolding sample_merge by (simp add: gc_step_simps min_at_def Let_def DecodeKey_EncodeKey)

theorem compaction_correct_witness:
  "\<exists>bytesOut st' f. Execute sample_env (Some sample_compaction) 0 sample_store = Some (Inr (0, bytesOut), st') \<and>
    describes sample_env (st_disk st') 1 f [(EncodeKey [98] 4, Some [2])] \<and> store_ok sample_env st' \<and> st_disk st' 1 = None"
proof -
  obtain bytesOut st' tss added where ex: "Execute sample_env (Some sample_compaction) 0 sample_store =
      Some (Inr (sum_list (map fm_FileSize (input_files sample_compaction)), bytesOut), st')"
    "concat tss = [(EncodeKey [98] 4, Some [2])]" "list_all2 (describes sample_env (st_disk st') 1) added tss" "store_ok sample_env st'"
    "st_disk st' 1 = None"
    using compaction_correct [OF sample_env_good sample_store_ok _ _ _ sample_inputs(1) _ _ sample_inputs(2,3), of 0] sample_gc
    by (auto simp: sample_merge MaxLevels_def input_files_def good_file_def)
  have ne: "ts \<noteq> []" if "ts \<in> set tss" for ts
    using ex(3) that by (auto simp: list_all2_conv_all_nth in_set_conv_nth describes_def)
  obtain ts rest where "tss = ts # rest" using ex(2) by (cases tss) auto
  moreover have "rest = []" using ex(2) ne calculation by (cases rest; cases ts) auto
  ultimately have "tss = [[(EncodeKey [98] 4, Some [2])]]" using ex(2) by simp
  then show ?thesis using ex by (auto simp: list_all2_Cons2 input_files_def)
qed



end
