(* ===== verification/LsmCorrect.thy ===== *)
theory LsmCorrect
  imports Lsm CompactionCorrect PickerCorrect
begin

text \<open>
  The tree as a map.  \<open>lsm_rep env l E\<close> says that the tree is well formed and that table \<open>num\<close> holds the
  entries \<open>E num\<close>; \<open>lookup E v\<close> is the specification of a lookup, a plain search through every file of
  every level.  \<^verbatim>\<open>Get\<close>, \<^verbatim>\<open>Flush\<close> and the rounds of the compaction loop are proved against it.
\<close>

section \<open>The binary search of a level\<close>

definition holds_key :: "bytes \<Rightarrow> FileMetadata \<Rightarrow> bool" where
  "holds_key key f \<longleftrightarrow> kord (fm_SmallestKey f) \<le> kord key \<and> kord key \<le> kord (fm_LargestKey f)"

lemma sorted_before_nth:
  assumes "sorted_wrt before files" "\<forall>f \<in> set files. file_wf l f" "i < j" "j < length files"
  shows "kord (fm_SmallestKey (files ! i)) \<le> kord (fm_LargestKey (files ! i))"
    "kord (fm_LargestKey (files ! i)) < kord (fm_SmallestKey (files ! j))"
  using sorted_wrt_nth_less [OF assms(1,3,4)] assms by (auto simp: before_def file_wf_def ck_ord)

lemma find_file_linear:
  assumes "sorted_wrt before files" "\<forall>f \<in> set files. file_wf l f" "0 \<le> left" "right < int (length files)"
    "\<forall>i < length files. holds_key key (files ! i) \<longrightarrow> left \<le> int i \<and> int i \<le> right"
  shows "find_file key files left right = find (holds_key key) files"
  using assms
proof (induction key files left right rule: find_file.induct)
  case (1 key fs left right)
  note fs = "1.prems"(1,2)
  show ?case
  proof (cases "right < left")
    case True
    then have "\<not> holds_key key (fs ! i)" if "i < length fs" for i using "1.prems"(5) that by force
    then have "find (holds_key key) fs = None" by (auto simp: find_None_iff in_set_conv_nth)
    then show ?thesis using True by (simp add: find_file.simps [of key fs left right])
  next
    case False
    define mid where "mid = left + (right - left) div 2"
    define m where "m = nat mid"
    have mid: "left \<le> mid" "mid \<le> right" "m < length fs" "int m = mid"
      using False "1.prems"(3,4) by (auto simp: mid_def m_def)
    have wf: "kord (fm_SmallestKey (fs ! m)) \<le> kord (fm_LargestKey (fs ! m))"
      using fs(2) mid(3) by (auto simp: file_wf_def ck_ord)
    have lt: "\<not> holds_key key (fs ! i)" if "i < m" "kord (fm_SmallestKey (fs ! m)) \<le> kord key" for i
      using sorted_before_nth [OF fs that(1) mid(3)] that(2) by (auto simp: holds_key_def)
    have gt: "\<not> holds_key key (fs ! i)" if "m < i" "i < length fs" "kord key \<le> kord (fm_LargestKey (fs ! m))" for i
      using sorted_before_nth [OF fs that(1,2)] that(3) by (auto simp: holds_key_def)
    have unf: "find_file key fs left right =
      (if holds_key key (fs ! m) then Some (fs ! m)
       else if kord key < kord (fm_SmallestKey (fs ! m)) then find_file key fs left (mid - 1) else find_file key fs (mid + 1) right)"
      using False by (subst find_file.simps) (simp add: Let_def mid_def [symmetric] m_def [symmetric] holds_key_def ck_ord)
    consider (here) "holds_key key (fs ! m)" | (low) "kord key < kord (fm_SmallestKey (fs ! m))"
      | (high) "kord (fm_LargestKey (fs ! m)) < kord key"
      unfolding holds_key_def by (meson not_le)
    then show ?thesis
    proof cases
      case here
      then have "\<not> holds_key key (fs ! i)" if "i < m" for i using lt that by (auto simp: holds_key_def)
      then have "find (holds_key key) fs = Some (fs ! m)" using here mid(3) by (auto simp: find_Some_iff)
      then show ?thesis using unf here by simp
    next
      case low
      then have no: "\<not> holds_key key (fs ! m)" by (auto simp: holds_key_def)
      have "\<forall>i < length fs. holds_key key (fs ! i) \<longrightarrow> left \<le> int i \<and> int i \<le> mid - 1"
      proof (intro allI impI)
        fix i assume i: "i < length fs" "holds_key key (fs ! i)"
        have "kord key \<le> kord (fm_LargestKey (fs ! m))" using less_le_trans [OF low wf] by (rule less_imp_le)
        then have "\<not> m < i" "i \<noteq> m" using gt i no by blast+
        then show "left \<le> int i \<and> int i \<le> mid - 1" using "1.prems"(5) i mid(4) by auto
      qed
      moreover have "find_file key fs left (mid - 1) = find (holds_key key) fs"
        using "1.IH"(1) [OF False mid_def refl] no low fs "1.prems"(3,4) mid calculation
        by (simp add: m_def [symmetric] holds_key_def [abs_def] ck_ord)
      ultimately show ?thesis using unf no low by simp
    next
      case high
      then have no: "\<not> holds_key key (fs ! m)" "\<not> kord key < kord (fm_SmallestKey (fs ! m))"
        using wf by (auto simp: holds_key_def)
      have "\<forall>i < length fs. holds_key key (fs ! i) \<longrightarrow> mid + 1 \<le> int i \<and> int i \<le> right"
      proof (intro allI impI)
        fix i assume i: "i < length fs" "holds_key key (fs ! i)"
        then have "\<not> i < m" "i \<noteq> m" using lt [of i] no by (auto simp: not_less [of "kord key"])
        then show "mid + 1 \<le> int i \<and> int i \<le> right" using "1.prems"(5) i mid(4) by auto
      qed
      moreover have "find_file key fs (mid + 1) right = find (holds_key key) fs"
        using "1.IH"(2) [OF False mid_def refl] no fs "1.prems"(3,4) mid calculation
        by (simp add: m_def [symmetric] holds_key_def [abs_def] ck_ord)
      ultimately show ?thesis using unf no by simp
    qed
  qed
qed

section \<open>The tree as a map\<close>

definition tables :: "(u64 \<Rightarrow> entry list) \<Rightarrow> FileMetadata list \<Rightarrow> entry list list" where
  "tables E fs = map (E \<circ> fm_FileNum) fs"

lemma tables_simps [simp]:
  "tables E [] = []" "tables E (f # fs) = E (fm_FileNum f) # tables E fs" "tables E (fs @ gs) = tables E fs @ tables E gs"
  by (simp_all add: tables_def)

text \<open>The specification of a lookup: every file, newest first in level 0, then level by level.\<close>

definition lookup :: "(u64 \<Rightarrow> entry list) \<Rightarrow> Version \<Rightarrow> bytes \<Rightarrow> bytes option option" where
  "lookup E v key = first_map (tables E (rev (v ! 0) @ concat (tl v))) key"

definition file_ok :: "cenv \<Rightarrow> (u64 \<Rightarrow> bytes option) \<Rightarrow> (u64 \<Rightarrow> entry list) \<Rightarrow> FileMetadata \<Rightarrow> bool" where
  "file_ok env disk E f \<longleftrightarrow>
     table_on env disk (fm_FileNum f) (E (fm_FileNum f)) \<and>
     (\<forall>e \<in> set (E (fm_FileNum f)). holds_key (fst e) f \<and> entry_small (ce_blockSize env) e) \<and>
     fm_NumEntries f = of_nat (length (E (fm_FileNum f)))"

definition reader_ok :: "(u64 \<Rightarrow> bytes option) \<Rightarrow> (u64 \<rightharpoonup> sst_reader) \<Rightarrow> FileMetadata \<Rightarrow> bool" where
  "reader_ok disk readers f \<longleftrightarrow>
     (\<exists>data r. disk (fm_FileNum f) = Some data \<and> OpenReader data (fm_FileNum f) = Inr r \<and> readers (fm_FileNum f) = Some r)"

definition lsm_rep :: "cenv \<Rightarrow> LSMTree \<Rightarrow> (u64 \<Rightarrow> entry list) \<Rightarrow> bool" where
  "lsm_rep env l E \<longleftrightarrow>
     version_wf (ls_version l) \<and> store_ok env (ls_store l) \<and> lo_BlockSize (ls_opts l) = ce_blockSize env \<and>
     (\<forall>num. mf_nextFileNum (ls_manifest l) \<le> num \<longrightarrow> ls_readers l num = None) \<and>
     (\<forall>f \<in> set (concat (ls_version l)). file_ok env (st_disk (ls_store l)) E f \<and> reader_ok (st_disk (ls_store l)) (ls_readers l) f)"

lemma first_map_append: "first_map (xs @ ys) k = (case first_map xs k of None \<Rightarrow> first_map ys k | Some v \<Rightarrow> Some v)"
  by (induction xs) (auto simp: first_map_def split: option.splits)

lemma first_map_Cons: "first_map (x # xs) k = (case map_of x k of None \<Rightarrow> first_map xs k | Some v \<Rightarrow> Some v)"
  by (simp add: first_map_def cong: option.case_cong)

lemma first_map_Nil [simp]: "first_map [] k = None"
  by (simp add: first_map_def)

lemma file_ok_outside: "file_ok env disk E f \<Longrightarrow> \<not> holds_key key f \<Longrightarrow> map_of (E (fm_FileNum f)) key = None"
  by (force simp: file_ok_def map_of_eq_None_iff)

text \<open>Only the file whose range holds the key can answer in a sorted level.\<close>

lemma first_map_outside:
  "\<forall>f \<in> set fs. file_ok env disk E f \<and> \<not> holds_key key f \<Longrightarrow> first_map (tables E fs) key = None"
  by (induction fs) (auto simp: first_map_Cons file_ok_outside)

lemma level_candidates_lookup:
  assumes "sorted_wrt before fs" "\<forall>f \<in> set fs. file_wf l f \<and> file_ok env disk E f"
  shows "first_map (tables E (level_candidates key fs)) key = first_map (tables E fs) key"
    "set (level_candidates key fs) \<subseteq> set fs"
proof -
  have lin: "find_file key fs 0 (int (length fs) - 1) = find (holds_key key) fs"
    using assms by (intro find_file_linear [of fs l]) auto
  show "set (level_candidates key fs) \<subseteq> set fs"
    unfolding level_candidates_def lin by (auto simp: find_Some_iff2 split: option.splits)
  show "first_map (tables E (level_candidates key fs)) key = first_map (tables E fs) key"
  proof (cases "find (holds_key key) fs")
    case None
    then have "first_map (tables E fs) key = None"
      using assms(2) by (intro first_map_outside) (auto simp: find_None_iff)
    then show ?thesis using None by (simp add: level_candidates_def lin)
  next
    case (Some f)
    then obtain i where i: "i < length fs" "holds_key key (fs ! i)" "f = fs ! i" "\<forall>j < i. \<not> holds_key key (fs ! j)"
      by (auto simp: find_Some_iff)
    have wf: "\<forall>f \<in> set fs. file_wf l f" using assms(2) by blast
    have "\<not> holds_key key (fs ! j)" if "i < j" "j < length fs" for j
      using sorted_before_nth [OF assms(1) wf that] i(2) by (auto simp: holds_key_def)
    then have "\<not> holds_key key g" if "g \<in> set (drop (Suc i) fs)" for g
      using that unfolding in_set_conv_nth by auto
    then have post: "\<forall>g \<in> set (drop (Suc i) fs). file_ok env disk E g \<and> \<not> holds_key key g"
      using assms(2) in_set_dropD by fast
    have "\<not> holds_key key g" if "g \<in> set (take i fs)" for g
      using that i(1,4) unfolding in_set_conv_nth by auto
    then have pre: "\<forall>g \<in> set (take i fs). file_ok env disk E g \<and> \<not> holds_key key g"
      using assms(2) in_set_takeD by fast
    have "first_map (tables E fs) key = first_map (tables E (take i fs @ f # drop (Suc i) fs)) key"
      unfolding i(3) using id_take_nth_drop [OF i(1)] by (rule arg_cong)
    also have "\<dots> = map_of (E (fm_FileNum f)) key"
      using first_map_outside [OF pre] first_map_outside [OF post]
      by (auto simp: first_map_append first_map_Cons split: option.split)
    finally show ?thesis using Some by (auto simp: level_candidates_def lin first_map_Cons split: option.split)
  qed
qed

section \<open>Get\<close>

lemma probe_lookup:
  assumes "\<forall>f \<in> set fs. file_ok env disk E f \<and> reader_ok disk readers f" "cache_fits (disk_truth env disk) cache"
  shows "\<exists>cache'. probe env readers key fs cache = (Inr (first_map (tables E fs) key), cache') \<and>
    cache_fits (disk_truth env disk) cache'"
  using assms
proof (induction fs arbitrary: cache)
  case (Cons f fs)
  let ?n = "fm_FileNum f"
  have "table_on env disk ?n (E ?n)" "reader_ok disk readers f" using Cons.prems(1) by (simp_all add: file_ok_def)
  then obtain data r bs where t: "disk ?n = Some data" "OpenReader data ?n = Inr r"
    "reader_rep (ce_sum128 env) (ce_uncompress env) r bs" "concat bs = E ?n" "readers ?n = Some r"
    by (auto simp: table_on_def reader_ok_def)
  have kn: "knows (disk_truth env disk) r bs" by (rule knows_disk_truth [where disk = disk, OF t(1-3)])
  from sst_Get_rep [OF t(3) kn Cons.prems(2), of key] obtain c1 where
    g: "sst_Get (ce_sum128 env) (ce_uncompress env) key r cache = (Inr (map_of (E ?n) key), c1)" "cache_fits (disk_truth env disk) c1"
    using t(4) by auto
  show ?case
  proof (cases "map_of (E ?n) key")
    case None
    then show ?thesis using Cons.IH [OF _ g(2)] Cons.prems(1) g(1) t(5) by (simp add: first_map_Cons)
  next
    case (Some v)
    then show ?thesis using g t(5) by (simp add: first_map_Cons)
  qed
qed simp

lemma lsm_rep_level:
  assumes "lsm_rep env l E" "lv < MaxLevels" "f \<in> set (ls_version l ! lv)"
  shows "file_ok env (st_disk (ls_store l)) E f" "reader_ok (st_disk (ls_store l)) (ls_readers l) f" "file_wf lv f"
proof -
  have len: "length (ls_version l) = MaxLevels" using assms(1) by (simp add: lsm_rep_def version_wf_def)
  then have "f \<in> set (concat (ls_version l))" using assms(2,3) nth_mem by fastforce
  then show "file_ok env (st_disk (ls_store l)) E f" "reader_ok (st_disk (ls_store l)) (ls_readers l) f"
    using assms(1) unfolding lsm_rep_def by blast+
  show "file_wf lv f" using assms by (auto simp: lsm_rep_def version_wf_def)
qed

lemma lsm_repI:
  assumes "version_wf (ls_version l)" "store_ok env (ls_store l)" "lo_BlockSize (ls_opts l) = ce_blockSize env"
    "\<And>num. mf_nextFileNum (ls_manifest l) \<le> num \<Longrightarrow> ls_readers l num = None"
    "\<And>lv f. lv < MaxLevels \<Longrightarrow> f \<in> set (ls_version l ! lv) \<Longrightarrow>
       file_ok env (st_disk (ls_store l)) E f \<and> reader_ok (st_disk (ls_store l)) (ls_readers l) f"
  shows "lsm_rep env l E"
proof -
  have "\<exists>lv < MaxLevels. f \<in> set (ls_version l ! lv)" if f: "f \<in> set (concat (ls_version l))" for f
  proof -
    obtain fs where "fs \<in> set (ls_version l)" "f \<in> set fs" using f by auto
    then show ?thesis using assms(1) unfolding version_wf_def by (metis in_set_conv_nth)
  qed
  then show ?thesis using assms unfolding lsm_rep_def by blast
qed

lemma concat_levels: "length v = MaxLevels \<Longrightarrow> concat (tl v) = concat (map (\<lambda>lv. v ! lv) [1..<MaxLevels])"
proof -
  assume len: "length v = MaxLevels"
  then have "tl v = map (\<lambda>lv. v ! lv) [1..<MaxLevels]"
    by (intro nth_equalityI) (auto simp: nth_tl)
  then show ?thesis by simp
qed

lemma first_map_levels:
  assumes "\<forall>lv \<in> set lvs. first_map (tables E (f lv)) key = first_map (tables E (g lv)) key"
  shows "first_map (tables E (concat (map f lvs))) key = first_map (tables E (concat (map g lvs))) key"
  using assms by (induction lvs) (simp_all add: first_map_append cong: option.case_cong)

lemma candidates_lookup:
  assumes "lsm_rep env l E"
  shows "first_map (tables E (candidates key (ls_version l))) key = lookup E (ls_version l) key"
    "set (candidates key (ls_version l)) \<subseteq> set (concat (ls_version l))"
proof -
  let ?v = "ls_version l"
  have len: "length ?v = MaxLevels" using assms by (simp add: lsm_rep_def version_wf_def)
  have lev: "first_map (tables E (level_candidates key (?v ! lv))) key = first_map (tables E (?v ! lv)) key"
    "set (level_candidates key (?v ! lv)) \<subseteq> set (?v ! lv)" if "lv \<in> set [1..<MaxLevels]" for lv
    using level_candidates_lookup [of "?v ! lv" lv env "st_disk (ls_store l)" E key] lsm_rep_level [OF assms] assms that
    by (auto simp: lsm_rep_def version_wf_def)
  have "first_map (tables E (concat (map (\<lambda>lv. level_candidates key (?v ! lv)) [1..<MaxLevels]))) key =
      first_map (tables E (concat (map (\<lambda>lv. ?v ! lv) [1..<MaxLevels]))) key"
    using lev(1) by (intro first_map_levels) blast
  then show "first_map (tables E (candidates key ?v)) key = lookup E ?v key"
    unfolding candidates_def lookup_def concat_levels [OF len] tables_simps first_map_append by (rule arg_cong)
  have "set (?v ! lv) \<subseteq> set (concat ?v)" if "lv < MaxLevels" for lv using len that nth_mem by fastforce
  then show "set (candidates key ?v) \<subseteq> set (concat ?v)"
    using lev(2) unfolding candidates_def by (fastforce simp: MaxLevels_def)
qed

lemma lsm_Get_rep:
  assumes "lsm_rep env l E"
  shows "\<exists>l'. lsm_Get env key l = (Inr (lookup E (ls_version l) key), l') \<and> lsm_rep env l' E \<and>
    ls_version l' = ls_version l"
proof -
  let ?disk = "st_disk (ls_store l)"
  have fs: "\<forall>f \<in> set (candidates key (ls_version l)). file_ok env ?disk E f \<and> reader_ok ?disk (ls_readers l) f"
    using assms candidates_lookup(2) [OF assms] unfolding lsm_rep_def by blast
  have "cache_fits (disk_truth env ?disk) (st_cache (ls_store l))" using assms by (simp add: lsm_rep_def store_ok_def)
  from probe_lookup [OF fs this, of key] obtain cache where
    p: "probe env (ls_readers l) key (candidates key (ls_version l)) (st_cache (ls_store l)) =
        (Inr (lookup E (ls_version l) key), cache)" "cache_fits (disk_truth env ?disk) cache"
    unfolding candidates_lookup(1) [OF assms] by blast
  then show ?thesis using assms by (auto simp: lsm_Get_def get_version_def lsm_rep_def store_ok_def)
qed

section \<open>Flush\<close>

lemma flush_entries_add_all:
  assumes "add_all (ce_sum128 env) (ce_compress env) es w = (True, w')" "unat n + length es < 2 ^ 64"
  shows "flush_entries env es (w, s, l, n) =
    (True, w', if es = [] \<or> n \<noteq> 0 then s else fst (hd es), if es = [] then l else fst (last es), n + of_nat (length es))"
  using assms
proof (induction es arbitrary: w s l n)
  case (Cons e es)
  obtain w1 where w1: "sst_Add (ce_sum128 env) (ce_compress env) (fst e) (snd e) w = (True, w1)"
    "add_all (ce_sum128 env) (ce_compress env) es w1 = (True, w')"
    using Cons.prems(1) by (cases e) (auto split: prod.splits bool.splits if_splits)
  have n1: "unat (n + 1) = unat n + 1" using Cons.prems(2) by (simp add: unat_word_ariths)
  then have "n + 1 \<noteq> 0" by (metis Suc_eq_plus1 nat.distinct(1) unat_0)
  then show ?case using Cons.IH [OF w1(2), of "n + 1"] Cons.prems(2) n1 w1(1) by (simp add: add.assoc)
qed simp

lemma weight_length: "21 * length es \<le> weight es"
  by (induction es) (simp_all add: entry_weight_def)

lemma write_through_ok:
  assumes "store_ok env st" "unat (mf_nextFileNum (st_manifest st)) + 1 < 2 ^ 64"
  shows "store_ok env (st\<lparr>st_manifest := (st_manifest st)\<lparr>mf_nextFileNum := mf_nextFileNum (st_manifest st) + 1\<rparr>,
    st_disk := (st_disk st)(mf_nextFileNum (st_manifest st) \<mapsto> data)\<rparr>)"
proof -
  let ?num = "mf_nextFileNum (st_manifest st)"
  have none: "st_disk st ?num = None" using assms(1) by (simp add: store_ok_def)
  have "cache_fits (disk_truth env (st_disk st)) (st_cache st)" using assms(1) by (simp add: store_ok_def)
  then have "cache_fits (disk_truth env ((st_disk st)(?num \<mapsto> data))) (st_cache st)"
    by (rule cache_fits_mono) (use none in \<open>auto simp: disk_truth_def split: option.splits\<close>)
  moreover have "unat (?num + 1) = unat ?num + 1" using assms(2) by (simp add: unat_word_ariths)
  then have "?num \<le> num \<and> ?num \<noteq> num" if "?num + 1 \<le> num" for num
    using that by (auto simp: word_le_nat_alt)
  ultimately show ?thesis using assms(1) by (auto simp: store_ok_def)
qed

lemma flush_table_ok:
  assumes "env_good env" "store_ok env st" "\<forall>e \<in> set es. entry_small (ce_blockSize env) e" "asc_by CompareKeys es"
    "weight es + 2 ^ 33 < max_alloc"
  shows "\<exists>data r. OpenReader data (mf_nextFileNum (st_manifest st)) = Inr r \<and>
    flush_table env es st =
      (Inr (\<lparr>fm_Level = 0, fm_FileNum = mf_nextFileNum (st_manifest st), fm_FileSize = of_nat (length data),
             fm_SmallestKey = (if es = [] then [] else fst (hd es)), fm_LargestKey = (if es = [] then [] else fst (last es)),
             fm_NumEntries = of_nat (length es)\<rparr>, r),
       st\<lparr>st_manifest := (st_manifest st)\<lparr>mf_nextFileNum := mf_nextFileNum (st_manifest st) + 1\<rparr>,
          st_disk := (st_disk st)(mf_nextFileNum (st_manifest st) \<mapsto> data)\<rparr>) \<and>
    table_on env ((st_disk st)(mf_nextFileNum (st_manifest st) \<mapsto> data)) (mf_nextFileNum (st_manifest st)) es"
proof -
  let ?num = "mf_nextFileNum (st_manifest st)" let ?T = "table_file (ce_sum128 env) (ce_compress env) (ce_bloomBits env)"
  let ?w = "sst_NewWriter (good_file []) (ce_blockSize env) (ce_bloomBits env)"
  have bsz: "sw_blockSize ?w = ce_blockSize env" by (simp add: sst_NewWriter_def)
  obtain w1 bs1 cur1 where w1: "add_all (ce_sum128 env) (ce_compress env) es ?w = (True, w1)"
    "writer_rep (ce_sum128 env) (ce_compress env) (ce_bloomBits env) w1 bs1 cur1" "concat bs1 @ cur1 = es" "\<forall>b \<in> set bs1. block_small b"
    "int (length (encode_block cur1)) < ce_blockSize env"
    using add_all_rep [OF NewWriter_rep [of "ce_sum128 env" "ce_compress env" "ce_bloomBits env" "ce_blockSize env"]
        env_good_compress [OF assms(1)], of es] assms(1,3) bsz
    by (auto simp: env_good_def)
  from sst_Close_rep [OF w1(2) env_good_compress [OF assms(1)]] w1(3) obtain w2 bs where
    w2: "sst_Close (ce_compress env) w1 = (True, w2)" "concat bs = es" "bs = bs1 \<or> bs = bs1 @ [cur1]" "[] \<notin> set bs"
      "sw_file w2 = good_file (?T bs)" by auto
  have "block_small cur1" using w1(5) assms(1) by (simp add: block_small_def env_good_def)
  then have small: "\<forall>b \<in> set bs. block_small b" using w1(4) w2(3) by auto
  have on: "table_on env ((st_disk st)(?num \<mapsto> ?T bs)) ?num es"
    using table_on_written [OF assms(1) _ w2(4) small, of "(st_disk st)(?num \<mapsto> ?T bs)" ?num] w2(2) assms(3-5) by simp
  then obtain r where r: "OpenReader (?T bs) ?num = Inr r" by (auto simp: table_on_def)
  have "length es < 2 ^ 64" using weight_length [of es] assms(5) by (simp add: max_alloc_def)
  then have fl: "flush_entries env es (?w, [], [], 0) =
      (True, w1, if es = [] then [] else fst (hd es), if es = [] then [] else fst (last es), of_nat (length es))"
    using flush_entries_add_all [OF w1(1), of 0 "[]" "[]"] by simp
  have "flush_table env es st = (Inr (\<lparr>fm_Level = 0, fm_FileNum = ?num, fm_FileSize = of_nat (length (?T bs)),
             fm_SmallestKey = (if es = [] then [] else fst (hd es)), fm_LargestKey = (if es = [] then [] else fst (last es)),
             fm_NumEntries = of_nat (length es)\<rparr>, r),
       st\<lparr>st_manifest := (st_manifest st)\<lparr>mf_nextFileNum := ?num + 1\<rparr>, st_disk := (st_disk st)(?num \<mapsto> ?T bs)\<rparr>)"
    using fl w2(1,5) r assms(1) unfolding good_file_def
    by (simp add: flush_table_def NextFileNumber_def Let_def env_good_def write_through_def)
  then show ?thesis using on r by blast
qed

lemma executor_env_simps [simp]:
  "env_good (executor_env opts i env) \<longleftrightarrow> env_good (env\<lparr>ce_blockSize := lo_BlockSize opts, ce_bloomBits := lo_BloomBitsPerKey opts\<rparr>)"
  "disk_truth (executor_env opts i env) = disk_truth env" "store_ok (executor_env opts i env) = store_ok env"
  "table_on (executor_env opts i env) = table_on env" "ce_blockSize (executor_env opts i env) = lo_BlockSize opts"
  "ce_sum128 (executor_env opts i env) = ce_sum128 env" "ce_uncompress (executor_env opts i env) = ce_uncompress env"
proof -
  have u: "ce_uncompress (executor_env opts i env) = ce_uncompress env" "ce_sum128 (executor_env opts i env) = ce_sum128 env"
    by (simp_all add: executor_env_def)
  show t: "disk_truth (executor_env opts i env) = disk_truth env" by (intro ext) (unfold disk_truth_def u, rule refl)
  show "store_ok (executor_env opts i env) = store_ok env" by (intro ext) (simp add: store_ok_def t)
  show "table_on (executor_env opts i env) = table_on env" by (intro ext) (simp add: table_on_def u)
  show "ce_uncompress (executor_env opts i env) = ce_uncompress env" "ce_sum128 (executor_env opts i env) = ce_sum128 env" by fact+
  show "env_good (executor_env opts i env) \<longleftrightarrow> env_good (env\<lparr>ce_blockSize := lo_BlockSize opts, ce_bloomBits := lo_BloomBitsPerKey opts\<rparr>)"
    "ce_blockSize (executor_env opts i env) = lo_BlockSize opts"
    by (simp_all add: env_good_def executor_env_def)
qed

text \<open>In a sorted level at most one file has the key, so only the set of its files matters.\<close>

lemma first_map_Some_ex: "first_map (tables E fs) key = Some v \<Longrightarrow> \<exists>f \<in> set fs. map_of (E (fm_FileNum f)) key = Some v"
  by (induction fs) (auto simp: first_map_Cons split: option.splits)

lemma first_map_not_None: "f \<in> set fs \<Longrightarrow> map_of (E (fm_FileNum f)) key = Some v \<Longrightarrow> first_map (tables E fs) key \<noteq> None"
  by (induction fs) (auto simp: first_map_Cons split: option.splits)

lemma level_lookup:
  assumes "sorted_wrt before fs" "\<forall>f \<in> set fs. file_wf l f \<and> file_ok env disk E f"
  shows "first_map (tables E fs) key = Some v \<longleftrightarrow> (\<exists>f \<in> set fs. map_of (E (fm_FileNum f)) key = Some v)"
proof
  assume "\<exists>f \<in> set fs. map_of (E (fm_FileNum f)) key = Some v"
  then obtain f where f: "f \<in> set fs" "map_of (E (fm_FileNum f)) key = Some v" by blast
  obtain v' where v': "first_map (tables E fs) key = Some v'" using first_map_not_None [of f fs E key v] f by blast
  then obtain g where g: "g \<in> set fs" "map_of (E (fm_FileNum g)) key = Some v'" using first_map_Some_ex by fast
  have hk: "holds_key key f" "holds_key key g"
    using file_ok_outside [of env disk E _ key] assms(2) f g by (metis option.distinct(1))+
  have "f = g"
  proof (rule ccontr)
    assume "f \<noteq> g"
    then have "before f g \<or> before g f"
      using assms(1) f(1) g(1) by (metis in_set_conv_nth linorder_neqE_nat sorted_wrt_nth_less)
    then show False using hk by (auto simp: before_def holds_key_def ck_ord)
  qed
  then show "first_map (tables E fs) key = Some v" using v' f g by simp
qed (rule first_map_Some_ex)

lemma level_lookup_cong:
  assumes "sorted_wrt before fs" "\<forall>f \<in> set fs. file_wf l f \<and> file_ok env disk E f"
    "sorted_wrt before gs" "\<forall>f \<in> set gs. file_wf l f \<and> file_ok env' disk' E' f"
    "\<And>v. (\<exists>f \<in> set fs. map_of (E (fm_FileNum f)) key = Some v) \<longleftrightarrow> (\<exists>f \<in> set gs. map_of (E' (fm_FileNum f)) key = Some v)"
  shows "first_map (tables E fs) key = first_map (tables E' gs) key"
  using level_lookup [OF assms(1,2), of key] level_lookup [OF assms(3,4), of key] assms(5)
  by (metis option.exhaust)

lemma lookup_levels:
  assumes "length v = MaxLevels"
  shows "lookup E v key = (case first_map (tables E (rev (v ! 0))) key of
      None \<Rightarrow> first_map (tables E (concat (map (\<lambda>lv. v ! lv) [1..<MaxLevels]))) key | Some x \<Rightarrow> Some x)"
  unfolding lookup_def concat_levels [OF assms] tables_simps first_map_append by (rule refl)

lemma lower_levels_cong:
  assumes "\<forall>lv \<in> set lvs. first_map (tables E (v ! lv)) key = first_map (tables E' (v' ! lv)) key"
  shows "first_map (tables E (concat (map (\<lambda>lv. v ! lv) lvs))) key = first_map (tables E' (concat (map (\<lambda>lv. v' ! lv) lvs))) key"
  using assms by (induction lvs) (simp_all add: first_map_append cong: option.case_cong)

lemma file_ok_mono:
  assumes "file_ok env disk E f" "disk' (fm_FileNum f) = disk (fm_FileNum f)" "E' (fm_FileNum f) = E (fm_FileNum f)"
  shows "file_ok env disk' E' f"
  using assms by (simp add: file_ok_def table_on_def)

lemma reader_ok_mono:
  assumes "reader_ok disk readers f" "disk' (fm_FileNum f) = disk (fm_FileNum f)" "readers' (fm_FileNum f) = readers (fm_FileNum f)"
  shows "reader_ok disk' readers' f"
  using assms by (simp add: reader_ok_def)

lemma asc_bounds:
  assumes "asc_by CompareKeys es" "e \<in> set es"
  shows "kord (fst (hd es)) \<le> kord (fst e)" "kord (fst e) \<le> kord (fst (last es))"
proof -
  have srt: "sorted_wrt (\<lambda>p q. kord (fst p) < kord (fst q)) es" using assms(1) by (simp add: asc_by_def ck_ord)
  obtain i where i: "i < length es" "e = es ! i" using assms(2) by (auto simp: in_set_conv_nth)
  have ne: "es \<noteq> []" using assms(2) by auto
  show "kord (fst (hd es)) \<le> kord (fst e)"
    using sorted_wrt_nth_less [OF srt, of 0 i] i ne by (cases "i = 0") (auto simp: hd_conv_nth less_imp_le)
  show "kord (fst e) \<le> kord (fst (last es))"
    using sorted_wrt_nth_less [OF srt, of i "length es - 1"] i ne
    by (cases "i = length es - 1") (auto simp: last_conv_nth less_imp_le)
qed

lemma file_num_below:
  assumes "lsm_rep env l E" "f \<in> set (concat (ls_version l))"
  shows "fm_FileNum f < mf_nextFileNum (ls_manifest l)"
proof -
  have "st_disk (ls_store l) (fm_FileNum f) \<noteq> None" using assms unfolding lsm_rep_def reader_ok_def by blast
  then show ?thesis using assms(1) unfolding lsm_rep_def store_ok_def by (metis not_le)
qed

lemma tables_cong: "(\<And>f. f \<in> set fs \<Longrightarrow> E' (fm_FileNum f) = E (fm_FileNum f)) \<Longrightarrow> tables E' fs = tables E fs"
  by (simp add: tables_def)

text \<open>A file added to the end of level 0 is searched first.\<close>

lemma flush_lookup:
  assumes wf: "version_wf v" "version_wf v'" and lv0: "v' ! 0 = v ! 0 @ [f]" and lv: "\<And>n. 0 < n \<Longrightarrow> n < MaxLevels \<Longrightarrow> set (v' ! n) = set (v ! n)"
    and fresh: "\<And>g. g \<in> set (concat v) \<Longrightarrow> fm_FileNum g \<noteq> fm_FileNum f"
    and ok: "\<And>n g. n < MaxLevels \<Longrightarrow> g \<in> set (v ! n) \<Longrightarrow> file_ok env disk E g"
      "\<And>n g. n < MaxLevels \<Longrightarrow> g \<in> set (v' ! n) \<Longrightarrow> file_ok env disk' (E(fm_FileNum f := es)) g"
  shows "lookup (E(fm_FileNum f := es)) v' key = (case map_of es key of None \<Rightarrow> lookup E v key | Some x \<Rightarrow> Some x)"
proof -
  let ?E = "E(fm_FileNum f := es)"
  have len: "length v = MaxLevels" "length v' = MaxLevels" using wf by (simp_all add: version_wf_def)
  have old: "g \<in> set (concat v)" if "n < MaxLevels" "g \<in> set (v ! n)" for n g using that len(1) nth_mem by fastforce
  have "tables ?E fs = tables E fs" if "set fs \<subseteq> set (concat v)" for fs
    using fresh [OF subsetD [OF that]] by (intro tables_cong) (simp only: fun_upd_other not_False_eq_True)
  then have l0: "tables ?E (rev (v' ! 0)) = es # tables E (rev (v ! 0))"
    using lv0 old [of 0] by (simp add: MaxLevels_def subset_iff)
  have "first_map (tables ?E (v' ! n)) key = first_map (tables E (v ! n)) key" if n: "n \<in> set [1..<MaxLevels]" for n
  proof (rule level_lookup_cong)
    show "sorted_wrt before (v' ! n)" "sorted_wrt before (v ! n)" using wf n by (auto simp: version_wf_def)
    show "\<forall>g \<in> set (v' ! n). file_wf n g \<and> file_ok env disk' ?E g" using wf(2) n ok(2) by (auto simp: version_wf_def)
    show "\<forall>g \<in> set (v ! n). file_wf n g \<and> file_ok env disk E g" using wf(1) n ok(1) by (auto simp: version_wf_def)
    show "(\<exists>g \<in> set (v' ! n). map_of (?E (fm_FileNum g)) key = Some x) \<longleftrightarrow> (\<exists>g \<in> set (v ! n). map_of (E (fm_FileNum g)) key = Some x)" for x
      using lv [of n] n fresh old [of n] by auto
  qed
  then have "first_map (tables ?E (concat (map (\<lambda>lv. v' ! lv) [1..<MaxLevels]))) key =
      first_map (tables E (concat (map (\<lambda>lv. v ! lv) [1..<MaxLevels]))) key"
    by (intro lower_levels_cong) blast
  then show ?thesis using l0 len by (simp add: lookup_levels first_map_Cons split: option.split)
qed

lemma flush_run_rep:
  assumes "lsm_rep env l E" "env_good (executor_env (ls_opts l) 0 env)" "asc_by CompareKeys es"
    "\<forall>e \<in> set es. entry_small (ce_blockSize env) e" "weight es + 2 ^ 33 < max_alloc" "f_script (mf_file (ls_manifest l)) = []"
    "unat (mf_nextFileNum (ls_manifest l)) + 1 < 2 ^ 64"
  shows "\<exists>l'. flush_run env es l = (None, l') \<and> lsm_rep env l' (E(mf_nextFileNum (ls_manifest l) := es)) \<and>
    (\<forall>key. lookup (E(mf_nextFileNum (ls_manifest l) := es)) (ls_version l') key =
       (case map_of es key of None \<Rightarrow> lookup E (ls_version l) key | Some v \<Rightarrow> Some v)) \<and>
    (\<exists>f. fm_FileNum f = mf_nextFileNum (ls_manifest l) \<and> ls_version l' ! 0 = ls_version l ! 0 @ [f]) \<and>
    (\<forall>n. 0 < n \<longrightarrow> n < MaxLevels \<longrightarrow> set (ls_version l' ! n) = set (ls_version l ! n)) \<and>
    mf_nextFileNum (ls_manifest l') = mf_nextFileNum (ls_manifest l) + 1 \<and> f_script (mf_file (ls_manifest l')) = [] \<and>
    ls_opts l' = ls_opts l \<and> ls_compactCh l' \<and>
    (ls_stalled l' \<longleftrightarrow> lo_L0StallTrigger (ls_opts l) \<le> int (length (ls_version l' ! 0)))"
proof -
  let ?env = "executor_env (ls_opts l) 0 env" let ?st = "ls_store l" let ?num = "mf_nextFileNum (ls_manifest l)"
  let ?v = "ls_version l" let ?E = "E(?num := es)"
  have rep: "version_wf ?v" "store_ok env ?st" "lo_BlockSize (ls_opts l) = ce_blockSize env" "length ?v = MaxLevels"
    using assms(1) by (simp_all add: lsm_rep_def version_wf_def)
  obtain data r where fl: "OpenReader data ?num = Inr r" "table_on env ((st_disk ?st)(?num \<mapsto> data)) ?num es"
    "flush_table ?env es ?st = (Inr (\<lparr>fm_Level = 0, fm_FileNum = ?num, fm_FileSize = of_nat (length data),
             fm_SmallestKey = (if es = [] then [] else fst (hd es)), fm_LargestKey = (if es = [] then [] else fst (last es)),
             fm_NumEntries = of_nat (length es)\<rparr>, r),
       ?st\<lparr>st_manifest := (ls_manifest l)\<lparr>mf_nextFileNum := ?num + 1\<rparr>, st_disk := (st_disk ?st)(?num \<mapsto> data)\<rparr>)"
    using flush_table_ok [OF assms(2), of ?st es] rep assms(3-5) by auto
  define f where "f = \<lparr>fm_Level = 0, fm_FileNum = ?num, fm_FileSize = of_nat (length data),
             fm_SmallestKey = (if es = [] then [] else fst (hd es)), fm_LargestKey = (if es = [] then [] else fst (last es)),
             fm_NumEntries = of_nat (length es)\<rparr>"
  let ?e = "flush_edit f"
  obtain v' where v': "edit_version ?e ?v = Some v'"
    using edit_version_total [of ?e ?v] by (auto simp: flush_edit_def f_def level_ok_def MaxLevels_def)
  define m' where "m' = (ls_manifest l)\<lparr>mf_nextFileNum := ?num + 1, mf_current := v',
    mf_file := good_file (f_data (mf_file (ls_manifest l)) @ frame ?e)\<rparr>"
  have ap: "manifest_Apply ?e ((ls_manifest l)\<lparr>mf_nextFileNum := ?num + 1\<rparr>) = (None, m')"
    using manifest_Apply_good [of "(ls_manifest l)\<lparr>mf_nextFileNum := ?num + 1\<rparr>" ?e "(ls_manifest l)\<lparr>mf_nextFileNum := ?num + 1, mf_current := v'\<rparr>"]
      v' assms(6) by (simp add: applyEditToMemory_def flush_edit_def m'_def)
  define l' where "l' = (CheckWriteStall (l\<lparr>ls_readers := (ls_readers l)(?num \<mapsto> r),
    ls_store := ?st\<lparr>st_disk := (st_disk ?st)(?num \<mapsto> data), st_manifest := m'\<rparr>\<rparr>))\<lparr>ls_compactCh := True\<rparr>"
  have run: "flush_run env es l = (None, l')"
  proof -
    have "fm_FileNum f = ?num" by (simp add: f_def)
    then show ?thesis using fl(3) [folded f_def] ap by (simp add: flush_run_def Let_def l'_def)
  qed
  have sel: "ls_version l' = v'" "st_disk (ls_store l') = (st_disk ?st)(?num \<mapsto> data)" "ls_readers l' = (ls_readers l)(?num \<mapsto> r)"
    "ls_opts l' = ls_opts l" "ls_compactCh l'" "ls_stalled l' \<longleftrightarrow> lo_L0StallTrigger (ls_opts l) \<le> int (length (v' ! 0))"
    by (simp_all add: l'_def CheckWriteStall_def m'_def)
  have lv0: "v' ! 0 = ?v ! 0 @ [f]"
    using edit_version_level(2) [OF v' rep(4)] by (simp add: flush_edit_def survives_def added_at_def f_def)
  have fresh: "fm_FileNum g \<noteq> ?num" if "g \<in> set (concat ?v)" for g using file_num_below [OF assms(1) that] by auto
  have wf: "version_wf v'"
  proof (rule edit_version_wf [OF v' rep(1)])
    have "?num \<notin> version_nums ?v" unfolding version_nums_def using fresh by force
    then show "\<forall>g \<in> set (ve_AddedFiles ?e). fm_FileNum g \<notin> version_nums ?v" by (simp add: flush_edit_def f_def)
    show "\<forall>g \<in> set (ve_AddedFiles ?e). CompareKeys (fm_SmallestKey g) (fm_LargestKey g) \<le> 0"
      using asc_bounds(1) [OF assms(3), of "last es"] by (auto simp: flush_edit_def f_def ck_ord)
  qed (auto simp: flush_edit_def f_def)
  have lv: "set (v' ! n) = set (?v ! n) \<union> (if n = 0 then {f} else {})" if "n < MaxLevels" for n
    using set_edit_level [OF v' rep(4) that] by (auto simp: flush_edit_def survives_def f_def)
  have old: "g \<in> set (concat ?v)" if "n < MaxLevels" "g \<in> set (?v ! n)" for n g using that rep(4) nth_mem by fastforce
  have fileok: "file_ok env (st_disk (ls_store l')) ?E g \<and> reader_ok (st_disk (ls_store l')) (ls_readers l') g"
    if "n < MaxLevels" "g \<in> set (v' ! n)" for n g
  proof (cases "g = f")
    case True
    have "table_on env (st_disk (ls_store l')) ?num es" using fl(2) sel(2) by simp
    then show ?thesis
      using True sel(2,3) fl(1) asc_bounds [OF assms(3)] assms(4)
      by (auto simp: file_ok_def f_def reader_ok_def holds_key_def)
  next
    case False
    then have g: "g \<in> set (?v ! n)" using lv [OF that(1)] that(2) by (auto split: if_splits)
    show ?thesis
      using file_ok_mono [OF lsm_rep_level(1) [OF assms(1) that(1) g]] reader_ok_mono [OF lsm_rep_level(2) [OF assms(1) that(1) g]]
        fresh [OF old [OF that(1) g]] sel(2,3) by simp
  qed
  have "store_ok env (ls_store l')"
    using write_through_ok [OF rep(2), of data] assms(7) by (simp add: store_ok_def l'_def CheckWriteStall_def m'_def)
  moreover have "ls_readers l' num = None" if "?num + 1 \<le> num" for num
  proof -
    have "unat (?num + 1) = unat ?num + 1" using assms(7) by (simp add: unat_word_ariths)
    then have "?num \<le> num" "?num \<noteq> num" using that by (auto simp: word_le_nat_alt)
    then show ?thesis using assms(1) sel(3) by (auto simp: lsm_rep_def)
  qed
  ultimately have rep': "lsm_rep env l' ?E"
    using wf sel(1,4) rep(3) fileok by (intro lsm_repI) (simp_all add: l'_def CheckWriteStall_def m'_def)
  have same: "set (v' ! n) = set (?v ! n)" if "0 < n" "n < MaxLevels" for n using lv that by simp
  have "lookup ?E v' key = (case map_of es key of None \<Rightarrow> lookup E ?v key | Some v \<Rightarrow> Some v)" for key
    using flush_lookup [OF rep(1) wf lv0, of env "st_disk ?st" E "st_disk (ls_store l')" es key] same fresh fileok lsm_rep_level(1) [OF assms(1)]
    by (auto simp: f_def)
  moreover have "fm_FileNum f = ?num" by (simp add: f_def)
  moreover have "mf_nextFileNum (ls_manifest l') = ?num + 1" "f_script (mf_file (ls_manifest l')) = []"
    by (simp_all add: l'_def CheckWriteStall_def m'_def good_file_def)
  ultimately show ?thesis using run rep' sel lv0 same by (intro exI [of _ l']) auto
qed

end
