(* ===== verification/LsmCompaction.thy ===== *)
theory LsmCompaction
  imports LsmCorrect
begin

text \<open>
  The compaction loop on the tree: a round keeps the tree well formed, what it does to lookups, and
  why the loop ends.
\<close>

section \<open>What a round reads\<close>

lemma set_merge_ref:
  assumes "\<forall>ys \<in> set yss. asc_by CompareKeys ys" "e \<in> set (merge_ref yss)"
  shows "\<exists>ys \<in> set yss. e \<in> set ys"
proof -
  note spec = merge_ref_spec [OF assms(1)]
  have "map_of (merge_ref yss) (fst e) = Some (snd e)"
    using assms(2) ck.asc_by_distinct [OF conjunct1 [OF spec]] by (simp add: map_of_is_SomeI)
  then have "first_map yss (fst e) = Some (snd e)" using spec by simp
  then have "\<exists>ys \<in> set yss. map_of ys (fst e) = Some (snd e)"
    by (induction yss) (auto simp: first_map_Cons split: option.splits)
  then show ?thesis using map_of_SomeD by fastforce
qed

lemma table_on_asc: "table_on env disk num es \<Longrightarrow> asc_by CompareKeys es"
  by (auto simp: table_on_def reader_rep_def)

lemma tables_on_asc:
  "list_all2 (\<lambda>f. table_on env disk (fm_FileNum f)) fs ess \<Longrightarrow> \<forall>ys \<in> set ess. asc_by CompareKeys ys"
  by (induction rule: list_all2_induct) (auto dest: table_on_asc)

lemma picked_files:
  assumes "picked v c s k" "length v = MaxLevels"
  shows "set (cp_Source c) \<subseteq> set (v ! cp_Level c)" "set (cp_Target c) \<subseteq> set (v ! cp_OutputLevel c)"
    "cp_Level c < MaxLevels" "cp_OutputLevel c < MaxLevels" "0 < cp_OutputLevel c" "cp_OutputLevel c = cp_Level c + 1"
    "set (input_files c) \<subseteq> set (concat v)"
proof -
  show sub: "set (cp_Source c) \<subseteq> set (v ! cp_Level c)" "set (cp_Target c) \<subseteq> set (v ! cp_OutputLevel c)"
    and lv: "cp_Level c < MaxLevels" "cp_OutputLevel c < MaxLevels" "0 < cp_OutputLevel c" "cp_OutputLevel c = cp_Level c + 1"
    using assms(1) by (auto simp: picked_def)
  have "set (v ! n) \<subseteq> set (concat v)" if "n < MaxLevels" for n using assms(2) that nth_mem by fastforce
  from this [OF lv(1)] this [OF lv(2)] sub show "set (input_files c) \<subseteq> set (concat v)" by (auto simp: input_files_def)
qed

lemma inputs_on_disk:
  assumes "lsm_rep env l E" "set fs \<subseteq> set (concat (ls_version l))"
  shows "list_all2 (\<lambda>f. table_on env (st_disk (ls_store l)) (fm_FileNum f)) fs (tables E fs)"
proof -
  have "table_on env (st_disk (ls_store l)) (fm_FileNum f) (E (fm_FileNum f))" if "f \<in> set fs" for f
    using assms that unfolding lsm_rep_def file_ok_def by blast
  then show ?thesis by (simp add: tables_def list_all2_map2 list_all2_same)
qed

lemma merged_entries:
  assumes "lsm_rep env l E" "picked (ls_version l) c s k" "e \<in> set (merge_ref (tables E (input_files c)))"
  shows "entry_small (ce_blockSize env) e" "input_key c (fst e)"
proof -
  have len: "length (ls_version l) = MaxLevels" using assms(1) by (simp add: lsm_rep_def version_wf_def)
  note in_v = picked_files(7) [OF assms(2) len]
  have "\<forall>ys \<in> set (tables E (input_files c)). asc_by CompareKeys ys"
    by (rule tables_on_asc [OF inputs_on_disk [OF assms(1) in_v]])
  from set_merge_ref [OF this assms(3)] obtain f where f: "f \<in> set (input_files c)" "e \<in> set (E (fm_FileNum f))"
    by (auto simp: tables_def)
  have "file_ok env (st_disk (ls_store l)) E f" using assms(1) in_v f(1) unfolding lsm_rep_def by blast
  then have h: "holds_key (fst e) f" "entry_small (ce_blockSize env) e" using f(2) by (auto simp: file_ok_def)
  show "entry_small (ce_blockSize env) e" by (rule h(2))
  show "input_key c (fst e)" using h(1) f(1) by (auto simp: input_key_def holds_key_def input_files_def)
qed

section \<open>The files a round adds\<close>

definition with_tables :: "(u64 \<Rightarrow> entry list) \<Rightarrow> FileMetadata list \<Rightarrow> entry list list \<Rightarrow> u64 \<Rightarrow> entry list" where
  "with_tables E added tss num = (case map_of (zip (map fm_FileNum added) tss) num of None \<Rightarrow> E num | Some es \<Rightarrow> es)"

lemma with_tables_added:
  assumes "list_all2 (describes env disk lv) added tss" "distinct (map fm_FileNum added)" "i < length added"
  shows "with_tables E added tss (fm_FileNum (added ! i)) = tss ! i"
proof -
  have "length added = length tss" using assms(1) by (rule list_all2_lengthD)
  then have "map_of (zip (map fm_FileNum added) tss) (map fm_FileNum added ! i) = Some (tss ! i)"
    using assms(2,3) by (intro map_of_zip_nth) simp_all
  then show ?thesis using assms(3) by (simp add: with_tables_def)
qed

lemma with_tables_other:
  assumes "num \<notin> fm_FileNum ` set added"
  shows "with_tables E added tss num = E num"
proof -
  have "map_of (zip (map fm_FileNum added) tss) num = None"
    using assms by (auto simp: map_of_eq_None_iff dest: set_zip_leftD)
  then show ?thesis by (simp add: with_tables_def)
qed

lemma concat_nth_less:
  assumes "asc_by CompareKeys (concat tss)" "i < j" "j < length tss" "a \<in> set (tss ! i)" "b \<in> set (tss ! j)"
  shows "kord (fst a) < kord (fst b)"
  using assms
proof (induction tss arbitrary: i j)
  case (Cons ts tss)
  obtain j' where j: "j = Suc j'" using Cons.prems(2) by (cases j) auto
  show ?case
  proof (cases i)
    case 0
    then have "a \<in> set ts" "b \<in> set (concat tss)" using Cons.prems j by auto
    then show ?thesis using Cons.prems(1) by (auto simp: ck.asc_by_append ck_ord)
  next
    case (Suc i')
    then show ?thesis using Cons.IH [of i' j'] Cons.prems j by (auto simp: ck.asc_by_append)
  qed
qed simp

lemma added_files:
  assumes "list_all2 (describes env disk lv) added tss" "asc_by CompareKeys (concat tss)" "f \<in> set added" "g \<in> set added"
  shows "file_wf lv f" "\<exists>a \<in> set (concat tss). fst a = fm_SmallestKey f" "\<exists>a \<in> set (concat tss). fst a = fm_LargestKey f"
    "f \<noteq> g \<Longrightarrow> before f g \<or> before g f"
proof -
  have desc: "describes env disk lv (added ! i) (tss ! i)" and mem: "tss ! i \<in> set tss" if "i < length added" for i
    using assms(1) that by (auto simp: list_all2_conv_all_nth)
  have d: "describes env disk lv (added ! i) (tss ! i)" "tss ! i \<noteq> []" "hd (tss ! i) \<in> set (tss ! i)" "last (tss ! i) \<in> set (tss ! i)"
    "asc_by CompareKeys (tss ! i)" "set (tss ! i) \<subseteq> set (concat tss)" if "i < length added" for i
    using desc [OF that] asc_concat [OF assms(2) mem [OF that]] mem [OF that] unfolding describes_def by auto
  obtain i j where ij: "i < length added" "f = added ! i" "j < length added" "g = added ! j"
    using assms(3,4) by (auto simp: in_set_conv_nth)
  have "kord (fst (hd (tss ! i))) \<le> kord (fst (last (tss ! i)))" using asc_bounds(1) d [OF ij(1)] by blast
  then show "file_wf lv f" using d(1) [OF ij(1)] ij(2) by (simp add: file_wf_def describes_def ck_ord)
  have ends: "fm_SmallestKey f = fst (hd (tss ! i))" "fm_LargestKey f = fst (last (tss ! i))"
    using d(1) [OF ij(1)] ij(2) by (simp_all add: describes_def)
  show "\<exists>a \<in> set (concat tss). fst a = fm_SmallestKey f"
    using subsetD [OF d(6) d(3), OF ij(1) ij(1)] ends(1) by (intro bexI [of _ "hd (tss ! i)"]) simp_all
  show "\<exists>a \<in> set (concat tss). fst a = fm_LargestKey f"
    using subsetD [OF d(6) d(4), OF ij(1) ij(1)] ends(2) by (intro bexI [of _ "last (tss ! i)"]) simp_all
  have len: "length added = length tss" using assms(1) by (rule list_all2_lengthD)
  have lt: "before (added ! m) (added ! n)" if "m < n" "n < length added" for m n
    using concat_nth_less [OF assms(2) that(1)] d [of m] d [of n] that len by (simp add: before_def ck_ord describes_def)
  show "before f g \<or> before g f" if "f \<noteq> g"
    using that ij lt [of i j] lt [of j i] by (cases i j rule: linorder_cases) auto
qed

section \<open>The version after a round\<close>

lemma level_unique:
  assumes "version_wf v" "m < MaxLevels" "n < MaxLevels" "f \<in> set (v ! m)" "f \<in> set (v ! n)"
  shows "m = n"
proof -
  have "file_wf m f" "file_wf n f" using assms by (simp_all add: version_wf_def)
  then show ?thesis by (simp add: file_wf_def)
qed

lemma compaction_survivor:
  assumes "version_wf v" "picked v c s k" "n < MaxLevels" "f \<in> set (v ! n)" "survives (compaction_edit c added) n f"
  shows "f \<notin> set (input_files c)" "fm_FileNum f \<notin> fm_FileNum ` set (input_files c)"
proof -
  have len: "length v = MaxLevels" using assms(1) by (simp add: version_wf_def)
  note p = picked_files [OF assms(2) len]
  have "fm_FileNum f \<noteq> fm_FileNum g" if g: "g \<in> set (input_files c)" for g
  proof
    assume eq: "fm_FileNum f = fm_FileNum g"
    obtain m where m: "m < MaxLevels" "g \<in> set (v ! m)" "m = cp_Level c \<and> g \<in> set (cp_Source c) \<or> m = cp_OutputLevel c \<and> g \<in> set (cp_Target c)"
      using g p(1-4) unfolding input_files_def set_append by blast
    then have "f = g" using assms(1,3,4) eq unfolding version_wf_def by blast
    moreover have "file_wf n f" "file_wf m g" using assms(1,3,4) m by (auto simp: version_wf_def)
    ultimately have "n = m" by (simp add: file_wf_def)
    have "\<exists>df \<in> set (ve_DeletedFiles (compaction_edit c added)). df_Level df = int m \<and> df_FileNum df = fm_FileNum g"
      using m(3) p(6) by (intro bexI [of _ "\<lparr>df_Level = int m, df_FileNum = fm_FileNum g\<rparr>"]) (auto simp: compaction_edit_def)
    then show False using assms(5) eq \<open>n = m\<close> by (auto simp: survives_def)
  qed
  then show "fm_FileNum f \<notin> fm_FileNum ` set (input_files c)" by auto
  then show "f \<notin> set (input_files c)" by auto
qed

lemma compaction_survives:
  assumes "version_wf v" "picked v c s k" "n < MaxLevels" "f \<in> set (v ! n)" "f \<notin> set (input_files c)"
  shows "survives (compaction_edit c added) n f"
  unfolding survives_def
proof (intro ballI impI)
  have len: "length v = MaxLevels" using assms(1) by (simp add: version_wf_def)
  note p = picked_files [OF assms(2) len]
  fix df assume df: "df \<in> set (ve_DeletedFiles (compaction_edit c added))" "df_Level df = int n"
  then obtain g where g: "g \<in> set (input_files c)" "df_FileNum df = fm_FileNum g"
    using imageI [OF df(1), of df_FileNum] unfolding edit_deleted_nums by blast
  then have "g \<in> set (concat v)" using p(7) by blast
  then obtain fs where "fs \<in> set v" "g \<in> set fs" by auto
  then obtain m where "m < MaxLevels" "g \<in> set (v ! m)" using len by (metis in_set_conv_nth)
  then have "fm_FileNum f = fm_FileNum g \<longrightarrow> f = g" using assms(1,3,4) unfolding version_wf_def by blast
  then show "df_FileNum df \<noteq> fm_FileNum f" using g assms(5) by auto
qed

lemma compaction_version:
  assumes "version_wf v" "picked v c s k" "edit_version (compaction_edit c added) v = Some v'"
    "list_all2 (describes env disk (cp_OutputLevel c)) added tss" "asc_by CompareKeys (concat tss)"
    "\<forall>e \<in> set (concat tss). input_key c (fst e)" "distinct (map fm_FileNum added)" "\<forall>f \<in> set added. fm_FileNum f \<notin> version_nums v"
  shows "version_wf v'"
    "\<And>n. n < MaxLevels \<Longrightarrow> set (v' ! n) = {f \<in> set (v ! n). f \<notin> set (input_files c)} \<union> (if n = cp_OutputLevel c then set added else {})"
    "v' ! 0 = (if cp_Level c = 0 then [] else v ! 0)"
proof -
  have len: "length v = MaxLevels" using assms(1) by (simp add: version_wf_def)
  note p = picked_files [OF assms(2) len]
  let ?e = "compaction_edit c added"
  have add: "ve_AddedFiles ?e = added" by (simp add: compaction_edit_def)
  note af = added_files [OF assms(4,5)]
  have key: "input_key c (fm_SmallestKey f)" "input_key c (fm_LargestKey f)" if "f \<in> set added" for f
    using af(2,3) [OF that that] assms(6) by force+
  show "version_wf v'"
  proof (rule edit_version_wf [OF assms(3,1)])
    show "distinct (map fm_FileNum (ve_AddedFiles ?e))" "\<forall>f \<in> set (ve_AddedFiles ?e). fm_FileNum f \<notin> version_nums v"
      using assms(7,8) add by simp_all
    show "\<forall>f \<in> set (ve_AddedFiles ?e). CompareKeys (fm_SmallestKey f) (fm_LargestKey f) \<le> 0"
      using af(1) add by (auto simp: file_wf_def)
    fix n f g assume n: "0 < n" "n < MaxLevels" and f: "f \<in> set (ve_AddedFiles ?e)" "fm_Level f = int n"
      and g: "g \<in> set (ve_AddedFiles ?e) \<and> fm_Level g = int n \<or> g \<in> set (v ! n) \<and> survives ?e n g" and ne: "f \<noteq> g"
    have f': "f \<in> set added" using f(1) add by simp
    have "n = cp_OutputLevel c" using af(1) [OF f' f'] f(2) by (simp add: file_wf_def)
    from g show "before f g \<or> before g f"
    proof
      assume "g \<in> set (ve_AddedFiles ?e) \<and> fm_Level g = int n"
      then show ?thesis using af(4) [OF f' _ ne] add by simp
    next
      assume g: "g \<in> set (v ! n) \<and> survives ?e n g"
      then have "g \<notin> set (cp_Target c)" using compaction_survivor(1) [OF assms(1,2) n(2)] by (auto simp: input_files_def)
      then show ?thesis
        using output_apart [OF assms(1,2) _ _ key [OF f']] g \<open>n = cp_OutputLevel c\<close> by blast
    qed
  qed
  show "set (v' ! n) = {f \<in> set (v ! n). f \<notin> set (input_files c)} \<union> (if n = cp_OutputLevel c then set added else {})"
    if n: "n < MaxLevels" for n
  proof -
    have "{f \<in> set added. fm_Level f = int n} = (if n = cp_OutputLevel c then set added else {})"
      using af(1) by (auto simp: file_wf_def)
    moreover have "{f \<in> set (v ! n). survives ?e n f} = {f \<in> set (v ! n). f \<notin> set (input_files c)}"
      using compaction_survivor(1) [OF assms(1,2) n] compaction_survives [OF assms(1,2) n] by blast
    ultimately show ?thesis using set_edit_level [OF assms(3) len n] add by simp
  qed
  have zero: "0 < MaxLevels" by (simp add: MaxLevels_def)
  have "added_at ?e 0 = []" using af(1) add p(5) by (auto simp: added_at_def file_wf_def filter_empty_conv)
  moreover have "survives ?e 0 f \<longleftrightarrow> cp_Level c \<noteq> 0" if f: "f \<in> set (v ! 0)" for f
  proof -
    have "f \<in> set (input_files c)" if "cp_Level c = 0" using assms(2) f that by (simp add: picked_def input_files_def)
    moreover have "f \<notin> set (input_files c)" if "cp_Level c \<noteq> 0"
    proof
      assume "f \<in> set (input_files c)"
      then have "f \<in> set (v ! cp_Level c) \<or> f \<in> set (v ! cp_OutputLevel c)" using p(1,2) by (auto simp: input_files_def)
      then show False
        using level_unique [OF assms(1) zero p(3) f] level_unique [OF assms(1) zero p(4) f] p(5) that by auto
    qed
    ultimately show ?thesis
      using compaction_survivor(1) [OF assms(1,2) zero f] compaction_survives [OF assms(1,2) zero f] by blast
  qed
  ultimately show "v' ! 0 = (if cp_Level c = 0 then [] else v ! 0)"
    using edit_version_level(2) [OF assms(3) len] by (auto simp: filter_empty_conv intro!: filter_True)
qed

section \<open>The readers after a round\<close>

lemma drop_readers_apply: "drop_readers fs readers num = (if num \<in> fm_FileNum ` set fs then None else readers num)"
  unfolding drop_readers_def by (induction fs arbitrary: readers) auto

lemma fold_open_reader_other: "num \<notin> fm_FileNum ` set fs \<Longrightarrow> fold (open_reader disk) fs readers num = readers num"
  by (induction fs arbitrary: readers) (auto simp: open_reader_def split: option.splits sum.splits)

lemma fold_open_reader_kept: "readers num = Some r \<Longrightarrow> fold (open_reader disk) fs readers num = Some r"
proof (induction fs arbitrary: readers)
  case (Cons f fs)
  then have "open_reader disk f readers num = Some r" by (auto simp: open_reader_def split: option.splits sum.splits)
  then show ?case using Cons.IH by simp
qed simp

lemma fold_open_reader_new:
  assumes "f \<in> set fs" "readers (fm_FileNum f) = None" "disk (fm_FileNum f) = Some data" "OpenReader data (fm_FileNum f) = Inr r"
  shows "fold (open_reader disk) fs readers (fm_FileNum f) = Some r"
  using assms
proof (induction fs arbitrary: readers)
  case (Cons g fs)
  show ?case
  proof (cases "fm_FileNum g = fm_FileNum f")
    case True
    then have "open_reader disk g readers (fm_FileNum f) = Some r" using Cons.prems by (simp add: open_reader_def)
    then show ?thesis using fold_open_reader_kept by simp
  next
    case False
    then have "open_reader disk g readers (fm_FileNum f) = None" "f \<in> set fs"
      using Cons.prems by (auto simp: open_reader_def split: option.splits sum.splits)
    then show ?thesis using Cons by simp
  qed
qed simp

section \<open>A round\<close>

text \<open>What the round needs of the disk: enough numbers, tables small enough, a manifest that can be written.\<close>

definition room :: "LSMTree \<Rightarrow> entry list \<Rightarrow> bool" where
  "room l zs \<longleftrightarrow> unat (mf_nextFileNum (ls_manifest l)) + length zs < 2 ^ 64 \<and> weight zs + 2 ^ 33 < max_alloc \<and>
     f_script (mf_file (ls_manifest l)) = []"

text \<open>The outcome of a round that compacts \<open>c\<close>: the added files and their tables.\<close>

definition compacted :: "cenv \<Rightarrow> nat \<Rightarrow> LSMTree \<Rightarrow> (u64 \<Rightarrow> entry list) \<Rightarrow> Compaction \<Rightarrow> LSMTree \<Rightarrow> FileMetadata list \<Rightarrow> entry list list \<Rightarrow> bool" where
  "compacted env i l E c l' added tss \<longleftrightarrow>
     lsm_rep env l' (with_tables E added tss) \<and>
     concat tss = gc_list (min_at (executor_env (ls_opts l) i env)) (maxOccupiedLevel (ls_version l) \<le> cp_OutputLevel c) 0 ([], False)
                    (merge_ref (tables E (input_files c))) \<and>
     list_all2 (describes env (st_disk (ls_store l')) (cp_OutputLevel c)) added tss \<and>
     distinct (map fm_FileNum added) \<and> (\<forall>f \<in> set added. mf_nextFileNum (ls_manifest l) \<le> fm_FileNum f) \<and>
     (\<forall>n < MaxLevels. set (ls_version l' ! n) =
        {f \<in> set (ls_version l ! n). f \<notin> set (input_files c)} \<union> (if n = cp_OutputLevel c then set added else {})) \<and>
     ls_version l' ! 0 = (if cp_Level c = 0 then [] else ls_version l ! 0) \<and>
     ls_opts l' = ls_opts l \<and> ls_stalled l' = (lo_L0StallTrigger (ls_opts l) \<le> int (length (ls_version l' ! 0))) \<and>
     mf_nextFileNum (ls_manifest l') = mf_nextFileNum (ls_manifest l) + of_nat (length added) \<and>
     f_script (mf_file (ls_manifest l')) = [] \<and> ls_compactCh l' = ls_compactCh l"

lemma describes_executor: "describes (executor_env opts i env) = describes env"
  by (intro ext) (simp add: describes_def)

lemma describes_file_ok:
  assumes "list_all2 (describes env disk lv) added tss" "distinct (map fm_FileNum added)" "asc_by CompareKeys (concat tss)"
    "\<forall>e \<in> set (concat tss). entry_small (ce_blockSize env) e" "f \<in> set added"
  shows "file_ok env disk (with_tables E added tss) f"
proof -
  obtain i where i: "i < length added" "f = added ! i" using assms(5) by (auto simp: in_set_conv_nth)
  have d: "describes env disk lv f (tss ! i)" and mem: "tss ! i \<in> set tss" using assms(1) i by (auto simp: list_all2_conv_all_nth)
  have "asc_by CompareKeys (tss ! i)" by (rule asc_concat [OF assms(3) mem])
  then show ?thesis
    using d with_tables_added [OF assms(1,2) i(1), of E] i(2) assms(4) mem asc_bounds
    by (auto simp: file_ok_def describes_def holds_key_def)
qed

lemma install_simps [simp]:
  "ls_store (ReleaseStall (install c l)) = ls_store l" "ls_opts (ReleaseStall (install c l)) = ls_opts l"
  "ls_compactCh (ReleaseStall (install c l)) = ls_compactCh l"
  "ls_stalled (ReleaseStall (install c l)) = (lo_L0StallTrigger (ls_opts l) \<le> int (length (ls_version l ! 0)))"
  "ls_readers (ReleaseStall (install c l)) = fold (open_reader (st_disk (ls_store l))) (ls_version l ! cp_OutputLevel c)
     (drop_readers (input_files c) (ls_readers l))"
  by (simp_all add: ReleaseStall_def CheckWriteStall_def install_def input_files_def)

text \<open>The readers of an added file and of a file that stays.\<close>

lemma reader_new:
  assumes "file_ok env disk E f" "f \<in> set fs" "readers (fm_FileNum f) = None"
  shows "file_ok env disk E f \<and> reader_ok disk (fold (open_reader disk) fs (drop_readers gs readers)) f"
proof -
  obtain data r where r: "disk (fm_FileNum f) = Some data" "OpenReader data (fm_FileNum f) = Inr r"
    using assms(1) by (auto simp: file_ok_def table_on_def)
  moreover have "drop_readers gs readers (fm_FileNum f) = None" using assms(3) by (simp add: drop_readers_apply)
  ultimately show ?thesis using assms(1,2) fold_open_reader_new by (simp add: reader_ok_def)
qed

lemma reader_kept:
  assumes rep: "lsm_rep env l E" and n: "n < MaxLevels" "f \<in> set (ls_version l ! n)" and num: "fm_FileNum f \<notin> fm_FileNum ` set gs"
    and E: "E' (fm_FileNum f) = E (fm_FileNum f)" and disk: "disk' (fm_FileNum f) = st_disk (ls_store l) (fm_FileNum f)"
  shows "file_ok env disk' E' f \<and> reader_ok disk' (fold (open_reader disk') fs (drop_readers gs (ls_readers l))) f"
proof -
  obtain r where "ls_readers l (fm_FileNum f) = Some r" using lsm_rep_level(2) [OF rep n] by (auto simp: reader_ok_def)
  then have "fold (open_reader disk') fs (drop_readers gs (ls_readers l)) (fm_FileNum f) = ls_readers l (fm_FileNum f)"
    using num fold_open_reader_kept [of "drop_readers gs (ls_readers l)" "fm_FileNum f" r] by (simp add: drop_readers_apply)
  then show ?thesis
    using file_ok_mono [where disk' = disk' and E' = E', OF lsm_rep_level(1) [OF rep n] disk E]
      reader_ok_mono [where disk' = disk', OF lsm_rep_level(2) [OF rep n] disk] by blast
qed

lemma compact_round_ok:
  assumes "lsm_rep env l E" "PickCompaction rnd (ls_version l) = Some c" "rnd 0 = 0" "env_good (executor_env (ls_opts l) i env)"
    "room l (merge_ref (tables E (input_files c)))"
  shows "\<exists>l' added tss. compact_round rnd i env ms l = Some (True, l') \<and> compacted env i l E c l' added tss"
proof -
  let ?env = "executor_env (ls_opts l) i env" let ?v = "ls_version l" let ?st = "ls_store l"
  let ?zs = "merge_ref (tables E (input_files c))" let ?n0 = "mf_nextFileNum (ls_manifest l)"
  have wf: "version_wf ?v" and ok: "store_ok env ?st" and bs: "lo_BlockSize (ls_opts l) = ce_blockSize env" and len: "length ?v = MaxLevels"
    using assms(1) by (simp_all add: lsm_rep_def version_wf_def)
  obtain s k where pk: "picked ?v c s k" using PickCompaction_picked(1) [OF assms(2,3)] by blast
  note p = picked_files [OF pk len]
  note me = merged_entries [OF assms(1) pk]
  have src: "cp_Source c \<noteq> []" using pk by (simp add: picked_def)
  have small: "\<forall>e \<in> set ?zs. entry_small (ce_blockSize ?env) e" using me(1) bs by simp
  have on: "list_all2 (\<lambda>f. table_on ?env (st_disk ?st) (fm_FileNum f)) (input_files c) (tables E (input_files c))"
    using inputs_on_disk [OF assms(1) p(7)] by simp
  have ok': "store_ok ?env ?st" using ok by simp
  have rm: "f_script (mf_file (ls_manifest l)) = []" "unat ?n0 + length ?zs < 2 ^ 64" "weight ?zs + 2 ^ 33 < max_alloc"
    using assms(5) by (simp_all add: room_def)
  from Execute_ok [OF assms(4) ok' src p(6,4) on rm(1,2) small rm(3), of "maxOccupiedLevel ?v"] obtain out st' tss added where
    ex: "Execute ?env (Some c) (maxOccupiedLevel ?v) ?st = Some (Inr (sum_list (map fm_FileSize (input_files c)), out), st')"
      "concat tss = gc_list (min_at ?env) (maxOccupiedLevel ?v \<le> cp_OutputLevel c) 0 ([], False) ?zs"
      "list_all2 (describes env (st_disk st') (cp_OutputLevel c)) added tss"
      "edit_version (compaction_edit c added) ?v = Some (mf_current (st_manifest st'))"
      "mf_file (st_manifest st') = good_file (f_data (mf_file (ls_manifest l)) @ frame (compaction_edit c added))"
      "mf_nextFileNum (st_manifest st') = ?n0 + of_nat (length added)"
      "\<forall>f \<in> set added. ?n0 \<le> fm_FileNum f" "distinct (map fm_FileNum added)" "store_ok env st'"
      "\<forall>num < ?n0. st_disk st' num = (if num \<in> fm_FileNum ` set (input_files c) \<and> ce_removable ?env num then None else st_disk ?st num)"
    by (auto simp: describes_executor)
  define l' where "l' = ReleaseStall (install c (l\<lparr>ls_store := st',
    ls_stats := RecordCompaction (sum_list (map fm_FileSize (input_files c))) out ms (ls_stats l)\<rparr>))"
  let ?E = "with_tables E added tss"
  have run: "compact_round rnd i env ms l = Some (True, l')" using assms(2) ex(1) by (simp add: compact_round_def l'_def)
  have "asc_by CompareKeys ?zs" using merge_ref_spec [OF tables_on_asc [OF on]] by blast
  then have asc: "asc_by CompareKeys (concat tss)" unfolding ex(2) by (rule asc_gc_list)
  have sub: "set (concat tss) \<subseteq> set ?zs" unfolding ex(2) by (rule set_gc_list)
  have keys: "\<forall>e \<in> set (concat tss). input_key c (fst e)" using me(2) sub by blast
  have small': "\<forall>e \<in> set (concat tss). entry_small (ce_blockSize env) e" using me(1) sub by blast
  have below: "fm_FileNum f < ?n0" if "f \<in> set (concat ?v)" for f by (rule file_num_below [OF assms(1) that])
  have fresh: "\<forall>f \<in> set added. fm_FileNum f \<notin> version_nums ?v"
    using ex(7) below unfolding version_nums_def by (metis imageE not_le)
  note ver = compaction_version [OF wf pk ex(4,3) asc keys ex(8) fresh]
  have in_v: "f \<in> set (concat ?v)" if "n < MaxLevels" "f \<in> set (?v ! n)" for n f using that len nth_mem by fastforce
  have rd: "ls_readers l' = fold (open_reader (st_disk st')) (mf_current (st_manifest st') ! cp_OutputLevel c) (drop_readers (input_files c) (ls_readers l))"
    by (simp add: l'_def)
  have new: "file_ok env (st_disk st') ?E f \<and> reader_ok (st_disk st') (ls_readers l') f" if f: "f \<in> set added" for f
    unfolding rd
  proof (rule reader_new [OF describes_file_ok [OF ex(3,8) asc small' f]])
    show "f \<in> set (mf_current (st_manifest st') ! cp_OutputLevel c)" using ver(2) [OF p(4)] f by simp
    show "ls_readers l (fm_FileNum f) = None" using assms(1) ex(7) f by (auto simp: lsm_rep_def)
  qed
  have kept: "file_ok env (st_disk st') ?E f \<and> reader_ok (st_disk st') (ls_readers l') f"
    if n: "n < MaxLevels" "f \<in> set (?v ! n)" and out: "f \<notin> set (input_files c)" for n f
    unfolding rd
  proof (rule reader_kept [OF assms(1) n])
    show num: "fm_FileNum f \<notin> fm_FileNum ` set (input_files c)"
      by (rule compaction_survivor(2) [OF wf pk n compaction_survives [OF wf pk n out]])
    have lt: "fm_FileNum f < ?n0" by (rule below [OF in_v [OF n]])
    then show "?E (fm_FileNum f) = E (fm_FileNum f)" using ex(7) by (intro with_tables_other) (metis imageE not_le)
    show "st_disk st' (fm_FileNum f) = st_disk ?st (fm_FileNum f)" using ex(10) lt num by simp
  qed
  have files: "file_ok env (st_disk (ls_store l')) ?E f \<and> reader_ok (st_disk (ls_store l')) (ls_readers l') f"
    if "n < MaxLevels" "f \<in> set (ls_version l' ! n)" for n f
    using that ver(2) [OF that(1)] new kept [OF that(1)] by (auto simp: l'_def split: if_splits)
  have "length added \<le> length ?zs"
  proof -
    have "length tss \<le> length (concat tss)"
      using ex(3) by (induction rule: list_all2_induct) (auto simp: describes_def Suc_le_eq intro: add_less_le_mono le_less_trans)
    then show ?thesis
      using list_all2_lengthD [OF ex(3)] length_gc_list [of "min_at ?env" "maxOccupiedLevel ?v \<le> cp_OutputLevel c" 0 "([], False)" ?zs]
      unfolding ex(2) by linarith
  qed
  then have le: "?n0 \<le> mf_nextFileNum (st_manifest st')"
    using rm(2) ex(6) by (simp add: word_le_nat_alt unat_word_ariths unat_of_nat take_bit_nat_eq_self)
  have "ls_readers l' num = None" if num: "mf_nextFileNum (st_manifest st') \<le> num" for num
  proof -
    have "num \<notin> fm_FileNum ` set (ls_version l' ! cp_OutputLevel c)"
    proof
      assume "num \<in> fm_FileNum ` set (ls_version l' ! cp_OutputLevel c)"
      then obtain f where f: "f \<in> set (ls_version l' ! cp_OutputLevel c)" "num = fm_FileNum f" by blast
      have "st_disk st' num \<noteq> None" using files [OF p(4) f(1)] f(2) by (auto simp: reader_ok_def l'_def)
      then show False using ex(9) num by (simp add: store_ok_def)
    qed
    moreover have "ls_readers l num = None" using assms(1) order_trans [OF le num] by (simp add: lsm_rep_def)
    ultimately show ?thesis by (simp add: l'_def fold_open_reader_other drop_readers_apply)
  qed
  then have rep': "lsm_rep env l' ?E"
    using ver(1) ex(9) bs files by (intro lsm_repI) (simp_all add: l'_def)
  have "compacted env i l E c l' added tss"
    unfolding compacted_def using rep' ex(2,3,6,7,8) ver(2,3) ex(5) by (simp add: l'_def good_file_def)
  then show ?thesis using run by blast
qed

section \<open>Lookups after a round\<close>

lemma gc_none: "lo_MinActiveSnapshot opts = None \<Longrightarrow> gc_list (min_at (executor_env opts i env)) d n s es = es"
proof -
  assume "lo_MinActiveSnapshot opts = None"
  then have "min_at (executor_env opts i env) = (\<lambda>_. 0)" by (intro ext) (simp add: min_at_def executor_env_def)
  then show ?thesis by (simp add: gc_list_nil)
qed

lemma map_of_concat:
  "asc_by CompareKeys (concat tss) \<Longrightarrow> map_of (concat tss) key = Some x \<longleftrightarrow> (\<exists>ts \<in> set tss. map_of ts key = Some x)"
proof -
  assume asc: "asc_by CompareKeys (concat tss)"
  have "map_of ts key = Some x \<longleftrightarrow> (key, x) \<in> set ts" if "ts \<in> set tss" for ts
    using ck.asc_by_distinct [OF asc_concat [OF asc that]] by simp
  moreover have "map_of (concat tss) key = Some x \<longleftrightarrow> (key, x) \<in> set (concat tss)"
    using ck.asc_by_distinct [OF asc] by simp
  ultimately show ?thesis by auto
qed

lemma lsm_level_lookup:
  assumes "lsm_rep env l E" "0 < n" "n < MaxLevels"
  shows "first_map (tables E (ls_version l ! n)) key = Some x \<longleftrightarrow> (\<exists>f \<in> set (ls_version l ! n). map_of (E (fm_FileNum f)) key = Some x)"
proof (rule level_lookup)
  show "sorted_wrt before (ls_version l ! n)" using assms by (simp add: lsm_rep_def version_wf_def)
  show "\<forall>f \<in> set (ls_version l ! n). file_wf n f \<and> file_ok env (st_disk (ls_store l)) E f" using lsm_rep_level [OF assms(1,3)] by blast
qed

text \<open>What the output level answers: the merged inputs, then the files that stayed.\<close>

lemma output_level_lookup:
  assumes "lsm_rep env l E" "picked (ls_version l) c s k" "compacted env i l E c l' added tss" "lo_MinActiveSnapshot (ls_opts l) = None"
  shows "first_map (tables (with_tables E added tss) (ls_version l' ! cp_OutputLevel c)) key = Some x \<longleftrightarrow>
    first_map (tables E (input_files c)) key = Some x \<or>
    (\<exists>f \<in> set (ls_version l ! cp_OutputLevel c) - set (input_files c). map_of (E (fm_FileNum f)) key = Some x)"
proof -
  let ?E = "with_tables E added tss" let ?v = "ls_version l" let ?v' = "ls_version l'" let ?o = "cp_OutputLevel c"
  have wf: "version_wf ?v" and len: "length ?v = MaxLevels" using assms(1) by (simp_all add: lsm_rep_def version_wf_def)
  note p = picked_files [OF assms(2) len]
  note in_v = inputs_on_disk [OF assms(1) p(7)]
  have c: "lsm_rep env l' ?E" "concat tss = merge_ref (tables E (input_files c))"
    "list_all2 (describes env (st_disk (ls_store l')) ?o) added tss" "distinct (map fm_FileNum added)"
    "\<forall>f \<in> set added. mf_nextFileNum (ls_manifest l) \<le> fm_FileNum f"
    "set (?v' ! ?o) = {f \<in> set (?v ! ?o). f \<notin> set (input_files c)} \<union> set added"
    using assms(3) p(4) gc_none [OF assms(4)] by (simp_all add: compacted_def)
  note spec = merge_ref_spec [OF tables_on_asc [OF in_v]]
  have asc: "asc_by CompareKeys (concat tss)" using spec c(2) by simp
  have new: "(\<exists>f \<in> set added. map_of (?E (fm_FileNum f)) key = Some x) \<longleftrightarrow> first_map (tables E (input_files c)) key = Some x"
  proof -
    have "tables ?E added = tss"
      using with_tables_added [OF c(3,4)] list_all2_lengthD [OF c(3)] by (intro nth_equalityI) (simp_all add: tables_def)
    then have "set tss = (\<lambda>f. ?E (fm_FileNum f)) ` set added" by (metis comp_apply image_cong list.set_map tables_def)
    then have "(\<exists>f \<in> set added. map_of (?E (fm_FileNum f)) key = Some x) \<longleftrightarrow> (\<exists>ts \<in> set tss. map_of ts key = Some x)"
      by (simp only: bex_simps)
    then show ?thesis using map_of_concat [OF asc, of key x] spec c(2) by simp
  qed
  have old: "?E (fm_FileNum f) = E (fm_FileNum f)" if "f \<in> set (?v ! ?o)" for f
  proof (rule with_tables_other)
    have "f \<in> set (concat ?v)" using that p(4) len nth_mem by fastforce
    then show "fm_FileNum f \<notin> fm_FileNum ` set added" using file_num_below [OF assms(1)] c(5) by (metis imageE not_le)
  qed
  show ?thesis unfolding lsm_level_lookup [OF c(1) p(5,4)] c(6) using new old by (auto simp: Bex_def)
qed

lemma other_level_lookup:
  assumes "lsm_rep env l E" "picked (ls_version l) c s k" "compacted env i l E c l' added tss" "n \<noteq> cp_OutputLevel c" "0 < n" "n < MaxLevels"
  shows "first_map (tables (with_tables E added tss) (ls_version l' ! n)) key = Some x \<longleftrightarrow>
    (\<exists>f \<in> set (ls_version l ! n) - set (input_files c). map_of (E (fm_FileNum f)) key = Some x)"
proof -
  let ?E = "with_tables E added tss" let ?v = "ls_version l" let ?v' = "ls_version l'"
  have len: "length ?v = MaxLevels" using assms(1) by (simp add: lsm_rep_def version_wf_def)
  have c: "lsm_rep env l' ?E" "\<forall>f \<in> set added. mf_nextFileNum (ls_manifest l) \<le> fm_FileNum f"
    "set (?v' ! n) = {f \<in> set (?v ! n). f \<notin> set (input_files c)}"
    using assms(3,4,6) by (simp_all add: compacted_def)
  have old: "?E (fm_FileNum f) = E (fm_FileNum f)" if "f \<in> set (?v ! n)" for f
  proof (rule with_tables_other)
    have "f \<in> set (concat ?v)" using that assms(6) len nth_mem by fastforce
    then show "fm_FileNum f \<notin> fm_FileNum ` set added" using file_num_below [OF assms(1)] c(2) by (metis imageE not_le)
  qed
  show ?thesis unfolding lsm_level_lookup [OF c(1) assms(5,6)] c(3) using old by (auto simp: Bex_def)
qed

text \<open>The levels below the output level and between level 0 and the source level answer as before.\<close>

lemma untouched_level_lookup:
  assumes "lsm_rep env l E" "picked (ls_version l) c s k" "compacted env i l E c l' added tss"
    "n \<noteq> cp_OutputLevel c" "n \<noteq> cp_Level c" "0 < n" "n < MaxLevels"
  shows "first_map (tables (with_tables E added tss) (ls_version l' ! n)) key = first_map (tables E (ls_version l ! n)) key"
proof -
  have wf: "version_wf (ls_version l)" and len: "length (ls_version l) = MaxLevels" using assms(1) by (simp_all add: lsm_rep_def version_wf_def)
  note p = picked_files [OF assms(2) len]
  have "f \<notin> set (input_files c)" if "f \<in> set (ls_version l ! n)" for f
    using level_unique [OF wf assms(7) p(3) that] level_unique [OF wf assms(7) p(4) that] p(1,2) assms(4,5)
    by (auto simp: input_files_def)
  then have "set (ls_version l ! n) - set (input_files c) = set (ls_version l ! n)" by blast
  then have "first_map (tables (with_tables E added tss) (ls_version l' ! n)) key = Some x \<longleftrightarrow>
      first_map (tables E (ls_version l ! n)) key = Some x" for x
    using other_level_lookup [OF assms(1-4,6,7), of key x] lsm_level_lookup [OF assms(1,6,7), of key x] by simp
  then show ?thesis by (metis option.exhaust)
qed

text \<open>A level-0 round: afterwards level 0 reads as if its files were searched oldest first.\<close>

lemma round_level0:
  assumes "lsm_rep env l E" "picked (ls_version l) c s k" "compacted env i l E c l' added tss" "lo_MinActiveSnapshot (ls_opts l) = None"
    "cp_Level c = 0"
  shows "lookup (with_tables E added tss) (ls_version l') key = first_map (tables E (ls_version l ! 0 @ concat (tl (ls_version l)))) key"
proof -
  let ?E = "with_tables E added tss" let ?v = "ls_version l" let ?v' = "ls_version l'"
  have wf: "version_wf ?v" "version_wf ?v'" and len: "length ?v = MaxLevels" "length ?v' = MaxLevels"
    using assms(1,3) by (simp_all add: compacted_def lsm_rep_def version_wf_def)
  note p = picked_files [OF assms(2) len(1)]
  have o: "cp_OutputLevel c = 1" and src: "cp_Source c = ?v ! 0" using p(6) assms(2,5) by (simp_all add: picked_def)
  have one: "(1 :: nat) < MaxLevels" by (simp add: MaxLevels_def)
  let ?t = "\<lambda>x. \<exists>f \<in> set (cp_Target c). map_of (E (fm_FileNum f)) key = Some x"
  let ?d = "\<lambda>x. \<exists>f \<in> set (?v ! 1) - set (input_files c). map_of (E (fm_FileNum f)) key = Some x"
  have l1: "first_map (tables E (?v ! 1)) key = Some x \<longleftrightarrow> ?t x \<or> ?d x" for x
  proof -
    have "set (?v ! 1) = set (cp_Target c) \<union> (set (?v ! 1) - set (input_files c))"
    proof -
      have "set (cp_Source c) \<inter> set (?v ! 1) = {}"
        using level_unique [OF wf(1) p(3) one] p(1) assms(5) by fastforce
      then show ?thesis using p(2) o by (auto simp: input_files_def)
    qed
    then show ?thesis unfolding lsm_level_lookup [OF assms(1) zero_less_one one] by blast
  qed
  have l1': "first_map (tables ?E (?v' ! 1)) key = Some x \<longleftrightarrow> first_map (tables E (?v ! 0 @ cp_Target c)) key = Some x \<or> ?d x" for x
    using output_level_lookup [OF assms(1-4), of key x] o src by (simp add: input_files_def)
  have lev: "first_map (tables ?E (?v' ! 1)) key =
      (case first_map (tables E (?v ! 0)) key of None \<Rightarrow> first_map (tables E (?v ! 1)) key | Some x \<Rightarrow> Some x)"
  proof (cases "first_map (tables E (?v ! 0)) key")
    case (Some y)
    then show ?thesis using l1' [of y] by (simp add: first_map_append)
  next
    case None
    have "first_map (tables E (cp_Target c)) key = Some x \<longleftrightarrow> ?t x" for x
    proof
      assume t: "?t x"
      then obtain y where y: "first_map (tables E (cp_Target c)) key = Some y" using first_map_not_None by (metis not_None_eq)
      then have "?t y" by (rule first_map_Some_ex)
      then show "first_map (tables E (cp_Target c)) key = Some x" using y l1 [of x] l1 [of y] t by simp
    qed (rule first_map_Some_ex)
    then have "first_map (tables ?E (?v' ! 1)) key = Some x \<longleftrightarrow> first_map (tables E (?v ! 1)) key = Some x" for x
      using l1' [of x] l1 [of x] None by (simp add: first_map_append)
    then have "first_map (tables ?E (?v' ! 1)) key = first_map (tables E (?v ! 1)) key" by (metis option.exhaust)
    then show ?thesis using None by simp
  qed
  have rest: "first_map (tables ?E (concat (map (\<lambda>n. ?v' ! n) [2..<MaxLevels]))) key =
      first_map (tables E (concat (map (\<lambda>n. ?v ! n) [2..<MaxLevels]))) key"
    using untouched_level_lookup [OF assms(1-3)] o assms(5) by (intro lower_levels_cong) auto
  have upt: "[1..<MaxLevels] = 1 # [2..<MaxLevels]" by (simp add: MaxLevels_def upt_rec)
  have "?v' ! 0 = []" using assms(3,5) by (simp add: compacted_def)
  then show ?thesis
    unfolding lookup_def concat_levels [OF len(1)] concat_levels [OF len(2)] upt
    using lev rest by (simp add: first_map_append split: option.split)
qed

text \<open>A round below level 0: the source level and the output level together answer as before.\<close>

lemma two_levels:
  fixes rl ro rl' ro' :: "'v option"
  assumes "\<And>x. rl = Some x \<longleftrightarrow> a x \<or> b x" "\<And>x. ro = Some x \<longleftrightarrow> t x \<or> d x" "\<And>x. rl' = Some x \<longleftrightarrow> b x"
    "\<And>x. ro' = Some x \<longleftrightarrow> m = Some x \<or> d x" "\<And>x. m = Some x \<Longrightarrow> a x \<or> (\<forall>y. \<not> a y) \<and> t x" "\<And>x. a x \<Longrightarrow> m \<noteq> None"
    "\<And>x. t x \<Longrightarrow> (\<forall>y. \<not> a y) \<Longrightarrow> m \<noteq> None"
  shows "(case rl of None \<Rightarrow> ro | Some x \<Rightarrow> Some x) = (case rl' of None \<Rightarrow> ro' | Some x \<Rightarrow> Some x)"
proof (cases rl)
  case (Some x)
  show ?thesis
  proof (cases rl')
    case None
    then have "a x" using assms(1,3) Some by (metis option.distinct(1))
    then obtain y where "m = Some y" "a y" using assms(5,6) by blast
    then have "y = x" using assms(1) Some by (metis option.inject)
    then have "ro' = Some x" using assms(4) \<open>m = Some y\<close> by blast
    then show ?thesis using Some None by simp
  next
    case (Some y)
    then have "rl = Some y" using assms(1,3) by blast
    then show ?thesis using Some by simp
  qed
next
  case None
  then have na: "\<not> a x" "\<not> b x" for x using assms(1) by (metis option.distinct(1))+
  then have "rl' = None" using assms(3) by (metis option.exhaust)
  moreover have "ro = ro'"
  proof -
    have "m = Some x \<longleftrightarrow> t x" for x
      using assms(2,5,7) na(1) by (metis not_None_eq option.inject)
    then have "ro = Some x \<longleftrightarrow> ro' = Some x" for x using assms(2,4) by simp
    then show ?thesis by (metis option.exhaust)
  qed
  ultimately show ?thesis using None by simp
qed

lemma round_deeper:
  assumes "lsm_rep env l E" "picked (ls_version l) c s k" "compacted env i l E c l' added tss" "lo_MinActiveSnapshot (ls_opts l) = None"
    "cp_Level c \<noteq> 0"
  shows "lookup (with_tables E added tss) (ls_version l') key = lookup E (ls_version l) key"
proof -
  let ?E = "with_tables E added tss" let ?v = "ls_version l" let ?v' = "ls_version l'" let ?n = "cp_Level c"
  have wf: "version_wf ?v" and len: "length ?v = MaxLevels" "length ?v' = MaxLevels"
    using assms(1,3) by (simp_all add: compacted_def lsm_rep_def version_wf_def)
  note p = picked_files [OF assms(2) len(1)]
  have n: "0 < ?n" "?n \<noteq> cp_OutputLevel c" using assms(5) p(6) by simp_all
  have has: "\<exists>f \<in> set fs. map_of (E (fm_FileNum f)) key = Some x" if "first_map (tables E fs) key = Some x" for fs x
    using that by (rule first_map_Some_ex)
  let ?h = "\<lambda>S x. \<exists>f \<in> S. map_of (E (fm_FileNum f)) key = Some x"
  have dis: "set (cp_Source c) \<inter> set (?v ! cp_OutputLevel c) = {}" "set (cp_Target c) \<inter> set (?v ! ?n) = {}"
    using level_unique [OF wf p(3,4)] p(1,2) n(2) by blast+
  have parts: "set (?v ! ?n) = set (cp_Source c) \<union> (set (?v ! ?n) - set (input_files c))"
    "set (?v ! cp_OutputLevel c) = set (cp_Target c) \<union> (set (?v ! cp_OutputLevel c) - set (input_files c))"
    using p(1,2) dis by (auto simp: input_files_def)
  have two: "(case first_map (tables E (?v ! ?n)) key of None \<Rightarrow> first_map (tables E (?v ! cp_OutputLevel c)) key | Some x \<Rightarrow> Some x) =
    (case first_map (tables ?E (?v' ! ?n)) key of None \<Rightarrow> first_map (tables ?E (?v' ! cp_OutputLevel c)) key | Some x \<Rightarrow> Some x)"
  proof (rule two_levels [where a = "?h (set (cp_Source c))" and b = "?h (set (?v ! ?n) - set (input_files c))" and
        t = "?h (set (cp_Target c))" and d = "?h (set (?v ! cp_OutputLevel c) - set (input_files c))" and
        m = "first_map (tables E (input_files c)) key"])
    fix x
    show "first_map (tables E (?v ! ?n)) key = Some x \<longleftrightarrow> ?h (set (cp_Source c)) x \<or> ?h (set (?v ! ?n) - set (input_files c)) x"
      unfolding lsm_level_lookup [OF assms(1) n(1) p(3)] using parts(1) by blast
    show "first_map (tables E (?v ! cp_OutputLevel c)) key = Some x \<longleftrightarrow>
        ?h (set (cp_Target c)) x \<or> ?h (set (?v ! cp_OutputLevel c) - set (input_files c)) x"
      unfolding lsm_level_lookup [OF assms(1) p(5,4)] using parts(2) by blast
    show "first_map (tables ?E (?v' ! ?n)) key = Some x \<longleftrightarrow> ?h (set (?v ! ?n) - set (input_files c)) x"
      by (rule other_level_lookup [OF assms(1-3) n(2,1) p(3)])
    show "first_map (tables ?E (?v' ! cp_OutputLevel c)) key = Some x \<longleftrightarrow>
        first_map (tables E (input_files c)) key = Some x \<or> ?h (set (?v ! cp_OutputLevel c) - set (input_files c)) x"
      by (rule output_level_lookup [OF assms(1-4)])
    show "?h (set (cp_Source c)) x \<or> (\<forall>y. \<not> ?h (set (cp_Source c)) y) \<and> ?h (set (cp_Target c)) x"
      if "first_map (tables E (input_files c)) key = Some x"
    proof (cases "first_map (tables E (cp_Source c)) key")
      case None
      then have "\<not> ?h (set (cp_Source c)) y" for y using first_map_not_None by metis
      then show ?thesis using that None has [of "cp_Target c" x] by (simp add: input_files_def first_map_append)
    next
      case (Some y)
      then show ?thesis using that has [of "cp_Source c" x] by (simp add: input_files_def first_map_append)
    qed
    show "first_map (tables E (input_files c)) key \<noteq> None" if "?h (set (cp_Source c)) x" 
      using that first_map_not_None [of _ "input_files c" E key] by (auto simp: input_files_def)
    show "first_map (tables E (input_files c)) key \<noteq> None" if "?h (set (cp_Target c)) x" 
      using that first_map_not_None [of _ "input_files c" E key] by (auto simp: input_files_def)
  qed
  have rest: "first_map (tables ?E (concat (map (\<lambda>n. ?v' ! n) ns))) key = first_map (tables E (concat (map (\<lambda>n. ?v ! n) ns))) key"
    if "\<forall>m \<in> set ns. 0 < m \<and> m < MaxLevels \<and> m \<noteq> ?n \<and> m \<noteq> cp_OutputLevel c" for ns
    using untouched_level_lookup [OF assms(1-3)] that by (intro lower_levels_cong) blast
  have upt: "[1..<MaxLevels] = [1..<?n] @ ?n # cp_OutputLevel c # [cp_OutputLevel c + 1..<MaxLevels]"
  proof -
    have "[1..<?n + (MaxLevels - ?n)] = [1..<?n] @ [?n..<?n + (MaxLevels - ?n)]" using n(1) by (intro upt_add_eq_append) simp
    then show ?thesis using p(4,6) by (simp add: upt_conv_Cons)
  qed
  have zero: "0 < MaxLevels" by (simp add: MaxLevels_def)
  have "tables ?E (rev (?v ! 0)) = tables E (rev (?v ! 0))"
  proof (rule tables_cong)
    fix f assume "f \<in> set (rev (?v ! 0))"
    then have "f \<in> set (concat ?v)" using zero len(1) nth_mem by fastforce
    then have "fm_FileNum f \<notin> fm_FileNum ` set added"
      using file_num_below [OF assms(1)] assms(3) unfolding compacted_def by (metis imageE not_le)
    then show "?E (fm_FileNum f) = E (fm_FileNum f)" by (rule with_tables_other)
  qed
  moreover have "?v' ! 0 = ?v ! 0" using assms(3,5) by (simp add: compacted_def)
  moreover have "first_map (tables ?E (concat (map (\<lambda>n. ?v' ! n) [1..<?n]))) key = first_map (tables E (concat (map (\<lambda>n. ?v ! n) [1..<?n]))) key"
    "first_map (tables ?E (concat (map (\<lambda>n. ?v' ! n) [cp_OutputLevel c + 1..<MaxLevels]))) key =
      first_map (tables E (concat (map (\<lambda>n. ?v ! n) [cp_OutputLevel c + 1..<MaxLevels]))) key"
    using p(3,6) by (intro rest; auto)+
  ultimately show ?thesis
    unfolding lookup_levels [OF len(1)] lookup_levels [OF len(2)] upt
    using two by (auto simp: first_map_append split: option.splits)
qed

end
