(* ===== verification/LsmProps.thy ===== *)
theory LsmProps
  imports LsmCompaction
begin

text \<open>
  The properties of the tree: lookups against a plain search of every file, flushes, and the rounds of
  the compaction loop above and below level 0.
\<close>

section \<open>Trees for the examples\<close>

fun flush_tables :: "cenv \<Rightarrow> entry list list \<Rightarrow> LSMTree \<Rightarrow> LSMTree option" where
  "flush_tables env [] l = Some l"
| "flush_tables env (t # ts) l = (case flush_run env t l of (None, l) \<Rightarrow> flush_tables env ts l | (Some e, l) \<Rightarrow> None)"

lemma flush_tables_rep:
  assumes "lsm_rep env l E" "env_good (executor_env (ls_opts l) 0 env)" "f_script (mf_file (ls_manifest l)) = []"
    "\<forall>t \<in> set ts. asc_by CompareKeys t \<and> (\<forall>e \<in> set t. entry_small (ce_blockSize env) e) \<and> weight t + 2 ^ 33 < max_alloc"
    "unat (mf_nextFileNum (ls_manifest l)) + length ts < 2 ^ 64"
  shows "\<exists>l' E'. flush_tables env ts l = Some l' \<and> lsm_rep env l' E' \<and>
    tables E' (ls_version l' ! 0) = tables E (ls_version l ! 0) @ ts \<and>
    (\<forall>n. 0 < n \<longrightarrow> n < MaxLevels \<longrightarrow> set (ls_version l' ! n) = set (ls_version l ! n)) \<and> ls_opts l' = ls_opts l \<and>
    f_script (mf_file (ls_manifest l')) = [] \<and> unat (mf_nextFileNum (ls_manifest l')) = unat (mf_nextFileNum (ls_manifest l)) + length ts"
  using assms
proof (induction ts arbitrary: l E)
  case Nil
  then show ?case by auto
next
  case (Cons t ts)
  let ?num = "mf_nextFileNum (ls_manifest l)" let ?E = "E(?num := t)"
  have t: "asc_by CompareKeys t" "\<forall>e \<in> set t. entry_small (ce_blockSize env) e" "weight t + 2 ^ 33 < max_alloc" "unat ?num + 1 < 2 ^ 64"
    using Cons.prems(4,5) by simp_all
  from flush_run_rep [OF Cons.prems(1,2) t(1-3) Cons.prems(3) t(4)] obtain l1 f where
    l1: "flush_run env t l = (None, l1)" "lsm_rep env l1 ?E" "fm_FileNum f = ?num" "ls_version l1 ! 0 = ls_version l ! 0 @ [f]"
      "\<forall>n. 0 < n \<longrightarrow> n < MaxLevels \<longrightarrow> set (ls_version l1 ! n) = set (ls_version l ! n)" "mf_nextFileNum (ls_manifest l1) = ?num + 1"
      "f_script (mf_file (ls_manifest l1)) = []" "ls_opts l1 = ls_opts l"
    by blast
  have num: "unat (?num + 1) = unat ?num + 1" using t(4) by (simp add: unat_word_ariths)
  have "tables ?E (ls_version l ! 0) = tables E (ls_version l ! 0)"
  proof (rule tables_cong)
    fix g assume "g \<in> set (ls_version l ! 0)"
    moreover have "0 < length (ls_version l)" using Cons.prems(1) by (simp add: lsm_rep_def version_wf_def MaxLevels_def)
    ultimately have "g \<in> set (concat (ls_version l))" using nth_mem by fastforce
    then show "?E (fm_FileNum g) = E (fm_FileNum g)" using file_num_below [OF Cons.prems(1)] by fastforce
  qed
  then have tab: "tables ?E (ls_version l1 ! 0) = tables E (ls_version l ! 0) @ [t]" using l1(3,4) by simp
  have hyps: "env_good (executor_env (ls_opts l1) 0 env)"
    "\<forall>t \<in> set ts. asc_by CompareKeys t \<and> (\<forall>e \<in> set t. entry_small (ce_blockSize env) e) \<and> weight t + 2 ^ 33 < max_alloc"
    "unat (mf_nextFileNum (ls_manifest l1)) + length ts < 2 ^ 64"
    using Cons.prems(2,4,5) l1(6,8) num by simp_all
  from Cons.IH [OF l1(2) hyps(1) l1(7) hyps(2,3)] obtain l' E' where
    "flush_tables env ts l1 = Some l'" "lsm_rep env l' E'" "tables E' (ls_version l' ! 0) = tables ?E (ls_version l1 ! 0) @ ts"
    "\<forall>n. 0 < n \<longrightarrow> n < MaxLevels \<longrightarrow> set (ls_version l' ! n) = set (ls_version l1 ! n)" "ls_opts l' = ls_opts l1"
    "f_script (mf_file (ls_manifest l')) = []" "unat (mf_nextFileNum (ls_manifest l')) = unat (mf_nextFileNum (ls_manifest l1)) + length ts"
    by blast
  then show ?case using l1 tab num by (intro exI [of _ l'] exI [of _ E']) simp
qed

abbreviation tree_opts :: LSMOptions where
  "tree_opts \<equiv> \<lparr>lo_BlockSize = 4096, lo_BloomBitsPerKey = 10, lo_BlockCacheSize = 1000, lo_CompactionRateMB = 0,
     lo_MinActiveSnapshot = None, lo_L0StallTrigger = 12\<rparr>"

abbreviation new_tree :: LSMTree where
  "new_tree \<equiv> \<lparr>ls_store = \<lparr>st_disk = (\<lambda>_. None), st_manifest = fresh_manifest, st_cache = Some (NewBlockCache 1000)\<rparr>,
     ls_readers = (\<lambda>_. None), ls_opts = tree_opts, ls_compactCh = False, ls_stopped = False, ls_stalled = False, ls_stats = new_stats\<rparr>"

lemma NewLSMTree_empty: "NewLSMTree tree_opts (good_file []) (\<lambda>_. None) = Inr new_tree"
  by (simp add: NewLSMTree_def OpenManifest_def replay.simps good_file_def empty_version_def)

lemma new_tree_rep: "lsm_rep sample_env new_tree E"
proof -
  have "cache_fits T (Some (NewBlockCache 1000))" for T by (simp add: cache_fits_def NewBlockCache_coh)
  then show ?thesis
    using version_wf_empty by (intro lsm_repI) (simp_all add: store_ok_def empty_version_def)
qed

lemma tree_env_good: "env_good (executor_env tree_opts i sample_env)"
  using sample_env_good by simp

abbreviation one_entry :: "bytes \<Rightarrow> bytes \<Rightarrow> entry list" where
  "one_entry k v \<equiv> [(k, Some v)]"

abbreviation five_tables :: "entry list list" where
  "five_tables \<equiv> [one_entry [7] [1], one_entry [8] [3], one_entry [9] [3], one_entry [10] [3], one_entry [7] [2]]"

lemma five_flushed:
  "\<exists>l E. flush_tables sample_env five_tables new_tree = Some l \<and> lsm_rep sample_env l E \<and> tables E (ls_version l ! 0) = five_tables \<and>
    (\<forall>n. 0 < n \<longrightarrow> n < MaxLevels \<longrightarrow> ls_version l ! n = []) \<and> ls_opts l = tree_opts \<and>
    f_script (mf_file (ls_manifest l)) = [] \<and> unat (mf_nextFileNum (ls_manifest l)) = 6"
proof -
  have "\<forall>t \<in> set five_tables. asc_by CompareKeys t \<and> (\<forall>e \<in> set t. entry_small (ce_blockSize sample_env) e) \<and> weight t + 2 ^ 33 < max_alloc"
    by (simp add: asc_by_def entry_small_def length_encode_kv vlen_def DefaultBlockSize_def entry_weight_def max_alloc_def)
  from flush_tables_rep [OF new_tree_rep [of "\<lambda>_. []"] _ _ this] tree_env_good [of 0] obtain l E where
    "flush_tables sample_env five_tables new_tree = Some l" "lsm_rep sample_env l E"
    "tables E (ls_version l ! 0) = tables (\<lambda>_. []) (empty_version ! 0) @ five_tables"
    "\<forall>n. 0 < n \<longrightarrow> n < MaxLevels \<longrightarrow> set (ls_version l ! n) = set (empty_version ! n)" "ls_opts l = tree_opts"
    "f_script (mf_file (ls_manifest l)) = []" "unat (mf_nextFileNum (ls_manifest l)) = 1 + 5"
    by (force simp: good_file_def simp del: flush_tables.simps executor_env_simps)
  then show ?thesis
    by (intro exI [of _ l] exI [of _ E]) (simp add: empty_version_def MaxLevels_def del: flush_tables.simps)
qed

lemma pick_level0:
  assumes "length v = MaxLevels" "length (v ! 0) = 5" "\<forall>n. 0 < n \<longrightarrow> n < MaxLevels \<longrightarrow> v ! n = []"
  shows "\<exists>c. PickCompaction (\<lambda>x. x) v = Some c \<and> cp_Level c = 0 \<and> input_files c = v ! 0"
proof -
  have score: "CompactionScore (\<lambda>x. x) 0 (v ! 0) = 5 / 4" "n < 7 \<Longrightarrow> 0 < n \<Longrightarrow> CompactionScore (\<lambda>x. x) n (v ! n) = 0" for n
    using assms(2,3) by (simp_all add: CompactionScore_def L0CompactionTrigger_def MaxLevels_def)
  have "[0..<6] = [0, 1, 2, 3, 4, 5 :: nat]" by (simp add: upt_rec)
  then have "best_level (\<lambda>x. x) v = (0, 5 / 4)"
    using score by (simp add: best_level_def MaxLevels_def Let_def)
  moreover have "v ! Suc 0 = []" using assms(3) by (simp add: MaxLevels_def)
  ultimately show ?thesis by (simp add: PickCompaction_def Let_def input_files_def split: prod.split)
qed

lemma tables_rev: "tables E (rev fs) = rev (tables E fs)"
  by (simp add: tables_def rev_map)

section \<open>Properties\<close>

text \<open>
  C2. The tree's lookup is a plain search.  The reverse scan of level 0, the binary searches of the deeper
  levels, the bloom filters, the block indexes and the block cache together answer exactly as reading
  every file of every level in order would, and leave the tree well formed.
\<close>

theorem lsm_get_linear_search:
  assumes "lsm_rep env l E"
  shows "\<exists>l'. lsm_Get env key l =
      (Inr (first_map (tables E (rev (ls_version l ! 0) @ concat (tl (ls_version l)))) key), l') \<and>
    lsm_rep env l' E \<and> ls_version l' = ls_version l"
  using lsm_Get_rep [OF assms, of key] unfolding lookup_def by blast

theorem lsm_get_linear_search_witness:
  "\<exists>l l'. flush_tables sample_env five_tables new_tree = Some l \<and> lsm_Get sample_env [7] l = (Inr (Some (Some [2])), l')"
proof -
  obtain l E where l: "flush_tables sample_env five_tables new_tree = Some l" "lsm_rep sample_env l E"
    "tables E (ls_version l ! 0) = five_tables"
    using five_flushed by blast
  have "tables E (rev (ls_version l ! 0)) = rev five_tables" unfolding tables_rev l(3) by (rule refl)
  then have "first_map (tables E (rev (ls_version l ! 0) @ concat (tl (ls_version l)))) [7] = Some (Some [2])"
    by (simp add: first_map_append first_map_Cons)
  with lsm_get_linear_search [OF l(2), of "[7]"] l(1) show ?thesis by metis
qed

text \<open>
  C8. Flush.  On a tree that is not stalled a flush writes the memtable, opens it, records it in the
  manifest and signals the compaction; the tree stays well formed, a lookup afterwards finds the flushed
  entry if there is one and otherwise what it found before, and the tree is stalled exactly when level 0
  has reached the trigger.
\<close>

theorem lsm_flush_get:
  assumes "lsm_rep env l E" "\<not> ls_stalled l" "mt_rep mt es" "env_good (executor_env (ls_opts l) 0 env)"
    "\<forall>e \<in> set es. entry_small (ce_blockSize env) e" "weight es + 2 ^ 33 < max_alloc" "f_script (mf_file (ls_manifest l)) = []"
    "unat (mf_nextFileNum (ls_manifest l)) + 1 < 2 ^ 64"
  shows "\<exists>l' E'. lsm_Flush env waited mt l = Some (None, l') \<and> lsm_rep env l' E' \<and> ls_compactCh l' \<and>
    ls_stalled l' = (lo_L0StallTrigger (ls_opts l) \<le> 1 + int (length (ls_version l ! 0))) \<and>
    (\<forall>key. fst (lsm_Get env key l') = (case map_of es key of None \<Rightarrow> fst (lsm_Get env key l) | Some v \<Rightarrow> Inr (Some v)))"
proof -
  define l0 where "l0 = (case waited of None \<Rightarrow> l | Some ms \<Rightarrow> l\<lparr>ls_stats := RecordStall ms (ls_stats l)\<rparr>)"
  have l0: "ls_store l0 = ls_store l" "ls_readers l0 = ls_readers l" "ls_opts l0 = ls_opts l"
    by (simp_all add: l0_def split: option.split)
  then have rep: "lsm_rep env l0 E" using assms(1) by (simp add: lsm_rep_def)
  have "lsm_Flush env waited mt l = Some (flush_run env es l0)"
    using assms(2) mt_entries_rep [OF assms(3)] by (simp add: lsm_Flush_def WaitForStall_def l0_def)
  moreover obtain l' where l': "flush_run env es l0 = (None, l')" "lsm_rep env l' (E(mf_nextFileNum (ls_manifest l) := es))"
    "\<forall>key. lookup (E(mf_nextFileNum (ls_manifest l) := es)) (ls_version l') key =
       (case map_of es key of None \<Rightarrow> lookup E (ls_version l) key | Some v \<Rightarrow> Some v)"
    "length (ls_version l' ! 0) = Suc (length (ls_version l ! 0))" "ls_compactCh l'"
    "ls_stalled l' \<longleftrightarrow> lo_L0StallTrigger (ls_opts l) \<le> int (length (ls_version l' ! 0))"
    using flush_run_rep [OF rep, unfolded l0, OF assms(4) mt_rep_asc [OF assms(3)] assms(5-8)] by auto
  moreover have "fst (lsm_Get env key l') = (case map_of es key of None \<Rightarrow> fst (lsm_Get env key l) | Some v \<Rightarrow> Inr (Some v))" for key
    using lsm_Get_rep [OF l'(2), of key] lsm_Get_rep [OF assms(1), of key] l'(3) by (auto split: option.split)
  ultimately show ?thesis by (intro exI [of _ l'] exI [of _ "E(mf_nextFileNum (ls_manifest l) := es)"]) simp
qed

theorem lsm_flush_get_witness:
  "\<exists>mt l'. mt_Put (\<lambda>_. False) [5] (Some [6]) (NewMemTable 10) = Some (None, mt) \<and>
    lsm_Flush sample_env None mt new_tree = Some (None, l') \<and> fst (lsm_Get sample_env [5] l') = Inr (Some (Some [6]))"
proof -
  obtain mt where mt: "mt_Put (\<lambda>_. False) [5] (Some [6]) (NewMemTable 10) = Some (None, mt)" "mt_rep mt (upd_by CompareKeys [5] (Some [6]) [])"
    using mt_Put_rep [OF NewMemTable_rep, of "\<lambda>_. False" "[5]" "Some [6]" 10] mt_new_room [of 10] by (auto simp: NewMemTable_def)
  have "upd_by CompareKeys [5] (Some [6]) [] = [([5], Some [6 :: byte])]" by simp
  then show ?thesis
    using lsm_flush_get [OF new_tree_rep [of "\<lambda>_. []"] _ mt(2), of None] mt(1) tree_env_good [of 0]
    by (auto simp: entry_small_def length_encode_kv vlen_def DefaultBlockSize_def entry_weight_def max_alloc_def good_file_def
        simp del: executor_env_simps)
qed

text \<open>
  C9. Compacting level 0 brings old values back.  Before a level-0 round a lookup searches the level-0
  files newest first; afterwards, for every key, the tree answers as if it had searched them oldest first.
  The merge is given the files in manifest order, oldest first, and takes a key's value from the first
  of its inputs that has it.
\<close>

theorem level0_compaction_oldest_wins:
  assumes "lsm_rep env l E" "PickCompaction rnd (ls_version l) = Some c" "cp_Level c = 0" "rnd 0 = 0"
    "env_good (executor_env (ls_opts l) i env)" "room l (merge_ref (tables E (input_files c)))"
    "lo_MinActiveSnapshot (ls_opts l) = None"
  shows "\<exists>l'. compact_round rnd i env ms l = Some (True, l') \<and>
    (\<forall>key. fst (lsm_Get env key l) = Inr (first_map (tables E (rev (ls_version l ! 0) @ concat (tl (ls_version l)))) key) \<and>
      fst (lsm_Get env key l') = Inr (first_map (tables E (ls_version l ! 0 @ concat (tl (ls_version l)))) key))"
proof -
  obtain s k where pk: "picked (ls_version l) c s k" using PickCompaction_picked(1) [OF assms(2,4)] by blast
  obtain l' added tss where r: "compact_round rnd i env ms l = Some (True, l')" "compacted env i l E c l' added tss"
    using compact_round_ok [OF assms(1,2,4-6)] by blast
  have rep: "lsm_rep env l' (with_tables E added tss)" using r(2) by (simp add: compacted_def)
  have "fst (lsm_Get env key l) = Inr (first_map (tables E (rev (ls_version l ! 0) @ concat (tl (ls_version l)))) key)" for key
    using lsm_Get_rep [OF assms(1), of key] by (auto simp: lookup_def)
  moreover have "fst (lsm_Get env key l') = Inr (first_map (tables E (ls_version l ! 0 @ concat (tl (ls_version l)))) key)" for key
    using lsm_Get_rep [OF rep, of key] round_level0 [OF assms(1) pk r(2) assms(7,3), of key] by auto
  ultimately show ?thesis using r(1) by blast
qed

lemma five_merged:
  "merge_ref five_tables = [([7], Some [1]), ([8], Some [3]), ([9], Some [3]), ([10], Some [3])]"
  by code_simp

theorem level0_compaction_oldest_wins_witness:
  "\<exists>l l'. flush_tables sample_env five_tables new_tree = Some l \<and> compact_round (\<lambda>x. x) 0 sample_env 0 l = Some (True, l') \<and>
    fst (lsm_Get sample_env [7] l) = Inr (Some (Some [2])) \<and> fst (lsm_Get sample_env [7] l') = Inr (Some (Some [1]))"
proof -
  obtain l E where l: "flush_tables sample_env five_tables new_tree = Some l" "lsm_rep sample_env l E"
    "tables E (ls_version l ! 0) = five_tables" "\<forall>n. 0 < n \<longrightarrow> n < MaxLevels \<longrightarrow> ls_version l ! n = []" "ls_opts l = tree_opts"
    "f_script (mf_file (ls_manifest l)) = []" "unat (mf_nextFileNum (ls_manifest l)) = 6"
    using five_flushed by blast
  have "length (ls_version l) = MaxLevels" "length (ls_version l ! 0) = 5"
    using l(2) arg_cong [OF l(3), of length] by (simp_all add: lsm_rep_def version_wf_def tables_def)
  from pick_level0 [OF this l(4)] obtain c where
    c: "PickCompaction (\<lambda>x. x) (ls_version l) = Some c" "cp_Level c = 0" "input_files c = ls_version l ! 0" by blast
  have rm: "room l (merge_ref (tables E (input_files c)))"
    unfolding c(3) l(3) five_merged using l(6,7)
    by (simp add: room_def entry_weight_def length_encode_kv vlen_def max_alloc_def)
  have good: "env_good (executor_env (ls_opts l) 0 sample_env)" unfolding l(5) by (rule tree_env_good)
  have "lo_MinActiveSnapshot (ls_opts l) = None" using l(5) by simp
  from level0_compaction_oldest_wins [OF l(2) c(1,2) refl good rm this, of 0] obtain l' where
    l': "compact_round (\<lambda>x. x) 0 sample_env 0 l = Some (True, l')"
      "fst (lsm_Get sample_env [7] l) = Inr (first_map (tables E (rev (ls_version l ! 0) @ concat (tl (ls_version l)))) [7])"
      "fst (lsm_Get sample_env [7] l') = Inr (first_map (tables E (ls_version l ! 0 @ concat (tl (ls_version l)))) [7])"
    by blast
  moreover have "first_map (tables E (rev (ls_version l ! 0) @ concat (tl (ls_version l)))) [7] = Some (Some [2])"
    "first_map (tables E (ls_version l ! 0 @ concat (tl (ls_version l)))) [7] = Some (Some [1])"
    unfolding tables_simps tables_rev l(3) by (simp_all add: first_map_append first_map_Cons)
  ultimately show ?thesis using l(1) by metis
qed


abbreviation deep_file :: FileMetadata where
  "deep_file \<equiv> \<lparr>fm_Level = 1, fm_FileNum = 1, fm_FileSize = 20000000, fm_SmallestKey = fst (hd sample_old),
     fm_LargestKey = fst (last sample_old), fm_NumEntries = of_nat (length sample_old)\<rparr>"

abbreviation deep_tree :: "sst_reader \<Rightarrow> LSMTree" where
  "deep_tree r \<equiv> \<lparr>ls_store = sample_store\<lparr>st_manifest := \<lparr>mf_file = good_file [], mf_current = [[], [deep_file], [], [], [], [], []],
       mf_nextFileNum = 3\<rparr>\<rparr>,
     ls_readers = [1 \<mapsto> r], ls_opts = tree_opts, ls_compactCh = True, ls_stopped = False, ls_stalled = False, ls_stats = new_stats\<rparr>"

lemma deep_levels: "l < MaxLevels \<Longrightarrow> [[], [f], [], [], [], [], []] ! l = (if l = 1 then [f] else [])"
  by (simp add: MaxLevels_def nth_Cons' less_Suc_eq)

lemma one_file_wf:
  assumes "length v = 7" "\<And>l. l < MaxLevels \<Longrightarrow> v ! l = (if l = 1 then [f] else [])" "file_wf 1 f"
  shows "version_wf v"
  using assms unfolding version_wf_def by (auto simp: MaxLevels_def)

lemma deep_keys: "CompareKeys (EncodeKey [97] 3) (EncodeKey [98] 4) \<le> 0" "CompareKeys k k \<le> 0"
  by (simp_all add: ck_ord kord_def EncodeKey_def UserKey_def)

lemma deep_tree_rep:
  "\<exists>r. lsm_rep sample_env (deep_tree r) (\<lambda>_. sample_old)"
proof -
  have on: "table_on sample_env (st_disk sample_store) 1 sample_old" by (rule sample_written) simp_all
  then obtain r where r: "OpenReader (the (st_disk sample_store 1)) 1 = Inr r" by (auto simp: table_on_def)
  have wf: "version_wf [[], [deep_file], [], [], [], [], []]"
    by (rule one_file_wf [of _ deep_file]) (simp_all add: deep_levels file_wf_def deep_keys)
  have st: "store_ok sample_env (ls_store (deep_tree r))" using sample_store_ok by (simp add: store_ok_def)
  have ok: "file_ok sample_env (st_disk sample_store) (\<lambda>_. sample_old) deep_file"
    using on deep_keys sample_inputs(2) unfolding sample_merge by (auto simp: file_ok_def holds_key_def ck_ord)
  have "reader_ok (st_disk sample_store) [1 \<mapsto> r] deep_file" using r by (simp add: reader_ok_def)
  with wf st ok show ?thesis
    by (intro exI [of _ r] lsm_repI) (auto simp: deep_levels word_le_nat_alt)
qed

lemma deep_pick:
  "PickCompaction (\<lambda>x. x) [[], [deep_file], [], [], [], [], []] =
     Some \<lparr>cp_Level = 1, cp_Source = [deep_file], cp_Target = [], cp_OutputLevel = 2\<rparr>"
proof -
  have "[0..<6] = [0, 1, 2, 3, 4, 5 :: nat]" by (simp add: upt_rec)
  then have "best_level (\<lambda>x. x) [[], [deep_file], [], [], [], [], []] = (1, CompactionScore (\<lambda>x. x) 1 [deep_file])"
    "1 < CompactionScore (\<lambda>x. x) 1 [deep_file]"
    by (simp_all add: best_level_def MaxLevels_def Let_def CompactionScore_def TargetSize_def BaseLevelSize_def LevelSizeRatio_def)
  then show ?thesis
    by (simp add: PickCompaction_def Let_def GetOverlappingFiles_filter largest_file_def)
qed


end
