(* ===== verification/Raft.thy ===== *)
theory Raft
  imports WalLog
begin

text \<open>
  A node of the consensus protocol (\<^verbatim>\<open>internal/raft/raft.go\<close>) and its log file (\<^verbatim>\<open>internal/raft/wal.go\<close>).

  Every operation takes and returns the node.  \<open>nd_locked\<close> is the node's mutex: an operation acquires it,
  and one that finds it held gives \<open>Inl Blocked\<close>, as does an operation that calls another one that blocks.
  A runtime error of Go (an index out of range) is \<open>Inl Panic\<close>.  A goroutine that the code starts is
  returned as a value, and the part of it after a remote call is an operation of its own.  The entries
  sent to \<^verbatim>\<open>applyCh\<close> are kept in order; the receiver is outside the package, and a send waits for it.
\<close>

section \<open>Data\<close>

datatype State = Follower | Candidate | Leader

record Config =
  cfg_ID :: string
  cfg_Peers :: "string list"
  cfg_ElectionMin :: int
  cfg_ElectionMax :: int
  cfg_HeartbeatTime :: int
  cfg_LeaseDuration :: int

record LogEntry =
  le_Term :: u64
  le_Index :: u64
  le_Data :: bytes

record RaftNode =
  nd_locked :: bool
  nd_id :: string
  nd_peers :: "string list"
  nd_state :: State
  nd_currentTerm :: u64
  nd_votedFor :: string
  nd_leaseTimeout :: int
  nd_commitIndex :: u64
  nd_lastApplied :: u64
  nd_applyCh :: "LogEntry list"
  nd_electionTimer :: "int option"
  nd_heartbeatTimer :: "int option"
  nd_wal :: wal_writer
  nd_log :: "LogEntry list"
  nd_nextIndex :: "string \<rightharpoonup> u64"
  nd_matchIndex :: "string \<rightharpoonup> u64"

record RequestVoteRequest =
  rv_Term :: u64
  rv_CandidateId :: string
  rv_LastLogIndex :: u64
  rv_LastLogTerm :: u64

record RequestVoteResponse =
  rvr_Term :: u64
  rvr_VoteGranted :: bool

record AppendEntriesRequest =
  ae_Term :: u64
  ae_LeaderId :: string
  ae_PrevLogIndex :: u64
  ae_PrevLogTerm :: u64
  ae_Entries :: "LogEntry list"
  ae_LeaderCommit :: u64

record AppendEntriesResponse =
  aer_Term :: u64
  aer_Success :: bool

datatype raft_fault = Blocked | Panic | ErrOpenWAL

text \<open>A read of a Go map: a missing key reads as zero.\<close>

definition map_get :: "(string \<rightharpoonup> u64) \<Rightarrow> string \<Rightarrow> u64" where
  "map_get m k = (case m k of None \<Rightarrow> 0 | Some x \<Rightarrow> x)"

definition lock :: "RaftNode \<Rightarrow> RaftNode option" where
  "lock n = (if nd_locked n then None else Some (n\<lparr>nd_locked := True\<rparr>))"

definition unlock :: "RaftNode \<Rightarrow> RaftNode" where
  "unlock n = n\<lparr>nd_locked := False\<rparr>"

section \<open>The log file\<close>

datatype raft_wal_error = ErrMarshal | ErrWal wal_error

definition OpenWAL :: "osfile option \<Rightarrow> wal_writer option" where
  "OpenWAL f = map_option NewWriter f"

definition SaveState :: "u64 \<Rightarrow> string \<Rightarrow> wal_writer \<Rightarrow> raft_wal_error option \<times> wal_writer" where
  "SaveState term votedFor w = (None, w)"

definition rw_Sync :: "wal_writer \<Rightarrow> raft_wal_error option \<times> wal_writer" where
  "rw_Sync w = (None, w)"

text \<open>\<open>marshal\<close> is \<^verbatim>\<open>proto.Marshal\<close>.\<close>

fun rw_AppendEntries :: "(LogEntry \<Rightarrow> bytes option) \<Rightarrow> LogEntry list \<Rightarrow> wal_writer \<Rightarrow> raft_wal_error option \<times> wal_writer" where
  "rw_AppendEntries marshal [] w = rw_Sync w"
| "rw_AppendEntries marshal (e # es) w =
     (case marshal e of
        None \<Rightarrow> (Some ErrMarshal, w)
      | Some data \<Rightarrow>
          (case wal_Append w (1 # data) of
             (Some err, w) \<Rightarrow> (Some (ErrWal err), w)
           | (None, w) \<Rightarrow> rw_AppendEntries marshal es w))"

section \<open>Timers\<close>

text \<open>\<open>r\<close> is the number the random generator gives.\<close>

definition randomDuration :: "int \<Rightarrow> int \<Rightarrow> int \<Rightarrow> int option" where
  "randomDuration lo hi r = (if hi \<le> lo then None else Some (lo + r mod (hi - lo)))"

definition resetElectionTimer :: "Config \<Rightarrow> int \<Rightarrow> RaftNode \<Rightarrow> (raft_fault + unit) \<times> RaftNode" where
  "resetElectionTimer cfg r n =
     (case randomDuration (cfg_ElectionMin cfg) (cfg_ElectionMax cfg) r of
        None \<Rightarrow> (Inl Panic, n\<lparr>nd_electionTimer := None\<rparr>)
      | Some d \<Rightarrow> (Inr (), n\<lparr>nd_electionTimer := Some d\<rparr>))"

definition NewNode :: "Config \<Rightarrow> osfile option \<Rightarrow> int \<Rightarrow> raft_fault + RaftNode" where
  "NewNode cfg f r =
     (case OpenWAL f of
        None \<Rightarrow> Inl ErrOpenWAL
      | Some w \<Rightarrow>
          (case randomDuration (cfg_ElectionMin cfg) (cfg_ElectionMax cfg) r of
             None \<Rightarrow> Inl Panic
           | Some d \<Rightarrow>
               Inr \<lparr>nd_locked = False, nd_id = cfg_ID cfg, nd_peers = cfg_Peers cfg, nd_state = Follower, nd_currentTerm = 0,
                    nd_votedFor = [], nd_leaseTimeout = 0, nd_commitIndex = 0, nd_lastApplied = 0, nd_applyCh = [],
                    nd_electionTimer = Some d, nd_heartbeatTimer = None, nd_wal = w,
                    nd_log = [\<lparr>le_Term = 0, le_Index = 0, le_Data = []\<rparr>], nd_nextIndex = Map.empty, nd_matchIndex = Map.empty\<rparr>))"

section \<open>Elections\<close>

definition stepDown :: "u64 \<Rightarrow> RaftNode \<Rightarrow> RaftNode" where
  "stepDown term n =
     n\<lparr>nd_currentTerm := term, nd_state := Follower, nd_votedFor := [], nd_wal := snd (SaveState term [] (nd_wal n)),
       nd_heartbeatTimer := None\<rparr>"

text \<open>The index and the term of the last entry; reading the term panics on an empty log.\<close>

definition last_log :: "RaftNode \<Rightarrow> (u64 \<times> u64) option" where
  "last_log n = (if nd_log n = [] then None else Some (of_nat (length (nd_log n) - 1), le_Term (last (nd_log n))))"

text \<open>Starting an election: the request and the peers a goroutine each sends it to.\<close>

definition startElection :: "Config \<Rightarrow> int \<Rightarrow> RaftNode \<Rightarrow> (raft_fault + RequestVoteRequest \<times> string list) \<times> RaftNode" where
  "startElection cfg r n =
     (case lock n of
        None \<Rightarrow> (Inl Blocked, n)
      | Some n \<Rightarrow>
          let term = nd_currentTerm n + 1;
              n = n\<lparr>nd_state := Candidate, nd_currentTerm := term, nd_votedFor := nd_id n,
                    nd_wal := snd (SaveState term (nd_id n) (nd_wal n))\<rparr> in
          case last_log n of
            None \<Rightarrow> (Inl Panic, n)
          | Some (lastLogIdx, lastLogTerm) \<Rightarrow>
              let req = \<lparr>rv_Term = term, rv_CandidateId = nd_id n, rv_LastLogIndex = lastLogIdx, rv_LastLogTerm = lastLogTerm\<rparr> in
              (case resetElectionTimer cfg r (unlock n) of
                 (Inl e, n) \<Rightarrow> (Inl e, n)
               | (Inr _, n) \<Rightarrow> (Inr (req, filter (\<lambda>peer. peer \<noteq> nd_id n) (cfg_Peers cfg)), n)))"

section \<open>Heartbeats\<close>

text \<open>A heartbeat round: the peers a goroutine is started for, and the term.\<close>

definition sendHeartbeats :: "Config \<Rightarrow> RaftNode \<Rightarrow> (raft_fault + u64 \<times> string list) \<times> RaftNode" where
  "sendHeartbeats cfg n =
     (case lock n of
        None \<Rightarrow> (Inl Blocked, n)
      | Some n \<Rightarrow>
          if nd_state n \<noteq> Leader then (Inr (nd_currentTerm n, []), unlock n)
          else (Inr (nd_currentTerm n, filter (\<lambda>peer. peer \<noteq> nd_id n) (cfg_Peers cfg)),
                (unlock n)\<lparr>nd_heartbeatTimer := Some (cfg_HeartbeatTime cfg)\<rparr>))"

text \<open>The goroutine's request for the peer \<open>p\<close>, built under the read lock.\<close>

definition beat_request :: "string \<Rightarrow> u64 \<Rightarrow> RaftNode \<Rightarrow> raft_fault + AppendEntriesRequest" where
  "beat_request p term n =
     (if nd_locked n then Inl Blocked
      else let nextIdx = map_get (nd_nextIndex n) p; prevLogIdx = nextIdx - 1 in
        if length (nd_log n) \<le> unat prevLogIdx then Inl Panic
        else Inr \<lparr>ae_Term = term, ae_LeaderId = nd_id n, ae_PrevLogIndex = prevLogIdx,
                  ae_PrevLogTerm = le_Term (nd_log n ! unat prevLogIdx), ae_Entries = drop (unat nextIdx) (nd_log n),
                  ae_LeaderCommit = nd_commitIndex n\<rparr>)"

definition becomeLeader :: "Config \<Rightarrow> RaftNode \<Rightarrow> (raft_fault + u64 \<times> string list) \<times> RaftNode" where
  "becomeLeader cfg n =
     sendHeartbeats cfg
       (n\<lparr>nd_state := Leader,
          nd_nextIndex := fold (\<lambda>p m. m(p \<mapsto> of_nat (length (nd_log n)))) (nd_peers n) (nd_nextIndex n),
          nd_matchIndex := fold (\<lambda>p m. m(p \<mapsto> 0)) (nd_peers n) (nd_matchIndex n),
          nd_electionTimer := None, nd_heartbeatTimer := Some (cfg_HeartbeatTime cfg)\<rparr>)"

text \<open>
  The goroutine of an election after the call: the answer, the election's vote counter, the heartbeats it
  started.  The counter's own mutex is only taken under the node's.
\<close>

definition handle_vote :: "Config \<Rightarrow> u64 \<Rightarrow> RequestVoteResponse \<Rightarrow> int \<Rightarrow> RaftNode \<Rightarrow>
    (raft_fault + u64 \<times> string list) \<times> int \<times> RaftNode" where
  "handle_vote cfg term resp votes n =
     (case lock n of
        None \<Rightarrow> (Inl Blocked, votes, n)
      | Some n \<Rightarrow>
          if nd_state n \<noteq> Candidate \<or> nd_currentTerm n \<noteq> term then (Inr (term, []), votes, unlock n)
          else if nd_currentTerm n < rvr_Term resp then (Inr (term, []), votes, unlock (stepDown (rvr_Term resp) n))
          else if rvr_VoteGranted resp then
            let votes = votes + 1 in
            if (int (length (cfg_Peers cfg)) + 1) div 2 < votes then
              (case becomeLeader cfg n of
                 (Inl e, n) \<Rightarrow> (Inl e, votes, n)
               | (Inr beats, n) \<Rightarrow> (Inr beats, votes, unlock n))
            else (Inr (term, []), votes, unlock n)
          else (Inr (term, []), votes, unlock n))"

definition RequestVote :: "RequestVoteRequest \<Rightarrow> RaftNode \<Rightarrow> (raft_fault + RequestVoteResponse) \<times> RaftNode" where
  "RequestVote req n =
     (case lock n of
        None \<Rightarrow> (Inl Blocked, n)
      | Some n \<Rightarrow>
          let n = (if nd_currentTerm n < rv_Term req then stepDown (rv_Term req) n else n);
              resp = \<lparr>rvr_Term = nd_currentTerm n, rvr_VoteGranted = False\<rparr> in
          if rv_Term req = nd_currentTerm n \<and> (nd_votedFor n = [] \<or> nd_votedFor n = rv_CandidateId req) then
            (case last_log n of
               None \<Rightarrow> (Inl Panic, n)
             | Some (lastLogIdx, lastLogTerm) \<Rightarrow>
                 if lastLogTerm < rv_LastLogTerm req \<or> rv_LastLogTerm req = lastLogTerm \<and> lastLogIdx \<le> rv_LastLogIndex req then
                   (Inr (resp\<lparr>rvr_VoteGranted := True\<rparr>),
                    unlock (n\<lparr>nd_votedFor := rv_CandidateId req,
                              nd_wal := snd (SaveState (nd_currentTerm n) (rv_CandidateId req) (nd_wal n))\<rparr>))
                 else (Inr resp, unlock n))
          else (Inr resp, unlock n))"

section \<open>Replication\<close>

lemma unat_succ: "a < b \<Longrightarrow> unat (a + 1) = Suc (unat a)" for a b :: "'a :: len word"
proof -
  assume "a < b"
  then have "unat a + 1 < 2 ^ LENGTH('a)" using le_less_trans [OF _ unsigned_less [of b], of "unat a + 1"] by (simp add: word_less_nat_alt)
  then show ?thesis by (simp add: unat_word_ariths)
qed

function applyLog :: "RaftNode \<Rightarrow> (raft_fault + unit) \<times> RaftNode" where
  "applyLog n =
     (if nd_lastApplied n < nd_commitIndex n then
        let i = nd_lastApplied n + 1; n1 = n\<lparr>nd_lastApplied := i\<rparr> in
        if length (nd_log n) \<le> unat i then (Inl Panic, n1)
        else applyLog (n1\<lparr>nd_applyCh := nd_applyCh n @ [nd_log n ! unat i]\<rparr>)
      else (Inr (), n))"
  by pat_completeness auto
termination
  by (relation "measure (\<lambda>n. unat (nd_commitIndex n) - unat (nd_lastApplied n))") (auto simp: unat_succ word_less_nat_alt)

declare applyLog.simps [simp del]

definition AppendEntries :: "(LogEntry \<Rightarrow> bytes option) \<Rightarrow> AppendEntriesRequest \<Rightarrow> RaftNode \<Rightarrow>
    (raft_fault + AppendEntriesResponse) \<times> RaftNode" where
  "AppendEntries marshal req n =
     (case lock n of
        None \<Rightarrow> (Inl Blocked, n)
      | Some n \<Rightarrow>
          let n = (if nd_currentTerm n < ae_Term req then stepDown (ae_Term req) n else n);
              resp = \<lparr>aer_Term = nd_currentTerm n, aer_Success = False\<rparr> in
          if ae_Term req < nd_currentTerm n then (Inr resp, unlock n)
          else
            let n = n\<lparr>nd_state := Follower\<rparr> in
            if length (nd_log n) \<le> unat (ae_PrevLogIndex req) \<or>
               le_Term (nd_log n ! unat (ae_PrevLogIndex req)) \<noteq> ae_PrevLogTerm req then (Inr resp, unlock n)
            else
              let n = n\<lparr>nd_log := take (Suc (unat (ae_PrevLogIndex req))) (nd_log n) @ ae_Entries req,
                        nd_wal := snd (rw_AppendEntries marshal (ae_Entries req) (nd_wal n))\<rparr> in
              if nd_commitIndex n < ae_LeaderCommit req then
                let lastIdx = of_nat (length (nd_log n) - 1);
                    n = n\<lparr>nd_commitIndex := (if ae_LeaderCommit req < lastIdx then ae_LeaderCommit req else lastIdx)\<rparr> in
                (case applyLog n of
                   (Inl e, n) \<Rightarrow> (Inl e, n)
                 | (Inr _, n) \<Rightarrow> (Inr (resp\<lparr>aer_Success := True\<rparr>), unlock n))
              else (Inr (resp\<lparr>aer_Success := True\<rparr>), unlock n))"

text \<open>The nodes known to hold entry \<open>i\<close>, the leader included.\<close>

definition replicas :: "int \<Rightarrow> RaftNode \<Rightarrow> int" where
  "replicas i n = 1 + int (length (filter (\<lambda>p. p \<noteq> nd_id n \<and> of_int i \<le> map_get (nd_matchIndex n) p) (nd_peers n)))"

text \<open>
  The loop over the indexes, from \<open>i\<close> down to the commit index, read as a signed number.  Reading the
  entry panics out of range; it is only read once enough nodes hold it.
\<close>

function advance_loop :: "int \<Rightarrow> RaftNode \<Rightarrow> (raft_fault + unit) \<times> RaftNode" where
  "advance_loop i n =
     (if i \<le> sint (nd_commitIndex n) then (Inr (), n)
      else if (int (length (nd_peers n)) + 1) div 2 < replicas i n then
        if i < 0 \<or> int (length (nd_log n)) \<le> i then (Inl Panic, n)
        else if le_Term (nd_log n ! nat i) = nd_currentTerm n then applyLog (n\<lparr>nd_commitIndex := of_int i\<rparr>)
        else advance_loop (i - 1) n
      else advance_loop (i - 1) n)"
  by pat_completeness auto
termination
  by (relation "measure (\<lambda>(i, n). nat (i - sint (nd_commitIndex n)))") auto

declare advance_loop.simps [simp del]

definition advanceCommitIndex :: "RaftNode \<Rightarrow> (raft_fault + unit) \<times> RaftNode" where
  "advanceCommitIndex n = advance_loop (int (length (nd_log n)) - 1) n"

text \<open>
  The goroutine of a heartbeat after the call: first it counts the answer and may extend the lease,
  then it handles the answer.  \<open>now\<close> is the wall clock.
\<close>

definition extend_lease :: "Config \<Rightarrow> int \<Rightarrow> int \<Rightarrow> RaftNode \<Rightarrow> (raft_fault + int) \<times> RaftNode" where
  "extend_lease cfg now successCount n =
     (let successCount = successCount + 1 in
      if (int (length (cfg_Peers cfg)) + 1) div 2 < successCount then
        (case lock n of
           None \<Rightarrow> (Inl Blocked, n)
         | Some n \<Rightarrow> (Inr successCount, unlock (n\<lparr>nd_leaseTimeout := now + cfg_LeaseDuration cfg\<rparr>)))
      else (Inr successCount, n))"

definition handle_beat :: "Config \<Rightarrow> int \<Rightarrow> string \<Rightarrow> AppendEntriesRequest \<Rightarrow> AppendEntriesResponse \<Rightarrow> RaftNode \<Rightarrow>
    (raft_fault + unit) \<times> RaftNode" where
  "handle_beat cfg r p req resp n =
     (case lock n of
        None \<Rightarrow> (Inl Blocked, n)
      | Some n \<Rightarrow>
          if nd_state n \<noteq> Leader \<or> nd_currentTerm n \<noteq> ae_Term req then (Inr (), unlock n)
          else if nd_currentTerm n < aer_Term resp then
            (case resetElectionTimer cfg r (stepDown (aer_Term resp) n) of
               (Inl e, n) \<Rightarrow> (Inl e, n)
             | (Inr _, n) \<Rightarrow> (Inr (), unlock n))
          else if aer_Success resp then
            let match = ae_PrevLogIndex req + of_nat (length (ae_Entries req)) in
            (case advanceCommitIndex (n\<lparr>nd_matchIndex := (nd_matchIndex n)(p \<mapsto> match), nd_nextIndex := (nd_nextIndex n)(p \<mapsto> match + 1)\<rparr>) of
               (Inl e, n) \<Rightarrow> (Inl e, n)
             | (Inr _, n) \<Rightarrow> (Inr (), unlock n))
          else if 1 < map_get (nd_nextIndex n) p then
            (Inr (), unlock (n\<lparr>nd_nextIndex := (nd_nextIndex n)(p \<mapsto> map_get (nd_nextIndex n) p - 1)\<rparr>))
          else (Inr (), unlock n))"

end
