(* ===== verification/RaftCluster.thy ===== *)
theory RaftCluster
  imports Raft "HOL-Library.Multiset"
begin

text \<open>
  A cluster of nodes and the goroutines they have started, as a step relation: timers fire, requests are
  handled, answers come back, calls are lost and, where that is allowed, nodes restart.  The invariants of
  elections and of the leader's lock are proved over all runs.
\<close>

section \<open>Steps\<close>

text \<open>
  The goroutines in flight: an election call before and after it is handled, and a heartbeat before
  its request is built, before and after the request is handled.  The first two arguments are the node that
  runs the goroutine and the peer it calls.
\<close>

datatype task =
    VoteCall string string RequestVoteRequest
  | VoteReply string string u64 RequestVoteResponse
  | Beat string string u64 nat
  | BeatCall string string nat AppendEntriesRequest
  | BeatReply string string nat AppendEntriesRequest AppendEntriesResponse

fun task_owner :: "task \<Rightarrow> string" where
  "task_owner (VoteCall c p req) = c"
| "task_owner (VoteReply c p t resp) = c"
| "task_owner (Beat c p t i) = c"
| "task_owner (BeatCall c p i req) = c"
| "task_owner (BeatReply c p i req resp) = c"

text \<open>The counters are those the goroutines share: the votes of an election, the answers of a heartbeat round.\<close>

record Cluster =
  cl_nodes :: "string \<Rightarrow> RaftNode"
  cl_tasks :: "task multiset"
  cl_votes :: "string \<Rightarrow> u64 \<Rightarrow> int"
  cl_beats :: "nat \<Rightarrow> int"
  cl_rounds :: nat

abbreviation beats_of :: "string \<Rightarrow> nat \<Rightarrow> u64 \<times> string list \<Rightarrow> task multiset" where
  "beats_of c i b \<equiv> mset (map (\<lambda>p. Beat c p (fst b) i) (snd b))"

inductive rstep :: "(LogEntry \<Rightarrow> bytes option) \<Rightarrow> (string \<Rightarrow> Config) \<Rightarrow> string set \<Rightarrow> bool \<Rightarrow> Cluster \<Rightarrow> Cluster \<Rightarrow> bool"
  for marshal cfgs ids restarts where
  election:
    "c \<in> ids \<Longrightarrow> nd_electionTimer (cl_nodes s c) \<noteq> None \<Longrightarrow> startElection (cfgs c) r (cl_nodes s c) = (Inr (req, ps), n) \<Longrightarrow>
     rstep marshal cfgs ids restarts s
       (s\<lparr>cl_nodes := (cl_nodes s)(c := n), cl_tasks := cl_tasks s + mset (map (\<lambda>p. VoteCall c p req) ps),
          cl_votes := (cl_votes s)(c := (cl_votes s c)(rv_Term req := 1))\<rparr>)"
| vote_handled:
    "VoteCall c p req \<in># cl_tasks s \<Longrightarrow> p \<in> ids \<Longrightarrow> RequestVote req (cl_nodes s p) = (Inr resp, n) \<Longrightarrow>
     rstep marshal cfgs ids restarts s
       (s\<lparr>cl_nodes := (cl_nodes s)(p := n),
          cl_tasks := cl_tasks s - {# VoteCall c p req #} + {# VoteReply c p (rv_Term req) resp #}\<rparr>)"
| vote_returned:
    "VoteReply c p t resp \<in># cl_tasks s \<Longrightarrow> \<not> nd_locked (cl_nodes s c) \<Longrightarrow>
     handle_vote (cfgs c) t resp (cl_votes s c t) (cl_nodes s c) = (res, v, n) \<Longrightarrow>
     rstep marshal cfgs ids restarts s
       (s\<lparr>cl_nodes := (cl_nodes s)(c := n), cl_votes := (cl_votes s)(c := (cl_votes s c)(t := v)),
          cl_tasks := cl_tasks s - {# VoteReply c p t resp #} + (case res of Inl e \<Rightarrow> {#} | Inr b \<Rightarrow> beats_of c (cl_rounds s) b),
          cl_beats := (cl_beats s)(cl_rounds s := 1), cl_rounds := Suc (cl_rounds s)\<rparr>)"
| heartbeat:
    "c \<in> ids \<Longrightarrow> nd_heartbeatTimer (cl_nodes s c) \<noteq> None \<Longrightarrow> sendHeartbeats (cfgs c) (cl_nodes s c) = (Inr b, n) \<Longrightarrow>
     rstep marshal cfgs ids restarts s
       (s\<lparr>cl_nodes := (cl_nodes s)(c := n), cl_tasks := cl_tasks s + beats_of c (cl_rounds s) b,
          cl_beats := (cl_beats s)(cl_rounds s := 1), cl_rounds := Suc (cl_rounds s)\<rparr>)"
| beat_sent:
    "Beat c p t i \<in># cl_tasks s \<Longrightarrow> beat_request p t (cl_nodes s c) = Inr req \<Longrightarrow>
     rstep marshal cfgs ids restarts s (s\<lparr>cl_tasks := cl_tasks s - {# Beat c p t i #} + {# BeatCall c p i req #}\<rparr>)"
| beat_handled:
    "BeatCall c p i req \<in># cl_tasks s \<Longrightarrow> p \<in> ids \<Longrightarrow> AppendEntries marshal req (cl_nodes s p) = (Inr resp, n) \<Longrightarrow>
     rstep marshal cfgs ids restarts s
       (s\<lparr>cl_nodes := (cl_nodes s)(p := n), cl_tasks := cl_tasks s - {# BeatCall c p i req #} + {# BeatReply c p i req resp #}\<rparr>)"
| beat_returned:
    "BeatReply c p i req resp \<in># cl_tasks s \<Longrightarrow> extend_lease (cfgs c) now (cl_beats s i) (cl_nodes s c) = (Inr v, n1) \<Longrightarrow>
     handle_beat (cfgs c) r p req resp n1 = (Inr u, n) \<Longrightarrow>
     rstep marshal cfgs ids restarts s
       (s\<lparr>cl_nodes := (cl_nodes s)(c := n), cl_tasks := cl_tasks s - {# BeatReply c p i req resp #}, cl_beats := (cl_beats s)(i := v)\<rparr>)"
| lost:
    "x \<in># cl_tasks s \<Longrightarrow> rstep marshal cfgs ids restarts s (s\<lparr>cl_tasks := cl_tasks s - {# x #}\<rparr>)"
| restart:
    "restarts \<Longrightarrow> c \<in> ids \<Longrightarrow> NewNode (cfgs c) (Some (w_file (nd_wal (cl_nodes s c)))) r = Inr n \<Longrightarrow>
     rstep marshal cfgs ids restarts s
       (s\<lparr>cl_nodes := (cl_nodes s)(c := n), cl_tasks := filter_mset (\<lambda>x. task_owner x \<noteq> c) (cl_tasks s)\<rparr>)"

text \<open>The states reached in \<open>k\<close> steps from freshly started nodes.\<close>

inductive rrun :: "(LogEntry \<Rightarrow> bytes option) \<Rightarrow> (string \<Rightarrow> Config) \<Rightarrow> string set \<Rightarrow> bool \<Rightarrow> nat \<Rightarrow> Cluster \<Rightarrow> bool"
  for marshal cfgs ids restarts where
  fresh: "\<forall>c \<in> ids. \<exists>f r. NewNode (cfgs c) (Some f) r = Inr (cl_nodes s c) \<Longrightarrow> cl_tasks s = {#} \<Longrightarrow> rrun marshal cfgs ids restarts 0 s"
| step: "rrun marshal cfgs ids restarts k s \<Longrightarrow> rstep marshal cfgs ids restarts s s' \<Longrightarrow> rrun marshal cfgs ids restarts (Suc k) s'"

section \<open>Single operations\<close>

lemmas raft_lock = lock_def unlock_def

lemma NewNode_Inr:
  assumes "NewNode cfg f r = Inr n"
  shows "\<not> nd_locked n" "nd_id n = cfg_ID cfg" "nd_state n = Follower" "nd_currentTerm n = 0" "nd_votedFor n = []"
    "nd_commitIndex n = 0" "nd_lastApplied n = 0" "nd_applyCh n = []" "nd_log n = [\<lparr>le_Term = 0, le_Index = 0, le_Data = []\<rparr>]"
  using assms by (auto simp: NewNode_def split: option.splits)

lemma startElection_Inr:
  assumes "startElection cfg r n = (Inr (req, ps), n')"
  shows "\<not> nd_locked n" "\<not> nd_locked n'" "nd_id n' = nd_id n" "nd_state n' = Candidate" "nd_currentTerm n' = nd_currentTerm n + 1" "nd_votedFor n' = nd_id n"
    "rv_Term req = nd_currentTerm n + 1" "rv_CandidateId req = nd_id n" "ps = filter (\<lambda>p. p \<noteq> nd_id n) (cfg_Peers cfg)"
    "nd_log n' = nd_log n" "nd_commitIndex n' = nd_commitIndex n" "nd_applyCh n' = nd_applyCh n" "nd_lastApplied n' = nd_lastApplied n"
  using assms by (auto simp: startElection_def raft_lock last_log_def resetElectionTimer_def Let_def split: if_splits option.splits)

text \<open>A step of a node that casts no vote: it stays in its term, or enters a later one as a follower.\<close>

definition quiet :: "RaftNode \<Rightarrow> RaftNode \<Rightarrow> bool" where
  "quiet n n' \<longleftrightarrow> nd_id n' = nd_id n \<and>
     (nd_currentTerm n' = nd_currentTerm n \<and> nd_votedFor n' = nd_votedFor n \<and> nd_state n' \<in> {nd_state n, Follower} \<or>
      nd_currentTerm n < nd_currentTerm n' \<and> nd_votedFor n' = [] \<and> nd_state n' = Follower)"

lemma applyLog_node:
  "snd (applyLog n) = n\<lparr>nd_lastApplied := nd_lastApplied (snd (applyLog n)), nd_applyCh := nd_applyCh (snd (applyLog n))\<rparr>"
proof (induction n rule: applyLog.induct)
  case (1 n)
  show ?case
  proof (cases "nd_lastApplied n < nd_commitIndex n \<and> unat (nd_lastApplied n + 1) < length (nd_log n)")
    case True
    then show ?thesis using 1 [OF _ refl refl] by (subst (1 2 3) applyLog.simps) (simp add: Let_def)
  next
    case False
    then show ?thesis by (subst (1 2 3) applyLog.simps) (auto simp: Let_def)
  qed
qed

lemma quiet_refl: "quiet n n" by (simp add: quiet_def)

lemma applyLog_fields [simp]:
  "nd_id (snd (applyLog n)) = nd_id n" "nd_currentTerm (snd (applyLog n)) = nd_currentTerm n"
  "nd_votedFor (snd (applyLog n)) = nd_votedFor n" "nd_state (snd (applyLog n)) = nd_state n"
  by (subst applyLog_node, simp)+

lemma applyLog_quiet: "quiet n (snd (applyLog n))"
  by (simp add: quiet_def)

lemma advance_loop_fields [simp]:
  "nd_id (snd (advance_loop i n)) = nd_id n \<and> nd_currentTerm (snd (advance_loop i n)) = nd_currentTerm n \<and>
   nd_votedFor (snd (advance_loop i n)) = nd_votedFor n \<and> nd_state (snd (advance_loop i n)) = nd_state n"
proof (induction i n rule: advance_loop.induct)
  case (1 i n)
  then show ?case by (simp add: advance_loop.simps [of i n])
qed

lemma stepDown_quiet: "nd_currentTerm n < t \<Longrightarrow> quiet n (stepDown t n)"
  by (simp add: quiet_def stepDown_def)

lemma stepDown_fields [simp]:
  "nd_id (stepDown t n) = nd_id n" "nd_currentTerm (stepDown t n) = t" "nd_votedFor (stepDown t n) = []" "nd_state (stepDown t n) = Follower"
  "nd_log (stepDown t n) = nd_log n" "nd_commitIndex (stepDown t n) = nd_commitIndex n" "nd_locked (stepDown t n) = nd_locked n"
  "nd_lastApplied (stepDown t n) = nd_lastApplied n" "nd_applyCh (stepDown t n) = nd_applyCh n"
  by (simp_all add: stepDown_def)

lemma RequestVote_Inr:
  assumes "RequestVote req n = (Inr resp, n')"
  shows "\<not> nd_locked n" "\<not> nd_locked n'" "nd_id n' = nd_id n" "nd_currentTerm n' = max (nd_currentTerm n) (rv_Term req)"
    "rvr_Term resp = nd_currentTerm n'" "\<not> rvr_VoteGranted resp \<Longrightarrow> quiet n n'"
    "rvr_VoteGranted resp \<Longrightarrow> rv_Term req = nd_currentTerm n' \<and> nd_votedFor n' = rv_CandidateId req \<and>
       (nd_currentTerm n < rv_Term req \<or> nd_votedFor n = [] \<or> nd_votedFor n = rv_CandidateId req)"
    "nd_state n' = (if nd_currentTerm n < rv_Term req then Follower else nd_state n)"
    "nd_log n' = nd_log n" "nd_commitIndex n' = nd_commitIndex n" "nd_applyCh n' = nd_applyCh n" "nd_lastApplied n' = nd_lastApplied n"
  using assms by (auto simp: RequestVote_def raft_lock last_log_def Let_def quiet_def max_def not_less split: if_splits option.splits)

lemma AppendEntries_Inr:
  assumes "AppendEntries marshal req n = (Inr resp, n')"
  shows "quiet n n'" "nd_currentTerm n' = max (nd_currentTerm n) (ae_Term req)" "aer_Term resp = nd_currentTerm n'"
proof -
  have app: "applyLog m = (x, m') \<Longrightarrow> nd_id m' = nd_id m \<and> nd_currentTerm m' = nd_currentTerm m \<and> nd_votedFor m' = nd_votedFor m \<and> nd_state m' = nd_state m"
    for m x m' using applyLog_fields [of m] by simp
  show "quiet n n'" "nd_currentTerm n' = max (nd_currentTerm n) (ae_Term req)" "aer_Term resp = nd_currentTerm n'"
    using assms by (auto simp: AppendEntries_def raft_lock Let_def quiet_def max_def not_less split: if_splits option.splits prod.splits sum.splits dest!: app)
qed

lemma extend_lease_quiet: "extend_lease cfg now v n = (res, n') \<Longrightarrow> quiet n n' \<and> nd_currentTerm n' = nd_currentTerm n"
  by (auto simp: extend_lease_def raft_lock Let_def quiet_def split: if_splits option.splits)

lemma handle_beat_quiet:
  assumes "handle_beat cfg r p req resp n = (res, n')"
  shows "quiet n n'" "nd_currentTerm n' = nd_currentTerm n \<or> nd_currentTerm n' = aer_Term resp"
proof -
  have adv: "advanceCommitIndex m = (x, m') \<Longrightarrow> nd_id m' = nd_id m \<and> nd_currentTerm m' = nd_currentTerm m \<and>
     nd_votedFor m' = nd_votedFor m \<and> nd_state m' = nd_state m" for m x m'
    using advance_loop_fields [of "int (length (nd_log m)) - 1" m] by (simp add: advanceCommitIndex_def)
  have reset: "resetElectionTimer cfg r m = (x, m') \<Longrightarrow> nd_id m' = nd_id m \<and> nd_currentTerm m' = nd_currentTerm m \<and>
     nd_votedFor m' = nd_votedFor m \<and> nd_state m' = nd_state m" for m x m'
    by (auto simp: resetElectionTimer_def split: option.splits)
  show "quiet n n'" "nd_currentTerm n' = nd_currentTerm n \<or> nd_currentTerm n' = aer_Term resp"
    using assms by (auto simp: handle_beat_def raft_lock Let_def quiet_def split: if_splits option.splits prod.splits sum.splits dest!: adv reset)
qed

lemma becomeLeader_blocked:
  assumes "nd_locked n"
  shows "\<exists>n'. becomeLeader cfg n = (Inl Blocked, n') \<and> nd_locked n' \<and> nd_state n' = Leader \<and> nd_id n' = nd_id n \<and>
    nd_currentTerm n' = nd_currentTerm n \<and> nd_votedFor n' = nd_votedFor n \<and> nd_log n' = nd_log n \<and>
    nd_commitIndex n' = nd_commitIndex n \<and> nd_applyCh n' = nd_applyCh n \<and> nd_lastApplied n' = nd_lastApplied n"
  using assms by (simp add: becomeLeader_def sendHeartbeats_def lock_def)

text \<open>What an answer to an election call does: nothing to the votes, or one more vote.\<close>

lemma handle_vote_cases:
  assumes "handle_vote cfg t resp votes n = (res, v, n')" "\<not> nd_locked n"
  obtains (same) "v = votes" "quiet n n'" "nd_currentTerm n' = nd_currentTerm n \<or> nd_currentTerm n' = rvr_Term resp"
      "res = Inr (t, [])" "\<not> nd_locked n'" "nd_state n' = nd_state n \<or> nd_state n' = Follower"
      "nd_log n' = nd_log n" "nd_commitIndex n' = nd_commitIndex n" "nd_applyCh n' = nd_applyCh n" "nd_lastApplied n' = nd_lastApplied n"
    | (vote) "rvr_VoteGranted resp" "nd_state n = Candidate" "nd_currentTerm n = t" "v = votes + 1" "nd_id n' = nd_id n" "nd_currentTerm n' = t"
      "nd_votedFor n' = nd_votedFor n" "nd_log n' = nd_log n" "nd_commitIndex n' = nd_commitIndex n" "nd_applyCh n' = nd_applyCh n"
      "nd_lastApplied n' = nd_lastApplied n"
      "nd_state n' = Candidate \<and> \<not> nd_locked n' \<and> res = Inr (t, []) \<or>
       nd_state n' = Leader \<and> nd_locked n' \<and> res = Inl Blocked \<and> (int (length (cfg_Peers cfg)) + 1) div 2 < v"
proof (cases "nd_state n = Candidate \<and> nd_currentTerm n = t \<and> \<not> t < rvr_Term resp \<and> rvr_VoteGranted resp")
  case True
  show ?thesis
  proof (cases "(int (length (cfg_Peers cfg)) + 1) div 2 < votes + 1")
    case many: True
    obtain m where m: "becomeLeader cfg (n\<lparr>nd_locked := True\<rparr>) = (Inl Blocked, m)" "nd_locked m" "nd_state m = Leader" "nd_id m = nd_id n"
      "nd_currentTerm m = nd_currentTerm n" "nd_votedFor m = nd_votedFor n" "nd_log m = nd_log n"
      "nd_commitIndex m = nd_commitIndex n" "nd_applyCh m = nd_applyCh n" "nd_lastApplied m = nd_lastApplied n"
      using becomeLeader_blocked [of "n\<lparr>nd_locked := True\<rparr>" cfg] by auto
    then have "res = Inl Blocked \<and> v = votes + 1 \<and> n' = m"
      using assms True many by (auto simp: handle_vote_def lock_def Let_def)
    then show ?thesis using vote True m many by simp
  next
    case False
    then have "res = Inr (t, []) \<and> v = votes + 1 \<and> n' = n\<lparr>nd_locked := False\<rparr>"
      using assms True by (auto simp: handle_vote_def raft_lock Let_def)
    then show ?thesis using vote True by simp
  qed
next
  case False
  then show ?thesis using assms same by (auto simp: handle_vote_def raft_lock Let_def quiet_def split: if_splits)
qed

lemma sendHeartbeats_Inr:
  assumes "sendHeartbeats cfg n = (Inr b, n')"
  shows "\<not> nd_locked n" "quiet n n'" "nd_currentTerm n' = nd_currentTerm n" "fst b = nd_currentTerm n" "nd_state n' = nd_state n"
    "nd_state n \<noteq> Leader \<Longrightarrow> snd b = []" "\<not> nd_locked n'"
    "nd_log n' = nd_log n" "nd_commitIndex n' = nd_commitIndex n" "nd_applyCh n' = nd_applyCh n" "nd_lastApplied n' = nd_lastApplied n"
  using assms by (auto simp: sendHeartbeats_def raft_lock quiet_def split: if_splits)

lemma beat_request_Inr: "beat_request p t n = Inr req \<Longrightarrow> ae_Term req = t"
  by (auto simp: beat_request_def Let_def split: if_splits)

section \<open>The leader's lock\<close>

text \<open>
  No node ever replicates anything: whoever wins an election keeps its own lock for good.
\<close>

definition stuck :: "RaftNode \<Rightarrow> bool" where
  "stuck n \<longleftrightarrow> (nd_locked n \<longleftrightarrow> nd_state n = Leader) \<and> nd_log n = [\<lparr>le_Term = 0, le_Index = 0, le_Data = []\<rparr>] \<and>
     nd_commitIndex n = 0 \<and> nd_lastApplied n = 0 \<and> nd_applyCh n = []"

fun vote_task :: "task \<Rightarrow> bool" where
  "vote_task (VoteCall c p req) = True"
| "vote_task (VoteReply c p t resp) = True"
| "vote_task _ = False"

definition all_stuck :: "string set \<Rightarrow> Cluster \<Rightarrow> bool" where
  "all_stuck ids s \<longleftrightarrow> (\<forall>c \<in> ids. stuck (cl_nodes s c)) \<and> (\<forall>x \<in># cl_tasks s. vote_task x \<and> task_owner x \<in> ids)"

lemma stuck_step:
  assumes "rstep marshal cfgs ids restarts s s'" "all_stuck ids s"
  shows "all_stuck ids s'"
  using assms
proof (induction rule: rstep.induct)
  case (election c s r req ps n)
  then show ?case using startElection_Inr [OF election(3)] by (auto simp: all_stuck_def stuck_def)
next
  case (vote_handled c p req s resp n)
  then show ?case using RequestVote_Inr [OF vote_handled(3)] by (auto simp: all_stuck_def stuck_def dest: in_diffD)
next
  case (vote_returned c p t resp s res v n)
  have "c \<in> ids" "stuck (cl_nodes s c)" using vote_returned(1,4) by (force simp: all_stuck_def)+
  then have "stuck n \<and> (\<forall>b. res = Inr b \<longrightarrow> snd b = [])"
    using vote_returned(2) by (cases rule: handle_vote_cases [OF vote_returned(3,2)]) (auto simp: stuck_def)
  then show ?case using vote_returned(4) by (auto simp: all_stuck_def dest: in_diffD split: sum.splits)
next
  case (heartbeat c s b n)
  then show ?case using sendHeartbeats_Inr [OF heartbeat(3)] by (auto simp: all_stuck_def stuck_def)
next
  case (restart c s r n)
  then show ?case using NewNode_Inr [OF restart(3)] by (auto simp: all_stuck_def stuck_def)
qed (auto simp: all_stuck_def dest: in_diffD)

lemma stuck_run: "rrun marshal cfgs ids restarts k s \<Longrightarrow> all_stuck ids s"
proof (induction rule: rrun.induct)
  case (fresh s)
  then show ?case using NewNode_Inr by (force simp: all_stuck_def stuck_def)
qed (rule stuck_step)

section \<open>Votes\<close>

text \<open>
  The history of an election run: \<open>V p t\<close> is whom \<open>p\<close> voted for in term \<open>t\<close>, and \<open>W c t\<close> the peers whose
  votes \<open>c\<close> has counted.
\<close>

type_synonym history = "string \<Rightarrow> u64 \<Rightarrow> string option"
type_synonym counted = "string \<Rightarrow> u64 \<Rightarrow> string set"

definition node_inv :: "nat \<Rightarrow> (u64 \<Rightarrow> string option) \<Rightarrow> string \<Rightarrow> RaftNode \<Rightarrow> bool" where
  "node_inv k vs c n \<longleftrightarrow> nd_id n = c \<and> unat (nd_currentTerm n) \<le> k \<and> (\<forall>t. vs t \<noteq> None \<longrightarrow> t \<le> nd_currentTerm n) \<and>
     vs (nd_currentTerm n) = (if nd_votedFor n = [] then None else Some (nd_votedFor n)) \<and>
     (nd_state n \<noteq> Follower \<longrightarrow> nd_votedFor n = c)"

definition count_inv :: "string set \<Rightarrow> history \<Rightarrow> string \<Rightarrow> (u64 \<Rightarrow> string set) \<Rightarrow> (u64 \<Rightarrow> int) \<Rightarrow> bool" where
  "count_inv ids V c W votes \<longleftrightarrow>
     (\<forall>t. V c t = Some c \<longrightarrow> W t \<subseteq> ids - {c} \<and> (\<forall>p \<in> W t. V p t = Some c) \<and> votes t = 1 + int (card (W t)))"

fun task_inv :: "string set \<Rightarrow> nat \<Rightarrow> history \<Rightarrow> (string \<Rightarrow> RaftNode) \<Rightarrow> task \<Rightarrow> bool" where
  "task_inv ids k V N (VoteCall c p req) \<longleftrightarrow>
     c \<in> ids \<and> p \<in> ids - {c} \<and> rv_CandidateId req = c \<and> rv_Term req \<le> nd_currentTerm (N c)"
| "task_inv ids k V N (VoteReply c p t resp) \<longleftrightarrow>
     c \<in> ids \<and> p \<in> ids - {c} \<and> t \<le> nd_currentTerm (N c) \<and> unat (rvr_Term resp) \<le> k \<and> (rvr_VoteGranted resp \<longrightarrow> V p t = Some c)"
| "task_inv ids k V N (Beat c p t i) \<longleftrightarrow> c \<in> ids \<and> unat t \<le> k"
| "task_inv ids k V N (BeatCall c p i req) \<longleftrightarrow> c \<in> ids \<and> unat (ae_Term req) \<le> k"
| "task_inv ids k V N (BeatReply c p i req resp) \<longleftrightarrow> c \<in> ids \<and> unat (aer_Term resp) \<le> k"

fun vote_key :: "task \<Rightarrow> (string \<times> string \<times> u64) option" where
  "vote_key (VoteCall c p req) = Some (c, p, rv_Term req)"
| "vote_key (VoteReply c p t resp) = Some (c, p, t)"
| "vote_key _ = None"

definition pending :: "task multiset \<Rightarrow> string \<Rightarrow> string \<Rightarrow> u64 \<Rightarrow> nat" where
  "pending xs c p t = size (filter_mset (\<lambda>x. vote_key x = Some (c, p, t)) xs)"

text \<open>A call is in flight at most once, and no longer once its vote is counted.\<close>

definition once :: "counted \<Rightarrow> task multiset \<Rightarrow> bool" where
  "once W xs \<longleftrightarrow> (\<forall>c p t. pending xs c p t \<le> 1 \<and> (p \<in> W c t \<longrightarrow> pending xs c p t = 0))"

definition election_inv :: "(string \<Rightarrow> Config) \<Rightarrow> string set \<Rightarrow> nat \<Rightarrow> history \<Rightarrow> counted \<Rightarrow> Cluster \<Rightarrow> bool" where
  "election_inv cfgs ids k V W s \<longleftrightarrow>
     (\<forall>c \<in> ids. node_inv k (V c) c (cl_nodes s c) \<and> count_inv ids V c (W c) (cl_votes s c) \<and>
        (nd_state (cl_nodes s c) = Leader \<longrightarrow>
           (int (length (cfg_Peers (cfgs c))) + 1) div 2 < cl_votes s c (nd_currentTerm (cl_nodes s c)))) \<and>
     (\<forall>x \<in># cl_tasks s. task_inv ids k V (cl_nodes s) x) \<and> once W (cl_tasks s)"

lemma pending_simps [simp]:
  "pending {#} c p t = 0"
  "pending (add_mset x xs) c p t = (if vote_key x = Some (c, p, t) then Suc (pending xs c p t) else pending xs c p t)"
  "pending (xs + ys) c p t = pending xs c p t + pending ys c p t"
  by (simp_all add: pending_def)

lemma pending_diff:
  "x \<in># xs \<Longrightarrow> pending (xs - {# x #}) c p t = pending xs c p t - (if vote_key x = Some (c, p, t) then 1 else 0)"
  by (auto dest!: multi_member_split)

lemma pending_pos: "x \<in># xs \<Longrightarrow> vote_key x = Some (c, p, t) \<Longrightarrow> 0 < pending xs c p t"
  by (auto dest!: multi_member_split)

lemma pending_beats: "pending {# Beat c' q u i. q \<in># mset ps #} c p t = 0"
  by (induction ps) auto

lemma pending_calls:
  "distinct ps \<Longrightarrow> pending {# VoteCall c' q req. q \<in># mset ps #} c p t = (if c = c' \<and> t = rv_Term req \<and> p \<in> set ps then 1 else 0)"
  by (induction ps) auto

text \<open>A step in which one node moves quietly and no new vote is cast.\<close>

lemma node_inv_quiet:
  assumes "node_inv k vs c n" "quiet n n'" "unat (nd_currentTerm n') \<le> k"
  shows "node_inv k vs c n'"
  using assms unfolding node_inv_def quiet_def by (auto intro: order_trans less_imp_le dest: leD)

lemma node_inv_mono: "node_inv k vs c n \<Longrightarrow> node_inv (Suc k) vs c n"
  by (simp add: node_inv_def)

lemma task_inv_mono:
  assumes "task_inv ids k V N x" "\<And>c. c \<in> ids \<Longrightarrow> nd_currentTerm (N c) \<le> nd_currentTerm (N' c)"
    "\<And>p t c. V p t = Some c \<Longrightarrow> V' p t = Some c"
  shows "task_inv ids (Suc k) V' N' x"
  using assms by (cases x) (auto intro: order_trans)

lemma once_le: "once W xs \<Longrightarrow> (\<And>c p t. pending ys c p t \<le> pending xs c p t) \<Longrightarrow> once W ys"
  unfolding once_def by (metis le_zero_eq order_trans)

lemma election_inv_quiet:
  assumes inv: "election_inv cfgs ids k V W s" and c: "c \<in> ids" and q: "quiet (cl_nodes s c) n" "unat (nd_currentTerm n) \<le> k"
    and s': "cl_nodes s' = (cl_nodes s)(c := n)" "cl_votes s' = cl_votes s"
    and tasks: "\<And>x. x \<in># cl_tasks s' \<Longrightarrow> x \<in># cl_tasks s \<or> task_inv ids (Suc k) V (cl_nodes s') x"
      "\<And>c p t. pending (cl_tasks s') c p t \<le> pending (cl_tasks s) c p t"
  shows "election_inv cfgs ids (Suc k) V W s'"
proof -
  have le: "nd_currentTerm (cl_nodes s d) \<le> nd_currentTerm (cl_nodes s' d)" for d
    using q(1) by (auto simp: s' quiet_def)
  have "task_inv ids (Suc k) V (cl_nodes s') x" if "x \<in># cl_tasks s'" for x
    using tasks(1) [OF that] inv task_inv_mono [of ids k V "cl_nodes s" x "cl_nodes s'" V] le by (auto simp: election_inv_def)
  moreover have "once W (cl_tasks s')" using inv once_le [OF _ tasks(2)] by (simp add: election_inv_def)
  moreover have "node_inv (Suc k) (V d) d (cl_nodes s' d)" if "d \<in> ids" for d
    using inv that node_inv_quiet [OF _ q] node_inv_mono c by (auto simp: election_inv_def s')
  moreover have "nd_state n = Leader \<longrightarrow> nd_state (cl_nodes s c) = Leader \<and> nd_currentTerm n = nd_currentTerm (cl_nodes s c)"
    using q(1) by (auto simp: quiet_def)
  ultimately show ?thesis using inv by (auto simp: election_inv_def s')
qed

text \<open>A vote: \<open>p\<close> votes for \<open>c\<close> in term \<open>t\<close>, or repeats its vote.\<close>

lemma count_inv_vote:
  assumes "count_inv ids V d Wd votes" "V p t = None \<or> V p t = Some c" "p \<noteq> c"
  shows "count_inv ids (V(p := (V p)(t := Some c))) d Wd votes"
  using assms unfolding count_inv_def by (auto simp: subset_iff split: if_splits)

lemma election_inv_vote:
  assumes inv: "election_inv cfgs ids k V W s" and call: "VoteCall c p req \<in># cl_tasks s" and ne: "[] \<notin> ids"
    and vote: "RequestVote req (cl_nodes s p) = (Inr resp, n)" "rvr_VoteGranted resp"
    and s': "cl_nodes s' = (cl_nodes s)(p := n)" "cl_votes s' = cl_votes s"
      "cl_tasks s' = cl_tasks s - {# VoteCall c p req #} + {# VoteReply c p (rv_Term req) resp #}"
  shows "\<exists>V'. election_inv cfgs ids (Suc k) V' W s'"
proof -
  let ?n = "cl_nodes s p" let ?t = "rv_Term req" let ?V = "V(p := (V p)(?t := Some c))"
  note rv = RequestVote_Inr [OF vote(1)]
  have t: "task_inv ids k V (cl_nodes s) (VoteCall c p req)" using inv call by (auto simp: election_inv_def)
  then have ids: "c \<in> ids" "p \<in> ids" "p \<noteq> c" "rv_CandidateId req = c" "?t \<le> nd_currentTerm (cl_nodes s c)" by auto
  have ni: "node_inv k (V p) p ?n" and bound: "unat ?t \<le> k"
    using inv ids by (auto simp: election_inv_def node_inv_def word_le_nat_alt)
  have n: "nd_id n = p" "nd_currentTerm n = ?t" "nd_votedFor n = c" "nd_currentTerm ?n \<le> ?t"
    using rv(3,4,7) vote(2) ids(4) ni by (auto simp: node_inv_def max_def split: if_splits)
  have old: "V p ?t = None \<or> V p ?t = Some c"
    using rv(7) [OF vote(2)] ni n(4) ids(4) by (cases "nd_currentTerm ?n = ?t") (auto simp: node_inv_def split: if_splits)
  have st: "nd_state n \<noteq> Follower \<Longrightarrow> nd_votedFor ?n = p \<and> nd_currentTerm ?n = ?t"
    using rv(8) n(4) ni by (auto simp: node_inv_def split: if_splits)
  have fol: "nd_state n = Follower"
  proof (rule ccontr)
    assume "nd_state n \<noteq> Follower"
    from st [OF this] show False using ni old ids ne by (auto simp: node_inv_def split: if_splits)
  qed
  have "node_inv (Suc k) (?V p) p n"
    using ni n bound ne ids fol by (auto simp: node_inv_def dest: order_trans)
  then have nodes: "node_inv (Suc k) (?V d) d (cl_nodes s' d)" if "d \<in> ids" for d
    using inv that node_inv_mono by (auto simp: s' election_inv_def)
  have le: "nd_currentTerm (cl_nodes s d) \<le> nd_currentTerm (cl_nodes s' d)" for d using n by (simp add: s')
  have "rvr_Term resp = ?t" using rv(5) n by simp
  then have "task_inv ids (Suc k) ?V (cl_nodes s') (VoteReply c p ?t resp)"
    using ids le [of c] bound by (auto intro: order_trans)
  moreover have ext: "?V q u = Some a" if "V q u = Some a" for q u a using old that by auto
  have "task_inv ids (Suc k) ?V (cl_nodes s') x" if "x \<in># cl_tasks s" for x
    using inv that by (intro task_inv_mono [where V = V and N = "cl_nodes s", OF _ le ext]) (simp_all add: election_inv_def)
  ultimately have "\<forall>x \<in># cl_tasks s'. task_inv ids (Suc k) ?V (cl_nodes s') x" by (auto simp: s' dest: in_diffD)
  moreover have "pending (cl_tasks s') a b u = pending (cl_tasks s) a b u" for a b u
    using pending_pos [OF call, of a b u] pending_diff [OF call, of a b u] by (auto simp: s' split: if_splits)
  then have "once W (cl_tasks s')" using inv by (simp add: election_inv_def once_def)
  ultimately have "election_inv cfgs ids (Suc k) ?V W s'"
    using inv nodes count_inv_vote [where V = V, OF _ old ids(3)] fol by (auto simp: election_inv_def s')
  then show ?thesis by blast
qed

lemma election_inv_start:
  assumes inv: "election_inv cfgs ids k V W s" and c: "c \<in> ids" "[] \<notin> ids" "Suc k < 2 ^ 64"
    and peers: "distinct (cfg_Peers (cfgs c))" "set (cfg_Peers (cfgs c)) \<subseteq> ids"
    and start: "startElection (cfgs c) r (cl_nodes s c) = (Inr (req, ps), n)"
    and s': "cl_nodes s' = (cl_nodes s)(c := n)" "cl_votes s' = (cl_votes s)(c := (cl_votes s c)(rv_Term req := 1))"
      "cl_tasks s' = cl_tasks s + mset (map (\<lambda>p. VoteCall c p req) ps)"
  shows "\<exists>V' W'. election_inv cfgs ids (Suc k) V' W' s'"
proof -
  let ?n = "cl_nodes s c" let ?t = "rv_Term req" let ?V = "V(c := (V c)(?t := Some c))" let ?W = "W(c := (W c)(?t := {}))"
  note st = startElection_Inr [OF start]
  have ni: "node_inv k (V c) c ?n" using inv c by (simp add: election_inv_def)
  then have "unat (nd_currentTerm ?n) + 1 < 2 ^ 64" using c(3) by (simp add: node_inv_def)
  then have t: "unat ?t = unat (nd_currentTerm ?n) + 1" using st(7) by (simp add: unat_word_ariths)
  then have lt: "nd_currentTerm ?n < ?t" by (simp add: word_less_nat_alt)
  have new: "V c ?t = None" using ni lt by (auto simp: node_inv_def dest: leD)
  have "node_inv (Suc k) (?V c) c n" using ni st t c lt by (auto simp: node_inv_def dest: order_trans less_imp_le)
  then have nodes: "node_inv (Suc k) (?V d) d (cl_nodes s' d)" if "d \<in> ids" for d
    using inv that node_inv_mono by (auto simp: s' election_inv_def)
  have le: "nd_currentTerm (cl_nodes s d) \<le> nd_currentTerm (cl_nodes s' d)" for d using st lt less_imp_le [OF lt] by (simp add: s')
  have counts: "count_inv ids ?V d (?W d) (cl_votes s' d)" if "d \<in> ids" for d
  proof -
    have "count_inv ids V d (W d) (cl_votes s d)" using inv that by (simp add: election_inv_def)
    then show ?thesis using new by (cases "d = c") (auto simp: count_inv_def s')
  qed
  have ext: "?V q u = Some a" if "V q u = Some a" for q u a using new that by auto
  have old: "task_inv ids (Suc k) ?V (cl_nodes s') x" if "x \<in># cl_tasks s" for x
    using inv that by (intro task_inv_mono [where V = V and N = "cl_nodes s", OF _ le ext]) (simp_all add: election_inv_def)
  have "task_inv ids (Suc k) ?V (cl_nodes s') (VoteCall c p req)" if "p \<in> set ps" for p
    using that st peers ni c by (auto simp: s' node_inv_def)
  with old have tasks: "\<forall>x \<in># cl_tasks s'. task_inv ids (Suc k) ?V (cl_nodes s') x" by (auto simp: s')
  have none: "pending (cl_tasks s) c p ?t = 0" for p
  proof (rule ccontr)
    assume "pending (cl_tasks s) c p ?t \<noteq> 0"
    then obtain x where "x \<in># cl_tasks s" "vote_key x = Some (c, p, ?t)" by (auto simp: pending_def filter_mset_eq_conv)
    then have "?t \<le> nd_currentTerm ?n" using inv by (cases x) (force simp: election_inv_def)+
    with lt show False by simp
  qed
  have dist: "distinct ps" using st(9) peers(1) by simp
  have "once W (cl_tasks s)" using inv by (simp add: election_inv_def)
  then have "once ?W (cl_tasks s')"
    unfolding once_def using none by (auto simp: s' pending_calls [OF dist])
  with inv nodes counts tasks st(4) have "election_inv cfgs ids (Suc k) ?V ?W s'" by (auto simp: election_inv_def s')
  then show ?thesis by blast
qed

lemma election_inv_count:
  assumes inv: "election_inv cfgs ids k V W s" and fin: "finite ids" and reply: "VoteReply c p t resp \<in># cl_tasks s"
    and vote: "rvr_VoteGranted resp" "nd_state (cl_nodes s c) = Candidate" "nd_currentTerm (cl_nodes s c) = t"
      "nd_id n = nd_id (cl_nodes s c)" "nd_currentTerm n = t" "nd_votedFor n = nd_votedFor (cl_nodes s c)"
      "nd_state n = Leader \<longrightarrow> (int (length (cfg_Peers (cfgs c))) + 1) div 2 < cl_votes s c t + 1"
    and s': "cl_nodes s' = (cl_nodes s)(c := n)" "cl_votes s' = (cl_votes s)(c := (cl_votes s c)(t := cl_votes s c t + 1))"
      "cl_tasks s' = cl_tasks s - {# VoteReply c p t resp #}"
  shows "\<exists>W'. election_inv cfgs ids (Suc k) V W' s'"
proof -
  let ?W = "W(c := (W c)(t := insert p (W c t)))"
  have ti: "task_inv ids k V (cl_nodes s) (VoteReply c p t resp)" using inv reply by (auto simp: election_inv_def)
  then have ids: "c \<in> ids" "p \<in> ids" "p \<noteq> c" "V p t = Some c" using vote(1) by auto
  have ni: "node_inv k (V c) c (cl_nodes s c)" using inv ids by (simp add: election_inv_def)
  have pend: "0 < pending (cl_tasks s) c p t" by (rule pending_pos [OF reply]) simp
  have on: "once W (cl_tasks s)" using inv by (simp add: election_inv_def)
  then have p: "p \<notin> W c t" "pending (cl_tasks s) c p t \<le> 1" using pend unfolding once_def by (metis less_irrefl)+
  have once: "once ?W (cl_tasks s')"
    using on p unfolding once_def s' by (auto simp: pending_diff [OF reply])
  have nodes: "node_inv (Suc k) (V d) d (cl_nodes s' d)" if "d \<in> ids" for d
    using inv that ni vote(2-6) by (cases "d = c") (auto simp: s' election_inv_def node_inv_def)
  have counts: "count_inv ids V d (?W d) (cl_votes s' d)" if "d \<in> ids" for d
  proof (cases "d = c")
    case True
    have ci: "count_inv ids V c (W c) (cl_votes s c)" using inv ids by (simp add: election_inv_def)
    moreover have "V c t = Some c \<Longrightarrow> finite (W c t)" using ci fin by (auto simp: count_inv_def intro: finite_subset)
    ultimately show ?thesis using True ids p by (auto simp: count_inv_def s')
  next
    case False
    then show ?thesis using inv that by (simp add: election_inv_def s')
  qed
  have tasks: "task_inv ids (Suc k) V (cl_nodes s') x" if "x \<in># cl_tasks s'" for x
  proof (rule task_inv_mono [where V = V and N = "cl_nodes s"])
    show "task_inv ids k V (cl_nodes s) x" using inv in_diffD [of x] that by (auto simp: election_inv_def s')
  qed (simp_all add: s' vote(3,5))
  have "election_inv cfgs ids (Suc k) V ?W s'"
    unfolding election_inv_def
  proof (intro conjI ballI impI once)
    fix d assume "d \<in> ids" "nd_state (cl_nodes s' d) = Leader"
    then show "(int (length (cfg_Peers (cfgs d))) + 1) div 2 < cl_votes s' d (nd_currentTerm (cl_nodes s' d))"
      using inv vote(5,7) by (cases "d = c") (simp_all add: election_inv_def s')
  qed (rule nodes counts tasks, assumption)+
  then show ?thesis by blast
qed

text \<open>The quiet steps: a task answered by another of the same election call, a task that ends, and new heartbeats.\<close>

lemma election_inv_swap:
  assumes "election_inv cfgs ids k V W s" "c \<in> ids" "quiet (cl_nodes s c) n" "unat (nd_currentTerm n) \<le> k"
    "cl_nodes s' = (cl_nodes s)(c := n)" "cl_votes s' = cl_votes s" "cl_tasks s' = cl_tasks s - {# x #} + {# y #}"
    "x \<in># cl_tasks s" "vote_key y = vote_key x" "task_inv ids (Suc k) V (cl_nodes s') y"
  shows "election_inv cfgs ids (Suc k) V W s'"
proof (rule election_inv_quiet [OF assms(1-6)])
  fix z assume "z \<in># cl_tasks s'"
  then show "z \<in># cl_tasks s \<or> task_inv ids (Suc k) V (cl_nodes s') z"
    using assms(10) by (auto simp: assms(7) dest: in_diffD)
next
  fix a p t
  show "pending (cl_tasks s') a p t \<le> pending (cl_tasks s) a p t"
    using pending_diff [OF assms(8), of a p t] pending_pos [OF assms(8), of a p t] by (auto simp: assms(7,9) split: if_splits)
qed

lemma election_inv_less:
  assumes "election_inv cfgs ids k V W s" "c \<in> ids" "quiet (cl_nodes s c) n" "unat (nd_currentTerm n) \<le> k"
    "cl_nodes s' = (cl_nodes s)(c := n)" "cl_votes s' = cl_votes s" "cl_tasks s' = cl_tasks s - {# x #}" "x \<in># cl_tasks s"
  shows "election_inv cfgs ids (Suc k) V W s'"
  by (rule election_inv_quiet [OF assms(1-6)]) (auto simp: assms(7) pending_diff [OF assms(8)] dest: in_diffD)

lemma election_inv_more:
  assumes "election_inv cfgs ids k V W s" "c \<in> ids" "quiet (cl_nodes s c) n" "unat (nd_currentTerm n) \<le> k"
    "cl_nodes s' = (cl_nodes s)(c := n)" "cl_votes s' = cl_votes s" "cl_tasks s' = cl_tasks s + beats_of c i b" "unat (fst b) \<le> k"
  shows "election_inv cfgs ids (Suc k) V W s'"
  by (rule election_inv_quiet [OF assms(1-6)]) (auto simp: assms(2,7) le_SucI [OF assms(8)] pending_beats)

lemma node_term: "election_inv cfgs ids k V W s \<Longrightarrow> c \<in> ids \<Longrightarrow> unat (nd_currentTerm (cl_nodes s c)) \<le> k"
  by (simp add: election_inv_def node_inv_def)

lemma task_of: "election_inv cfgs ids k V W s \<Longrightarrow> x \<in># cl_tasks s \<Longrightarrow> task_inv ids k V (cl_nodes s) x"
  by (simp add: election_inv_def)

text \<open>The configurations of one cluster: every node knows all the others, and may list itself.\<close>

definition same_cluster :: "(string \<Rightarrow> Config) \<Rightarrow> string set \<Rightarrow> bool" where
  "same_cluster cfgs ids \<longleftrightarrow> finite ids \<and> [] \<notin> ids \<and>
     (\<forall>c \<in> ids. cfg_ID (cfgs c) = c \<and> distinct (cfg_Peers (cfgs c)) \<and> insert c (set (cfg_Peers (cfgs c))) = ids)"

lemma election_inv_fresh:
  assumes "\<forall>c \<in> ids. \<exists>f r. NewNode (cfgs c) (Some f) r = Inr (cl_nodes s c)" "cl_tasks s = {#}" "same_cluster cfgs ids"
  shows "election_inv cfgs ids 0 (\<lambda>_ _. None) (\<lambda>_ _. {}) s"
proof -
  have "node_inv 0 (\<lambda>_. None) c (cl_nodes s c) \<and> nd_state (cl_nodes s c) = Follower" if "c \<in> ids" for c
    using assms(1,3) that NewNode_Inr by (fastforce simp: node_inv_def same_cluster_def)
  then show ?thesis by (auto simp: election_inv_def count_inv_def once_def assms(2))
qed

lemma election_inv_step:
  assumes "rstep marshal cfgs ids False s s'" "election_inv cfgs ids k V W s" "same_cluster cfgs ids" "Suc k < 2 ^ 64"
  shows "\<exists>V' W'. election_inv cfgs ids (Suc k) V' W' s'"
  using assms(1)
proof cases
  case (election c r req ps n)
  have "distinct (cfg_Peers (cfgs c))" "set (cfg_Peers (cfgs c)) \<subseteq> ids" "[] \<notin> ids"
    using assms(3) election(2) by (auto simp: same_cluster_def)
  with election show ?thesis
    using election_inv_start [OF assms(2) election(2) _ assms(4) _ _ election(4), of s'] by simp
next
  case (vote_handled c p req resp n)
  note rv = RequestVote_Inr [OF vote_handled(4)]
  show ?thesis
  proof (cases "rvr_VoteGranted resp")
    case True
    show ?thesis
      using election_inv_vote [OF assms(2) vote_handled(2) _ vote_handled(4) True, of s'] assms(3) vote_handled(1)
      by (auto simp: same_cluster_def)
  next
    case False
    have ti: "task_inv ids k V (cl_nodes s) (VoteCall c p req)" by (rule task_of [OF assms(2) vote_handled(2)])
    have bound: "unat (nd_currentTerm n) \<le> k"
      using node_term [OF assms(2), of c] node_term [OF assms(2) vote_handled(3)] ti rv(4) by (auto simp: max_def word_le_nat_alt)
    have "nd_currentTerm (cl_nodes s c) \<le> nd_currentTerm (cl_nodes s' c)" using rv(4) vote_handled(1) by simp
    then have "election_inv cfgs ids (Suc k) V W s'"
      by (intro election_inv_swap [where n = n, OF assms(2) vote_handled(3) rv(6) [OF False] bound _ _ _ vote_handled(2)])
         (use vote_handled(1) ti rv(5) bound False in \<open>auto intro: order_trans\<close>)
    then show ?thesis by blast
  qed
next
  case (vote_returned c p t resp res v n)
  have ti: "task_inv ids k V (cl_nodes s) (VoteReply c p t resp)" by (rule task_of [OF assms(2) vote_returned(2)])
  then have c: "c \<in> ids" by simp
  from vote_returned(4,3) show ?thesis
  proof (cases rule: handle_vote_cases)
    case same
    have "unat (nd_currentTerm n) \<le> k" using same(3) node_term [OF assms(2) c] ti by auto
    then have "election_inv cfgs ids (Suc k) V W s'"
      by (intro election_inv_less [where n = n, OF assms(2) c same(2) _ _ _ _ vote_returned(2)])
         (simp_all add: vote_returned(1) same(1,4))
    then show ?thesis by blast
  next
    case vote
    have "cl_tasks s' = cl_tasks s - {# VoteReply c p t resp #}" using vote(12) vote_returned(1) by auto
    moreover have "nd_state n = Leader \<longrightarrow> (int (length (cfg_Peers (cfgs c))) + 1) div 2 < cl_votes s c t + 1" using vote(4,12) by auto
    ultimately show ?thesis
      using election_inv_count [OF assms(2) _ vote_returned(2) vote(1-3,5-7), of s'] assms(3) vote(4)
      by (auto simp: same_cluster_def vote_returned(1))
  qed
next
  case (heartbeat c b n)
  note hb = sendHeartbeats_Inr [OF heartbeat(4)]
  have "election_inv cfgs ids (Suc k) V W s'"
    by (rule election_inv_more [where n = n and b = b, OF assms(2) heartbeat(2) hb(2)])
       (simp_all add: heartbeat(1) hb(3,4) node_term [OF assms(2) heartbeat(2)])
  then show ?thesis by blast
next
  case (beat_sent c p t i req)
  have ti: "task_inv ids k V (cl_nodes s) (Beat c p t i)" by (rule task_of [OF assms(2) beat_sent(2)])
  then have "election_inv cfgs ids (Suc k) V W s'"
    by (intro election_inv_swap [where n = "cl_nodes s c" and y = "BeatCall c p i req", OF assms(2) _ quiet_refl _ _ _ _ beat_sent(2)])
       (simp_all add: beat_sent(1) beat_request_Inr [OF beat_sent(3)] node_term [OF assms(2)])
  then show ?thesis by blast
next
  case (beat_handled c p i req resp n)
  note ae = AppendEntries_Inr [OF beat_handled(4)]
  have ti: "task_inv ids k V (cl_nodes s) (BeatCall c p i req)" by (rule task_of [OF assms(2) beat_handled(2)])
  then have "unat (nd_currentTerm n) \<le> k" using ae(2) node_term [OF assms(2) beat_handled(3)] by (simp add: max_def)
  with ti have "election_inv cfgs ids (Suc k) V W s'"
    by (intro election_inv_swap [where n = n and y = "BeatReply c p i req resp", OF assms(2) beat_handled(3) ae(1) _ _ _ _ beat_handled(2)])
       (simp_all add: beat_handled(1) ae(3))
  then show ?thesis by blast
next
  case (beat_returned c p i req resp now v n1 r u n)
  have ti: "task_inv ids k V (cl_nodes s) (BeatReply c p i req resp)" by (rule task_of [OF assms(2) beat_returned(2)])
  note q1 = extend_lease_quiet [OF beat_returned(3)] and q2 = handle_beat_quiet [OF beat_returned(4)]
  have "quiet (cl_nodes s c) n" using q1 q2(1) by (auto simp: quiet_def)
  moreover have "unat (nd_currentTerm n) \<le> k" using q1 q2(2) ti node_term [OF assms(2), of c] by auto
  ultimately have "election_inv cfgs ids (Suc k) V W s'"
    using ti by (intro election_inv_less [where n = n, OF assms(2) _ _ _ _ _ _ beat_returned(2)]) (simp_all add: beat_returned(1))
  then show ?thesis by blast
next
  case (lost x)
  have "\<exists>c. c \<in> ids" using task_of [OF assms(2) lost(2)] by (cases x) auto
  then obtain c where c: "c \<in> ids" by blast
  have "election_inv cfgs ids (Suc k) V W s'"
    by (rule election_inv_less [where n = "cl_nodes s c", OF assms(2) c quiet_refl _ _ _ _ lost(2)])
       (simp_all add: lost(1) node_term [OF assms(2) c])
  then show ?thesis by blast
qed simp

end
