(* ===== verification/RaftProps.thy ===== *)
theory RaftProps
  imports RaftCluster WalCorrect
begin

text \<open>
  The properties of the consensus protocol: elections, the leader's lock, what a restart forgets, and the
  replication handlers.
\<close>

section \<open>Elections\<close>

lemma election_inv_run:
  assumes "rrun marshal cfgs ids False k s" "same_cluster cfgs ids" "k < 2 ^ 64"
  shows "\<exists>V W. election_inv cfgs ids k V W s"
  using assms
proof (induction rule: rrun.induct)
  case (fresh s)
  then show ?case using election_inv_fresh by blast
next
  case (step k s s')
  then show ?case using election_inv_step by (metis Suc_lessD)
qed

lemma leader_quorum:
  assumes inv: "election_inv cfgs ids k V W s" and ids: "same_cluster cfgs ids" "c \<in> ids" and leader: "nd_state (cl_nodes s c) = Leader"
  shows "card ids < 2 * card {v \<in> ids. V v (nd_currentTerm (cl_nodes s c)) = Some c}"
proof -
  let ?t = "nd_currentTerm (cl_nodes s c)" let ?Q = "{v \<in> ids. V v ?t = Some c}"
  have fin: "finite ids" using ids(1) by (simp add: same_cluster_def)
  have "node_inv k (V c) c (cl_nodes s c)" and ci: "count_inv ids V c (W c) (cl_votes s c)"
    and many: "(int (length (cfg_Peers (cfgs c))) + 1) div 2 < cl_votes s c ?t"
    using inv ids(2) leader by (simp_all add: election_inv_def)
  moreover have "c \<noteq> []" using ids by (auto simp: same_cluster_def)
  ultimately have self: "V c ?t = Some c" using leader by (auto simp: node_inv_def split: if_splits)
  with ci have W: "W c ?t \<subseteq> ids - {c}" "\<forall>p \<in> W c ?t. V p ?t = Some c" "cl_votes s c ?t = 1 + int (card (W c ?t))"
    by (auto simp: count_inv_def)
  have "insert c (W c ?t) \<subseteq> ?Q" using W self ids(2) by auto
  then have "card (insert c (W c ?t)) \<le> card ?Q" using fin by (intro card_mono) auto
  moreover have "finite (W c ?t)" "c \<notin> W c ?t" using W(1) fin by (auto intro: finite_subset)
  ultimately have votes: "cl_votes s c ?t \<le> int (card ?Q)" using W(3) by simp
  have peers: "distinct (cfg_Peers (cfgs c))" "insert c (set (cfg_Peers (cfgs c))) = ids" using ids by (auto simp: same_cluster_def)
  have "card (insert c (set (cfg_Peers (cfgs c)))) \<le> Suc (card (set (cfg_Peers (cfgs c))))" by (simp add: card_insert_if)
  then have "card ids \<le> Suc (length (cfg_Peers (cfgs c)))" by (simp add: peers(2) distinct_card [OF peers(1)])
  then show ?thesis using votes many by linarith
qed

text \<open>
  C4. Election safety.  In every interleaving of elections, heartbeats, lost calls and delayed answers, two
  nodes that are leaders in the same term are the same node, whether or not the configurations list the
  node itself among its peers.
\<close>

theorem raft_election_safety:
  assumes "rrun marshal cfgs ids False k s" "same_cluster cfgs ids" "k < 2 ^ 64" "a \<in> ids" "b \<in> ids"
    "nd_state (cl_nodes s a) = Leader" "nd_state (cl_nodes s b) = Leader"
    "nd_currentTerm (cl_nodes s a) = nd_currentTerm (cl_nodes s b)"
  shows "a = b"
proof (rule ccontr)
  assume "a \<noteq> b"
  obtain V W where inv: "election_inv cfgs ids k V W s" using election_inv_run [OF assms(1-3)] by blast
  let ?Q = "\<lambda>c. {v \<in> ids. V v (nd_currentTerm (cl_nodes s a)) = Some c}"
  have "card ids < 2 * card (?Q a)" "card ids < 2 * card (?Q b)"
    using leader_quorum [OF inv assms(2,4,6)] leader_quorum [OF inv assms(2,5,7)] assms(8) by simp_all
  moreover have "card (?Q a) + card (?Q b) \<le> card ids"
  proof -
    have fin: "finite ids" using assms(2) by (simp add: same_cluster_def)
    have "card (?Q a) + card (?Q b) = card (?Q a \<union> ?Q b)" using fin \<open>a \<noteq> b\<close> by (intro card_Un_disjoint [symmetric]) auto
    also have "\<dots> \<le> card ids" using fin by (intro card_mono) auto
    finally show ?thesis .
  qed
  ultimately show False by linarith
qed

section \<open>Runs of three nodes\<close>

abbreviation three :: "string set" where
  "three \<equiv> {''a'', ''b'', ''c''}"

definition sample_cfg :: "string \<Rightarrow> Config" where
  "sample_cfg c = \<lparr>cfg_ID = c, cfg_Peers = filter (\<lambda>p. p \<noteq> c) [''a'', ''b'', ''c''], cfg_ElectionMin = 150, cfg_ElectionMax = 300,
     cfg_HeartbeatTime = 50, cfg_LeaseDuration = 100\<rparr>"

lemma sample_cfg_simps [simp]:
  "cfg_ID (sample_cfg c) = c" "cfg_ElectionMin (sample_cfg c) = 150" "cfg_ElectionMax (sample_cfg c) = 300"
  by (simp_all add: sample_cfg_def)

lemma sample_peers: "cfg_Peers (sample_cfg c) = filter (\<lambda>p. p \<noteq> c) [''a'', ''b'', ''c'']"
  by (simp add: sample_cfg_def)

lemma sample_peers_other: "filter (\<lambda>p. p \<noteq> c) (cfg_Peers (sample_cfg c)) = cfg_Peers (sample_cfg c)"
  by (simp only: sample_peers filter_filter conj_absorb)

definition sample_node :: "string \<Rightarrow> RaftNode" where
  "sample_node c = projr (NewNode (sample_cfg c) (Some (good_file [])) 0)"

lemma sample_node: "NewNode (sample_cfg c) (Some (good_file [])) 0 = Inr (sample_node c)"
  by (simp add: sample_node_def NewNode_def OpenWAL_def randomDuration_def)

lemma sample_cluster: "same_cluster sample_cfg three"
  by (auto simp: same_cluster_def sample_peers)

definition sample_start :: Cluster where
  "sample_start = \<lparr>cl_nodes = sample_node, cl_tasks = {#}, cl_votes = (\<lambda>_ _. 0), cl_beats = (\<lambda>_. 0), cl_rounds = 0\<rparr>"

lemma sample_fresh: "rrun marshal sample_cfg three restarts 0 sample_start"
  using sample_node by (intro rrun.fresh) (simp add: sample_start_def, blast, simp add: sample_start_def)

abbreviation sample_req :: "string \<Rightarrow> RequestVoteRequest" where
  "sample_req c \<equiv> \<lparr>rv_Term = 1, rv_CandidateId = c, rv_LastLogIndex = 0, rv_LastLogTerm = 0\<rparr>"

abbreviation yes :: RequestVoteResponse where
  "yes \<equiv> \<lparr>rvr_Term = 1, rvr_VoteGranted = True\<rparr>"

lemmas node_ops = sample_node_def NewNode_def OpenWAL_def randomDuration_def raft_lock last_log_def Let_def SaveState_def stepDown_def

lemma sample_candidate:
  "\<exists>n. startElection (sample_cfg c) 0 (sample_node c) = (Inr (sample_req c, cfg_Peers (sample_cfg c)), n) \<and>
     nd_state n = Candidate \<and> nd_currentTerm n = 1 \<and> \<not> nd_locked n" "nd_electionTimer (sample_node c) \<noteq> None"
  by (simp_all add: startElection_def node_ops resetElectionTimer_def sample_peers_other)

lemma sample_vote:
  "\<exists>n. RequestVote (sample_req c) (sample_node p) = (Inr yes, n) \<and> w_file (nd_wal n) = good_file []"
  by (simp add: RequestVote_def node_ops NewWriter_def)

text \<open>A fresh node is elected with the vote of one fresh peer.\<close>

lemma elect:
  assumes run: "rrun marshal sample_cfg three restarts k s" and cp: "c \<in> three" "p \<in> three" "c \<noteq> p"
    and nodes: "cl_nodes s c = sample_node c" "cl_nodes s p = sample_node p"
  shows "\<exists>s'. rrun marshal sample_cfg three restarts (Suc (Suc (Suc k))) s' \<and> nd_state (cl_nodes s' c) = Leader \<and> nd_currentTerm (cl_nodes s' c) = 1 \<and>
    w_file (nd_wal (cl_nodes s' p)) = good_file [] \<and> (\<forall>d. d \<noteq> c \<longrightarrow> d \<noteq> p \<longrightarrow> cl_nodes s' d = cl_nodes s d)"
proof -
  let ?req = "sample_req c" let ?ps = "cfg_Peers (sample_cfg c)"
  obtain n1 where n1: "startElection (sample_cfg c) 0 (sample_node c) = (Inr (?req, ?ps), n1)" "nd_state n1 = Candidate" "nd_currentTerm n1 = 1" "\<not> nd_locked n1"
    using sample_candidate(1) by blast
  define s1 where "s1 = s\<lparr>cl_nodes := (cl_nodes s)(c := n1), cl_tasks := cl_tasks s + mset (map (\<lambda>p. VoteCall c p ?req) ?ps),
    cl_votes := (cl_votes s)(c := (cl_votes s c)(1 := 1))\<rparr>"
  have "nd_electionTimer (cl_nodes s c) \<noteq> None" using sample_candidate(2) nodes by simp
  then have s1: "rrun marshal sample_cfg three restarts (Suc k) s1"
    using rstep.election [where cfgs = sample_cfg and s = s and c = c, OF cp(1) _ n1(1) [folded nodes]] by (intro rrun.step [OF run]) (simp add: s1_def)
  have call: "VoteCall c p ?req \<in># cl_tasks s1" using cp by (auto simp: s1_def sample_peers)
  obtain n2 where n2: "RequestVote ?req (sample_node p) = (Inr yes, n2)" "w_file (nd_wal n2) = good_file []"
    using sample_vote by blast
  define s2 where "s2 = s1\<lparr>cl_nodes := (cl_nodes s1)(p := n2),
    cl_tasks := cl_tasks s1 - {# VoteCall c p ?req #} + {# VoteReply c p 1 yes #}\<rparr>"
  have "cl_nodes s1 p = sample_node p" using cp(3) nodes by (simp add: s1_def)
  then have s2: "rrun marshal sample_cfg three restarts (Suc (Suc k)) s2"
    using rstep.vote_handled [where cfgs = sample_cfg, OF call cp(2)] n2(1) by (intro rrun.step [OF s1]) (simp add: s2_def)
  have c2: "cl_nodes s2 c = n1" "cl_votes s2 c 1 = 1" using cp(3) by (simp_all add: s2_def s1_def)
  obtain n3 where n3: "becomeLeader (sample_cfg c) (n1\<lparr>nd_locked := True\<rparr>) = (Inl Blocked, n3)" "nd_state n3 = Leader" "nd_currentTerm n3 = 1"
    using becomeLeader_blocked [of "n1\<lparr>nd_locked := True\<rparr>" "sample_cfg c"] n1(3) by auto
  have len: "length ?ps = 2" using cp(1) by (auto simp: sample_peers)
  have hv: "handle_vote (sample_cfg c) 1 yes (cl_votes s2 c 1) (cl_nodes s2 c) = (Inl Blocked, 2, n3)"
    using n1(2-4) n3(1) len by (simp add: c2 handle_vote_def lock_def Let_def)
  define s3 where "s3 = s2\<lparr>cl_nodes := (cl_nodes s2)(c := n3), cl_votes := (cl_votes s2)(c := (cl_votes s2 c)(1 := 2)),
    cl_tasks := cl_tasks s2 - {# VoteReply c p 1 yes #} + {#},
    cl_beats := (cl_beats s2)(cl_rounds s2 := 1), cl_rounds := Suc (cl_rounds s2)\<rparr>"
  have reply: "VoteReply c p 1 yes \<in># cl_tasks s2" and free: "\<not> nd_locked (cl_nodes s2 c)" using n1(4) c2 by (simp_all add: s2_def)
  have "rstep marshal sample_cfg three restarts s2 s3"
    using rstep.vote_returned [where cfgs = sample_cfg and s = s2 and c = c and p = p, OF reply free hv] by (simp add: s3_def)
  then have "rrun marshal sample_cfg three restarts (Suc (Suc (Suc k))) s3" by (rule rrun.step [OF s2])
  then show ?thesis using n2(2) n3(2,3) cp(3) by (intro exI [of _ s3]) (simp add: s3_def s2_def s1_def)
qed

theorem raft_election_safety_witness:
  "\<exists>s. rrun (\<lambda>_. None) sample_cfg three False 3 s \<and> nd_state (cl_nodes s ''a'') = Leader \<and>
    (\<forall>b \<in> three. nd_state (cl_nodes s b) = Leader \<and> nd_currentTerm (cl_nodes s ''a'') = nd_currentTerm (cl_nodes s b) \<longrightarrow> ''a'' = b)"
proof -
  obtain s where s: "rrun (\<lambda>_. None) sample_cfg three False 3 s" "nd_state (cl_nodes s ''a'') = Leader"
    using elect [OF sample_fresh [where marshal = "\<lambda>_. None" and restarts = False], of "''a''" "''b''"] by (auto simp: sample_start_def numeral_3_eq_3)
  then show ?thesis using raft_election_safety [OF s(1) sample_cluster, of "''a''"] by (intro exI [of _ s]) simp
qed

text \<open>
  C14. A leader never leads.  In every run, restarts included, a node that wins an election holds its own lock for
  good: it answers no call and sends no heartbeat.  So no node ever replicates or applies an entry.
\<close>

theorem raft_leader_deadlock:
  assumes "rrun marshal cfgs ids restarts k s" "c \<in> ids"
  shows "nd_log (cl_nodes s c) = [\<lparr>le_Term = 0, le_Index = 0, le_Data = []\<rparr>] \<and> nd_commitIndex (cl_nodes s c) = 0 \<and> nd_applyCh (cl_nodes s c) = [] \<and>
    (nd_state (cl_nodes s c) = Leader \<longrightarrow> RequestVote req (cl_nodes s c) = (Inl Blocked, cl_nodes s c) \<and>
      AppendEntries marshal areq (cl_nodes s c) = (Inl Blocked, cl_nodes s c) \<and> sendHeartbeats cfg (cl_nodes s c) = (Inl Blocked, cl_nodes s c))"
  using stuck_run [OF assms(1)] assms(2)
  by (auto simp: all_stuck_def stuck_def RequestVote_def AppendEntries_def sendHeartbeats_def lock_def)

theorem raft_leader_deadlock_witness:
  "\<exists>s. rrun (\<lambda>_. None) sample_cfg three True 3 s \<and> nd_state (cl_nodes s ''a'') = Leader \<and> nd_commitIndex (cl_nodes s ''a'') = 0 \<and>
    sendHeartbeats (sample_cfg ''a'') (cl_nodes s ''a'') = (Inl Blocked, cl_nodes s ''a'')"
proof -
  obtain s where s: "rrun (\<lambda>_. None) sample_cfg three True 3 s" "nd_state (cl_nodes s ''a'') = Leader"
    using elect [OF sample_fresh [where marshal = "\<lambda>_. None" and restarts = True], of "''a''" "''b''"]
    by (auto simp: sample_start_def numeral_3_eq_3)
  then show ?thesis using raft_leader_deadlock [OF s(1), of "''a''"] by (intro exI [of _ s]) simp
qed

text \<open>
  C16. A restart forgets votes.  The state that \<^verbatim>\<open>SaveState\<close> is given is never written, so a node that restarts votes
  again in the same term: three nodes and one restart give two leaders of term 1.
\<close>

theorem raft_restart_two_leaders:
  "\<exists>k s. rrun marshal sample_cfg three True k s \<and> nd_state (cl_nodes s ''a'') = Leader \<and> nd_state (cl_nodes s ''c'') = Leader \<and>
    nd_currentTerm (cl_nodes s ''a'') = 1 \<and> nd_currentTerm (cl_nodes s ''c'') = 1"
proof -
  have start: "cl_nodes sample_start d = sample_node d" for d by (simp add: sample_start_def)
  obtain s where s: "rrun marshal sample_cfg three True (Suc (Suc (Suc 0))) s" "nd_state (cl_nodes s ''a'') = Leader" "nd_currentTerm (cl_nodes s ''a'') = 1"
      "w_file (nd_wal (cl_nodes s ''b'')) = good_file []" and other: "\<forall>d. d \<noteq> ''a'' \<longrightarrow> d \<noteq> ''b'' \<longrightarrow> cl_nodes s d = cl_nodes sample_start d"
    using elect [OF sample_fresh [where marshal = marshal and restarts = True] _ _ _ start start, of "''a''" "''b''"] by blast
  have s5: "cl_nodes s ''c'' = sample_node ''c''" using other start by simp
  define s1 where "s1 = s\<lparr>cl_nodes := (cl_nodes s)(''b'' := sample_node ''b''), cl_tasks := filter_mset (\<lambda>x. task_owner x \<noteq> ''b'') (cl_tasks s)\<rparr>"
  have "rstep marshal sample_cfg three True s s1"
    unfolding s1_def by (rule rstep.restart [where r = 0]) (simp_all add: s(4) sample_node)
  note run1 = rrun.step [OF s(1) this]
  have nodes: "cl_nodes s1 ''c'' = sample_node ''c''" "cl_nodes s1 ''b'' = sample_node ''b''" "cl_nodes s1 ''a'' = cl_nodes s ''a''"
    using s5 by (simp_all add: s1_def)
  obtain k s2 where s2: "rrun marshal sample_cfg three True k s2" "nd_state (cl_nodes s2 ''c'') = Leader" "nd_currentTerm (cl_nodes s2 ''c'') = 1"
      and other: "\<forall>d. d \<noteq> ''c'' \<longrightarrow> d \<noteq> ''b'' \<longrightarrow> cl_nodes s2 d = cl_nodes s1 d"
    using elect [OF run1 _ _ _ nodes(1,2)] by blast
  have "cl_nodes s2 ''a'' = cl_nodes s ''a''" using other nodes(3) by simp
  then show ?thesis using s(2,3) s2 by (intro exI [of _ k] exI [of _ s2]) simp
qed

end
