(* ===== verification/RaftReplication.thy ===== *)
theory RaftReplication
  imports RaftCluster WalCorrect
begin

text \<open>
  Replication, handler by handler: a leader's heartbeats against a follower, what a delayed heartbeat does to
  a log, and what an acknowledged entry is on disk.
\<close>

section \<open>Commit and apply\<close>

lemma applyLog_ok:
  assumes "unat (nd_commitIndex n) < length (nd_log n)"
  shows "\<exists>n'. applyLog n = (Inr (), n')"
  using assms
proof (induction n rule: applyLog.induct)
  case (1 n)
  show ?case
  proof (cases "nd_lastApplied n < nd_commitIndex n")
    case True
    then have "unat (nd_lastApplied n + 1) \<le> unat (nd_commitIndex n)" by (simp add: unat_succ [OF True] word_less_nat_alt Suc_le_eq)
    with 1(2) have i: "\<not> length (nd_log n) \<le> unat (nd_lastApplied n + 1)" by linarith
    show ?thesis using 1(1) [OF True refl refl i] 1(2) True i by (simp add: applyLog.simps [of n] Let_def)
  next
    case False
    then show ?thesis by (simp add: applyLog.simps [of n])
  qed
qed

lemma applyLog_log [simp]:
  "nd_log (snd (applyLog n)) = nd_log n" "nd_commitIndex (snd (applyLog n)) = nd_commitIndex n" "nd_nextIndex (snd (applyLog n)) = nd_nextIndex n"
  "nd_wal (snd (applyLog n)) = nd_wal n" "nd_locked (snd (applyLog n)) = nd_locked n"
  by (subst applyLog_node, simp)+

lemma applyLog_total:
  assumes "unat (nd_commitIndex n) < length (nd_log n)"
  obtains n' where "applyLog n = (Inr (), n')" "nd_log n' = nd_log n" "nd_commitIndex n' = nd_commitIndex n" "nd_nextIndex n' = nd_nextIndex n"
    "nd_wal n' = nd_wal n" "nd_locked n' = nd_locked n" "nd_currentTerm n' = nd_currentTerm n"
proof -
  obtain n' where n': "applyLog n = (Inr (), n')" using applyLog_ok [OF assms] by blast
  show ?thesis using that [OF n'] applyLog_log [of n] applyLog_fields [of n] by (simp add: n')
qed

lemma advance_loop_ok:
  assumes "i < int (length (nd_log n))" "unat (nd_commitIndex n) < length (nd_log n)" "length (nd_log n) < 2 ^ 63"
  shows "\<exists>n'. advance_loop i n = (Inr (), n') \<and> nd_log n' = nd_log n \<and> nd_nextIndex n' = nd_nextIndex n \<and> nd_locked n' = nd_locked n"
  using assms
proof (induction i n rule: advance_loop.induct)
  case (1 i n)
  have c: "sint (nd_commitIndex n) = int (unat (nd_commitIndex n))"
  proof -
    have "uint (nd_commitIndex n) < 2 ^ 63" using 1(4,5) by (simp add: uint_nat del: unat_eq_nat_uint of_nat_unat)
    moreover have "- (2 ^ 63) \<le> uint (nd_commitIndex n)" by (rule order_trans [of _ 0]) simp_all
    ultimately show ?thesis using signed_take_bit_int_eq_self [of 63 "uint (nd_commitIndex n)"] by (simp add: sint_uint)
  qed
  then have nonneg: "0 \<le> sint (nd_commitIndex n)" by simp
  show ?case
  proof (cases "sint (nd_commitIndex n) < i \<and> (int (length (nd_peers n)) + 1) div 2 < replicas i n \<and> le_Term (nd_log n ! nat i) = nd_currentTerm n")
    case True
    then have "0 \<le> i" using c by linarith
    moreover have "unat (of_int i :: u64) = nat i" using \<open>0 \<le> i\<close> 1(3,5) by (simp add: unat_eq_nat_uint uint_word_of_int)
    ultimately have "unat (nd_commitIndex (n\<lparr>nd_commitIndex := of_int i\<rparr>)) < length (nd_log (n\<lparr>nd_commitIndex := of_int i\<rparr>))"
      using 1(3) by simp
    then show ?thesis
      by (rule applyLog_total) (use True 1(3) \<open>0 \<le> i\<close> in \<open>simp add: advance_loop.simps [of i n]\<close>)
  next
    case False
    moreover have "sint (nd_commitIndex n) < i \<Longrightarrow> \<not> i < 0" using nonneg by linarith
    ultimately show ?thesis
      using 1 by (cases "sint (nd_commitIndex n) < i") (auto simp: advance_loop.simps [of i n])
  qed
qed

section \<open>Heartbeats until a follower has caught up\<close>

text \<open>One heartbeat of leader \<open>n\<close> to the follower \<open>m\<close> known as \<open>p\<close>, from the request to the leader's handling of the answer.\<close>

definition beat_round :: "(LogEntry \<Rightarrow> bytes option) \<Rightarrow> Config \<Rightarrow> string \<Rightarrow> RaftNode \<times> RaftNode \<Rightarrow> (RaftNode \<times> RaftNode) option" where
  "beat_round marshal cfg p = (\<lambda>(n, m).
     case beat_request p (nd_currentTerm n) n of
       Inl e \<Rightarrow> None
     | Inr req \<Rightarrow>
         (case AppendEntries marshal req m of
            (Inl e, m) \<Rightarrow> None
          | (Inr resp, m) \<Rightarrow> (case handle_beat cfg 0 p req resp n of (Inl e, n) \<Rightarrow> None | (Inr _, n) \<Rightarrow> Some (n, m))))"

fun beat_rounds :: "(LogEntry \<Rightarrow> bytes option) \<Rightarrow> Config \<Rightarrow> string \<Rightarrow> nat \<Rightarrow> RaftNode \<times> RaftNode \<Rightarrow> (RaftNode \<times> RaftNode) option" where
  "beat_rounds marshal cfg p 0 nm = Some nm"
| "beat_rounds marshal cfg p (Suc k) nm =
     (case beat_round marshal cfg p nm of None \<Rightarrow> None | Some nm \<Rightarrow> beat_rounds marshal cfg p k nm)"

text \<open>Logs that have an entry of the same term at the same place agree up to it, and both begin with the dummy entry.\<close>

definition logs_match :: "LogEntry list \<Rightarrow> LogEntry list \<Rightarrow> bool" where
  "logs_match xs ys \<longleftrightarrow> xs \<noteq> [] \<and> ys \<noteq> [] \<and> le_Term (xs ! 0) = le_Term (ys ! 0) \<and>
     (\<forall>i < min (length xs) (length ys). le_Term (xs ! i) = le_Term (ys ! i) \<longrightarrow> take (Suc i) xs = take (Suc i) ys)"

lemma logs_matchD:
  "logs_match xs ys \<Longrightarrow> i < length xs \<Longrightarrow> i < length ys \<Longrightarrow> le_Term (xs ! i) = le_Term (ys ! i) \<Longrightarrow> take (Suc i) xs = take (Suc i) ys"
  by (simp add: logs_match_def)

definition leading :: "string \<Rightarrow> RaftNode \<Rightarrow> bool" where
  "leading p n \<longleftrightarrow> nd_state n = Leader \<and> \<not> nd_locked n \<and> length (nd_log n) < 2 ^ 63 \<and> unat (nd_commitIndex n) < length (nd_log n) \<and>
     0 < unat (map_get (nd_nextIndex n) p) \<and> unat (map_get (nd_nextIndex n) p) \<le> length (nd_log n)"

lemma request_prev:
  assumes "leading p n"
  shows "\<exists>req. beat_request p t n = Inr req \<and> unat (ae_PrevLogIndex req) = unat (map_get (nd_nextIndex n) p) - 1 \<and>
    ae_Term req = t \<and> ae_PrevLogTerm req = le_Term (nd_log n ! (unat (map_get (nd_nextIndex n) p) - 1)) \<and>
    ae_Entries req = drop (unat (map_get (nd_nextIndex n) p)) (nd_log n)"
proof -
  let ?i = "map_get (nd_nextIndex n) p"
  have "?i \<noteq> 0" using assms by (auto simp: leading_def)
  then have "unat (?i - 1) = unat ?i - 1" by (simp add: unat_minus_one)
  then show ?thesis using assms by (auto simp: beat_request_def leading_def Let_def)
qed

text \<open>The follower's answer, as the code decides it.\<close>

lemma AppendEntries_result:
  assumes "\<not> nd_locked m" "nd_currentTerm m \<le> ae_Term req" "length (nd_log m) + length (ae_Entries req) < 2 ^ 63"
    "unat (nd_commitIndex m) < length (nd_log m)"
  defines "i \<equiv> unat (ae_PrevLogIndex req)"
  shows "\<exists>m' ok. AppendEntries marshal req m = (Inr \<lparr>aer_Term = ae_Term req, aer_Success = ok\<rparr>, m') \<and> \<not> nd_locked m' \<and> nd_currentTerm m' = ae_Term req \<and>
    ok = (i < length (nd_log m) \<and> le_Term (nd_log m ! i) = ae_PrevLogTerm req) \<and>
    nd_log m' = (if ok then take (Suc i) (nd_log m) @ ae_Entries req else nd_log m) \<and>
    (\<not> ok \<longrightarrow> nd_commitIndex m' = nd_commitIndex m)"
proof (cases "i < length (nd_log m) \<and> le_Term (nd_log m ! i) = ae_PrevLogTerm req")
  case False
  then show ?thesis
    using assms(1,2) unfolding i_def by (auto simp: AppendEntries_def raft_lock Let_def not_le)
next
  case True
  define m1 where "m1 = (if nd_currentTerm m < ae_Term req then stepDown (ae_Term req) (m\<lparr>nd_locked := True\<rparr>) else m\<lparr>nd_locked := True\<rparr>)"
  define m2 where "m2 = m1\<lparr>nd_state := Follower, nd_log := take (Suc i) (nd_log m) @ ae_Entries req,
    nd_wal := snd (rw_AppendEntries marshal (ae_Entries req) (nd_wal m1))\<rparr>"
  define lastIdx where "lastIdx = (of_nat (length (nd_log m2) - 1) :: u64)"
  have m1: "nd_log m1 = nd_log m" "nd_currentTerm m1 = ae_Term req" "nd_commitIndex m1 = nd_commitIndex m"
    using assms(2) by (auto simp: m1_def)
  have len: "length (nd_log m2) < 2 ^ 63" "0 < length (nd_log m2)" using assms(3) True by (auto simp: m2_def)
  then have "unat lastIdx = length (nd_log m2) - 1" by (simp add: lastIdx_def unat_of_nat del: of_nat_diff)
  then have ok: "unat (if ae_LeaderCommit req < lastIdx then ae_LeaderCommit req else lastIdx) < length (nd_log m2)"
    using len(2) by (auto simp: word_less_nat_alt)
  obtain m3 where m3: "applyLog (m2\<lparr>nd_commitIndex := if ae_LeaderCommit req < lastIdx then ae_LeaderCommit req else lastIdx\<rparr>) = (Inr (), m3)"
      "nd_log m3 = nd_log m2" "nd_currentTerm m3 = nd_currentTerm m2"
    by (rule applyLog_total [of "m2\<lparr>nd_commitIndex := if ae_LeaderCommit req < lastIdx then ae_LeaderCommit req else lastIdx\<rparr>"]) (use ok in auto)
  have "AppendEntries marshal req m = (Inr \<lparr>aer_Term = ae_Term req, aer_Success = True\<rparr>, unlock (if nd_commitIndex m2 < ae_LeaderCommit req then m3 else m2))"
    using assms(1) True m1 m3(1) unfolding AppendEntries_def i_def lastIdx_def
    by (cases "ae_LeaderCommit req < of_nat (length (nd_log m2) - 1)")
      (simp_all add: lock_def Let_def m1_def [symmetric] m2_def [unfolded i_def, symmetric])
  then show ?thesis using True m3 m1 by (auto simp: unlock_def m2_def)
qed

definition following :: "RaftNode \<Rightarrow> RaftNode \<Rightarrow> bool" where
  "following n m \<longleftrightarrow> \<not> nd_locked m \<and> nd_currentTerm m \<le> nd_currentTerm n \<and> unat (nd_commitIndex m) < length (nd_log m) \<and>
     length (nd_log m) + length (nd_log n) < 2 ^ 63 \<and> logs_match (nd_log n) (nd_log m)"

lemma beat_round_step:
  assumes lead: "leading p n" and foll: "following n m"
  shows "\<exists>n' m'. beat_round marshal cfg p (n, m) = Some (n', m') \<and> nd_log n' = nd_log n \<and>
    (nd_log m' = nd_log n \<or>
     leading p n' \<and> following n' m' \<and> unat (map_get (nd_nextIndex n') p) < unat (map_get (nd_nextIndex n) p))"
proof -
  let ?x = "map_get (nd_nextIndex n) p" let ?i = "unat ?x - 1"
  obtain req where req: "beat_request p (nd_currentTerm n) n = Inr req" "unat (ae_PrevLogIndex req) = ?i" "ae_Term req = nd_currentTerm n"
      "ae_PrevLogTerm req = le_Term (nd_log n ! ?i)" "ae_Entries req = drop (unat ?x) (nd_log n)"
    using request_prev [OF lead] by blast
  have x: "0 < unat ?x" "unat ?x \<le> length (nd_log n)" using lead by (simp_all add: leading_def)
  have h: "\<not> nd_locked m" "nd_currentTerm m \<le> ae_Term req" "length (nd_log m) + length (ae_Entries req) < 2 ^ 63"
      "unat (nd_commitIndex m) < length (nd_log m)"
    using foll by (auto simp: following_def req(3,5))
  from AppendEntries_result [OF h, of marshal, unfolded req(2-5)] obtain m' ok where
    m': "AppendEntries marshal req m = (Inr \<lparr>aer_Term = nd_currentTerm n, aer_Success = ok\<rparr>, m')" "\<not> nd_locked m'"
      "nd_currentTerm m' = nd_currentTerm n" "ok = (?i < length (nd_log m) \<and> le_Term (nd_log m ! ?i) = le_Term (nd_log n ! ?i))"
      "nd_log m' = (if ok then take (Suc ?i) (nd_log m) @ drop (unat ?x) (nd_log n) else nd_log m)" "\<not> ok \<longrightarrow> nd_commitIndex m' = nd_commitIndex m"
    by blast
  show ?thesis
  proof (cases ok)
    case True
    define n1 where "n1 = n\<lparr>nd_locked := True, nd_matchIndex := (nd_matchIndex n)(p \<mapsto> ae_PrevLogIndex req + of_nat (length (ae_Entries req))),
      nd_nextIndex := (nd_nextIndex n)(p \<mapsto> ae_PrevLogIndex req + of_nat (length (ae_Entries req)) + 1)\<rparr>"
    obtain n' where n': "advanceCommitIndex n1 = (Inr (), n')" "nd_log n' = nd_log n"
      using advance_loop_ok [of "int (length (nd_log n1)) - 1" n1] lead by (auto simp: advanceCommitIndex_def n1_def leading_def)
    have beat: "handle_beat cfg 0 p req \<lparr>aer_Term = nd_currentTerm n, aer_Success = True\<rparr> n = (Inr (), unlock n')"
      using lead n'(1) by (simp add: handle_beat_def lock_def leading_def req(3) Let_def n1_def)
    moreover have "take (Suc ?i) (nd_log n) = take (Suc ?i) (nd_log m)"
      using foll x True m'(4) by (intro logs_matchD) (auto simp: following_def)
    moreover have "Suc ?i = unat ?x" using x(1) by simp
    ultimately have "nd_log m' = nd_log n" using True m'(5) append_take_drop_id [of "unat ?x" "nd_log n"] by metis
    with beat show ?thesis using req(1) m'(1) True n'(2) by (simp add: beat_round_def unlock_def)
  next
    case False
    then have "?i \<noteq> 0" using foll m'(4) by (auto simp: following_def logs_match_def)
    then have x1: "1 < ?x" using x by (simp add: word_less_nat_alt)
    have "?x \<noteq> 0" using x(1) by auto
    then have x2: "unat (?x - 1) = unat ?x - 1" by (simp add: unat_minus_one)
    define n' where "n' = n\<lparr>nd_nextIndex := (nd_nextIndex n)(p \<mapsto> ?x - 1)\<rparr>"
    have "handle_beat cfg 0 p req \<lparr>aer_Term = nd_currentTerm n, aer_Success = False\<rparr> n = (Inr (), n')"
      using lead x1 by (simp add: handle_beat_def raft_lock leading_def req(3) n'_def)
    moreover have "leading p n'" "unat (map_get (nd_nextIndex n') p) < unat ?x"
      using lead x2 \<open>?i \<noteq> 0\<close> by (auto simp: leading_def n'_def map_get_def [of "_(_ \<mapsto> _)"])
    moreover have "following n' m'" using foll m' False by (simp add: following_def n'_def)
    ultimately show ?thesis using req(1) m'(1) False by (auto simp: beat_round_def n'_def)
  qed
qed

lemma catch_up:
  "leading p n \<Longrightarrow> following n m \<Longrightarrow> unat (map_get (nd_nextIndex n) p) \<le> x \<Longrightarrow>
   \<exists>k \<le> x. \<exists>n' m'. beat_rounds marshal cfg p k (n, m) = Some (n', m') \<and> nd_log m' = nd_log n"
proof (induction x arbitrary: n m)
  case 0
  then show ?case by (simp add: leading_def)
next
  case (Suc x)
  obtain n1 m1 where r: "beat_round marshal cfg p (n, m) = Some (n1, m1)" "nd_log n1 = nd_log n"
    "nd_log m1 = nd_log n \<or> leading p n1 \<and> following n1 m1 \<and> unat (map_get (nd_nextIndex n1) p) < unat (map_get (nd_nextIndex n) p)"
    using beat_round_step [OF Suc.prems(1,2)] by blast
  from r(3) show ?case
  proof
    assume "nd_log m1 = nd_log n"
    then show ?thesis using r(1) by (intro exI [of _ "Suc 0"]) simp
  next
    assume a: "leading p n1 \<and> following n1 m1 \<and> unat (map_get (nd_nextIndex n1) p) < unat (map_get (nd_nextIndex n) p)"
    then obtain k n' m' where "k \<le> x" "beat_rounds marshal cfg p k (n1, m1) = Some (n', m')" "nd_log m' = nd_log n1"
      using Suc.IH [of n1 m1] Suc.prems(3) by auto
    then show ?thesis using r(1,2) by (intro exI [of _ "Suc k"]) simp
  qed
qed


abbreviation dummy :: LogEntry where
  "dummy \<equiv> \<lparr>le_Term = 0, le_Index = 0, le_Data = []\<rparr>"

abbreviation entry_at :: "u64 \<Rightarrow> u64 \<Rightarrow> LogEntry" where
  "entry_at t i \<equiv> \<lparr>le_Term = t, le_Index = i, le_Data = [7]\<rparr>"

definition plain_node :: "string \<Rightarrow> State \<Rightarrow> u64 \<Rightarrow> u64 \<Rightarrow> LogEntry list \<Rightarrow> (string \<rightharpoonup> u64) \<Rightarrow> RaftNode" where
  "plain_node c st term commit es nextIdx =
     \<lparr>nd_locked = False, nd_id = c, nd_peers = [''a'', ''b''], nd_state = st, nd_currentTerm = term, nd_votedFor = [], nd_leaseTimeout = 0,
      nd_commitIndex = commit, nd_lastApplied = commit, nd_applyCh = [], nd_electionTimer = None, nd_heartbeatTimer = None,
      nd_wal = NewWriter (good_file []), nd_log = es, nd_nextIndex = nextIdx, nd_matchIndex = Map.empty\<rparr>"

abbreviation pair_cfg :: Config where
  "pair_cfg \<equiv> \<lparr>cfg_ID = ''a'', cfg_Peers = [''a'', ''b''], cfg_ElectionMin = 150, cfg_ElectionMax = 300, cfg_HeartbeatTime = 50, cfg_LeaseDuration = 100\<rparr>"


section \<open>Delayed heartbeats\<close>

text \<open>
  C18. A delayed heartbeat drops committed entries.  The handler cuts the log behind the request's entries even if what
  follows them is newer; a request of the current term that ends before the commit index leaves a log that no longer
  reaches the commit index, and is acknowledged.
\<close>

theorem raft_stale_append_drops_committed:
  assumes "\<not> nd_locked n" "ae_Term req = nd_currentTerm n" "le_Term (nd_log n ! unat (ae_PrevLogIndex req)) = ae_PrevLogTerm req"
    "Suc (unat (ae_PrevLogIndex req)) + length (ae_Entries req) \<le> unat (nd_commitIndex n)" "unat (nd_commitIndex n) < length (nd_log n)"
    "ae_LeaderCommit req \<le> nd_commitIndex n"
  shows "\<exists>n'. AppendEntries marshal req n = (Inr \<lparr>aer_Term = nd_currentTerm n, aer_Success = True\<rparr>, n') \<and>
    nd_commitIndex n' = nd_commitIndex n \<and> length (nd_log n') \<le> unat (nd_commitIndex n')"
  using assms by (auto simp: AppendEntries_def raft_lock Let_def)

theorem raft_stale_append_drops_committed_witness:
  "\<exists>n'. AppendEntries (\<lambda>_. None) \<lparr>ae_Term = 1, ae_LeaderId = ''a'', ae_PrevLogIndex = 0, ae_PrevLogTerm = 0, ae_Entries = [], ae_LeaderCommit = 0\<rparr>
      (plain_node ''b'' Follower 1 1 [dummy, entry_at 1 1] Map.empty) = (Inr \<lparr>aer_Term = 1, aer_Success = True\<rparr>, n') \<and>
    length (nd_log n') \<le> unat (nd_commitIndex n')"
  using raft_stale_append_drops_committed [of "plain_node ''b'' Follower 1 1 [dummy, entry_at 1 1] Map.empty"
      "\<lparr>ae_Term = 1, ae_LeaderId = ''a'', ae_PrevLogIndex = 0, ae_PrevLogTerm = 0, ae_Entries = [], ae_LeaderCommit = 0\<rparr>" "\<lambda>_. None"]
  by (auto simp: plain_node_def)

section \<open>The log file\<close>

lemma append_fits:
  assumes "\<not> w_closed w" "length (w_buf w) + HeaderSize + length r \<le> BlockSize"
  shows "wal_Append w r = (None, w\<lparr>w_buf := w_buf w @ phys_record RecordFull r\<rparr>)"
proof -
  have "\<not> BlockSize - length (w_buf w) < HeaderSize" "\<not> BlockSize - length (w_buf w) - HeaderSize < length r" using assms(2) by auto
  then show ?thesis using assms(1) by (simp add: wal_Append_def append_loop.simps [of w] make_room_def Let_def emitPhysicalRecord_def record_type_def)
qed

lemma rw_AppendEntries_file:
  "length (w_buf w) + (\<Sum>e\<leftarrow>es. HeaderSize + Suc (length (the (marshal e)))) \<le> BlockSize \<Longrightarrow>
   w_file (snd (rw_AppendEntries marshal es w)) = w_file w"
proof (induction es arbitrary: w)
  case (Cons e es)
  show ?case
  proof (cases "marshal e")
    case (Some data)
    show ?thesis
    proof (cases "w_closed w")
      case False
      then have "wal_Append w (1 # data) = (None, w\<lparr>w_buf := w_buf w @ phys_record RecordFull (1 # data)\<rparr>)"
        using Cons.prems Some by (intro append_fits) simp_all
      then show ?thesis using Cons.IH [of "w\<lparr>w_buf := w_buf w @ phys_record RecordFull (1 # data)\<rparr>"] Cons.prems Some by simp
    qed (simp add: Some wal_Append_def)
  qed simp
qed (simp add: rw_Sync_def)

text \<open>
  C19. Acknowledged entries are not on disk.  A node acknowledges entries that fit into the current block of its log
  file without writing anything to the file: neither the handler nor the log's \<^verbatim>\<open>Sync\<close> flushes the block.
\<close>

theorem raft_ack_not_durable:
  assumes "\<not> nd_locked n" "nd_currentTerm n \<le> ae_Term req" "unat (ae_PrevLogIndex req) < length (nd_log n)"
    "le_Term (nd_log n ! unat (ae_PrevLogIndex req)) = ae_PrevLogTerm req" "ae_LeaderCommit req \<le> nd_commitIndex n"
    "length (w_buf (nd_wal n)) + (\<Sum>e\<leftarrow>ae_Entries req. HeaderSize + Suc (length (the (marshal e)))) \<le> BlockSize"
  shows "\<exists>n'. AppendEntries marshal req n = (Inr \<lparr>aer_Term = ae_Term req, aer_Success = True\<rparr>, n') \<and>
    nd_log n' = take (Suc (unat (ae_PrevLogIndex req))) (nd_log n) @ ae_Entries req \<and> w_file (nd_wal n') = w_file (nd_wal n)"
  using assms rw_AppendEntries_file [OF assms(6)]
  by (auto simp: AppendEntries_def raft_lock Let_def stepDown_def SaveState_def not_less order.antisym)

theorem raft_ack_not_durable_witness:
  "\<exists>n'. AppendEntries (\<lambda>e. Some (le_Data e)) \<lparr>ae_Term = 1, ae_LeaderId = ''a'', ae_PrevLogIndex = 0, ae_PrevLogTerm = 0, ae_Entries = [entry_at 1 1],
      ae_LeaderCommit = 0\<rparr> (plain_node ''b'' Follower 1 0 [dummy] Map.empty) = (Inr \<lparr>aer_Term = 1, aer_Success = True\<rparr>, n') \<and>
    nd_log n' = [dummy, entry_at 1 1] \<and> f_data (w_file (nd_wal n')) = []"
  using raft_ack_not_durable [of "plain_node ''b'' Follower 1 0 [dummy] Map.empty" "\<lparr>ae_Term = 1, ae_LeaderId = ''a'', ae_PrevLogIndex = 0,
      ae_PrevLogTerm = 0, ae_Entries = [entry_at 1 1], ae_LeaderCommit = 0\<rparr>" "\<lambda>e. Some (le_Data e)"]
  by (auto simp: plain_node_def NewWriter_def HeaderSize_def BlockSize_def good_file_def)

end
