(* ===== verification/Db.thy ===== *)
theory Db
  imports GroupCommit Manager Lsm
begin

text \<open>
  The database (\<^verbatim>\<open>db.go\<close>, \<^verbatim>\<open>options.go\<close>): the write-ahead log with its group committer, the memtable manager
  and the tree.

  A write holds the database's read lock from its start to its return: it waits for the committer's answer
  and then, if the memtables are full, for the flusher.  The writes in flight are kept in the state, and every
  event is one step of a caller, of a committer, of the flusher or of the compaction; \<^term>\<open>None\<close> means
  that the event cannot happen now.  \<^verbatim>\<open>Manager\<close> keeps the committer it was created with, so the committers are
  kept in a list and referred to by position.  \<open>db_done\<close> and \<open>db_applied\<close> record the results given to the callers
  and the entries applied to the memtables.
\<close>

section \<open>Options\<close>

record Options =
  op_Dir :: string
  op_MemTableSize :: int
  op_WALMaxBatchSize :: int
  op_WALMaxBatchDelay :: int
  op_SyncWrites :: bool
  op_SSTableBlockSize :: int
  op_BloomBitsPerKey :: int
  op_BlockCacheSize :: int
  op_CompactionRateMB :: int
  op_L0StallTrigger :: int

text \<open>Durations are in nanoseconds.\<close>

definition DefaultOptions :: Options where
  "DefaultOptions =
     \<lparr>op_Dir = [], op_MemTableSize = 4 * 1024 * 1024, op_WALMaxBatchSize = 100, op_WALMaxBatchDelay = 10 * 1000000,
      op_SyncWrites = False, op_SSTableBlockSize = 4096, op_BloomBitsPerKey = 10, op_BlockCacheSize = 8 * 1024 * 1024,
      op_CompactionRateMB = 50, op_L0StallTrigger = 12\<rparr>"

definition lsm_options :: "Options \<Rightarrow> LSMOptions" where
  "lsm_options opts =
     \<lparr>lo_BlockSize = op_SSTableBlockSize opts, lo_BloomBitsPerKey = op_BloomBitsPerKey opts, lo_BlockCacheSize = op_BlockCacheSize opts,
      lo_CompactionRateMB = op_CompactionRateMB opts, lo_MinActiveSnapshot = None, lo_L0StallTrigger = op_L0StallTrigger opts\<rparr>"

section \<open>State\<close>

datatype db_error = ErrNotFound | ErrDBClosed | ErrMkdir | ErrFile | ErrWAL wal_error | ErrLSM lsm_error

text \<open>A write in flight: its batch, its request, and what is left to apply once it waits for the flusher.\<close>

record db_call =
  ca_batch :: Batch
  ca_req :: nat
  ca_rest :: "BatchEntry list option"

text \<open>The flusher: idle, writing a table to the tree, or waiting for the lock to rotate the log.\<close>

datatype flush_phase = FlushIdle | Flushing MemTable | Rotating

text \<open>\<open>db_logFile\<close> is the committer whose file has the name \<^verbatim>\<open>wal.log\<close>.\<close>

record DB =
  db_opts :: Options
  db_gcs :: "GroupCommitter list"
  db_gc :: nat
  db_logFile :: "nat option"
  db_mgrGc :: nat
  db_mgr :: Manager
  db_lsm :: LSMTree
  db_closed :: bool
  db_calls :: "db_call list"
  db_flush :: flush_phase
  db_done :: "(Batch \<times> db_error option) list"
  db_applied :: "BatchEntry list"

section \<open>Open\<close>

text \<open>What the database finds: the directory, the outcomes of the calls on it, the manifest and the tables.\<close>

record db_disk =
  dd_mkdir :: bool
  dd_wal :: wal_dir
  dd_recover :: "io_outcome list"
  dd_open :: bool
  dd_script :: "io_outcome list"
  dd_manifest :: osfile
  dd_tables :: "u64 \<Rightarrow> bytes option"

text \<open>Replaying the recovered batches; \<^term>\<open>None\<close> when one of them waits for the flusher, which is not started yet.\<close>

fun replay_batches :: "(nat \<Rightarrow> bool) \<Rightarrow> Batch list \<Rightarrow> Manager \<Rightarrow> Manager option" where
  "replay_batches coin [] m = Some m"
| "replay_batches coin (b # bs) m =
     (case ApplyRecoveredBatch coin b m of
        None \<Rightarrow> None
      | Some (rest, m) \<Rightarrow> if rest = [] then replay_batches coin bs m else None)"

definition new_committer :: "Options \<Rightarrow> osfile \<Rightarrow> GroupCommitter" where
  "new_committer opts f = NewGroupCommitter (NewWriter f) (Some (op_WALMaxBatchSize opts))"

definition Open :: "(nat \<Rightarrow> bool) \<Rightarrow> Options \<Rightarrow> db_disk \<Rightarrow> (db_error + DB) option" where
  "Open coin opts d =
     (if \<not> dd_mkdir d then Some (Inl ErrMkdir)
      else case Recover (dd_wal d) (dd_recover d) of
        (Inl e, _) \<Rightarrow> Some (Inl (ErrWAL e))
      | (Inr res, wd) \<Rightarrow>
          if \<not> dd_open d then Some (Inl ErrFile)
          else case NewLSMTree (lsm_options opts) (dd_manifest d) (dd_tables d) of
                 Inl e \<Rightarrow> Some (Inl (ErrLSM e))
               | Inr l \<Rightarrow>
                   (case replay_batches coin (Batches res) (NewManager (op_MemTableSize opts)) of
                      None \<Rightarrow> None
                    | Some m \<Rightarrow>
                        Some (Inr \<lparr>db_opts = opts,
                                   db_gcs = [new_committer opts \<lparr>f_data = nil_bytes (wd_log wd), f_script = dd_script d\<rparr>],
                                   db_gc = 0, db_logFile = Some 0, db_mgrGc = 0, db_mgr = m, db_lsm = l, db_closed = False,
                                   db_calls = [], db_flush = FlushIdle, db_done = [], db_applied = concat (Batches res)\<rparr>)))"

section \<open>Writes\<close>

abbreviation db_return :: "Batch \<Rightarrow> db_error option \<Rightarrow> DB \<Rightarrow> DB" where
  "db_return b r db \<equiv> db\<lparr>db_done := db_done db @ [(b, r)]\<rparr>"

text \<open>The start of a write: the lock, the closed check, and the request to the manager's committer.\<close>

definition db_WriteBatch :: "Batch \<Rightarrow> DB \<Rightarrow> DB option" where
  "db_WriteBatch b db =
     (if db_flush db = Rotating then None
      else if db_closed db then Some (db_return b (Some ErrDBClosed) db)
      else let gc = db_gcs db ! db_mgrGc db in
        case gc_exec (GcSubmit (batch_Encode b)) gc of
          None \<Rightarrow> None
        | Some gc' \<Rightarrow>
            Some (db\<lparr>db_gcs := (db_gcs db)[db_mgrGc db := gc'],
                     db_calls := db_calls db @ [\<lparr>ca_batch = b, ca_req = gc_next gc, ca_rest = None\<rparr>]\<rparr>))"

text \<open>The same, when the committer has been stopped and the request is refused.\<close>

definition db_refused :: "Batch \<Rightarrow> DB \<Rightarrow> DB option" where
  "db_refused b db =
     (if db_flush db = Rotating \<or> db_closed db then None
      else case gc_exec GcSubmitClosed (db_gcs db ! db_mgrGc db) of
             None \<Rightarrow> None
           | Some gc \<Rightarrow> Some (db_return b (Some (ErrWAL ErrClosed)) db))"

definition db_Put :: "bytes \<Rightarrow> bytes option \<Rightarrow> DB \<Rightarrow> DB option" where
  "db_Put key value db = db_WriteBatch (batch_Put emptyBatch key value) db"

definition db_Delete :: "bytes \<Rightarrow> DB \<Rightarrow> DB option" where
  "db_Delete key db = db_WriteBatch (batch_Delete emptyBatch key) db"

abbreviation drop_call :: "nat \<Rightarrow> DB \<Rightarrow> DB" where
  "drop_call i db \<equiv> db\<lparr>db_calls := take i (db_calls db) @ drop (Suc i) (db_calls db)\<rparr>"

text \<open>Call \<open>i\<close> has applied the entries \<open>es\<close> up to \<open>rest\<close>: it returns, or waits.\<close>

definition db_progress :: "nat \<Rightarrow> BatchEntry list \<Rightarrow> BatchEntry list \<Rightarrow> Manager \<Rightarrow> DB \<Rightarrow> DB" where
  "db_progress i es rest m db =
     (let db1 = db\<lparr>db_mgr := m, db_applied := db_applied db @ take (length es - length rest) es\<rparr> in
      if rest = [] then db_return (ca_batch (db_calls db ! i)) None (drop_call i db1)
      else db1\<lparr>db_calls := (db_calls db)[i := (db_calls db ! i)\<lparr>ca_rest := Some rest\<rparr>]\<rparr>)"

text \<open>The committer's answer reaches call \<open>i\<close>.\<close>

definition db_answer :: "(nat \<Rightarrow> bool) \<Rightarrow> nat \<Rightarrow> DB \<Rightarrow> DB option" where
  "db_answer coin i db =
     (if length (db_calls db) \<le> i \<or> ca_rest (db_calls db ! i) \<noteq> None then None
      else let c = db_calls db ! i in
        case map_of (gc_answers (db_gcs db ! db_mgrGc db)) (ca_req c) of
          None \<Rightarrow> None
        | Some ans \<Rightarrow>
            (case mgr_WriteBatch coin (\<lambda>_. ans) (ca_batch c) (db_mgr db) of
               None \<Rightarrow> None
             | Some (Inl e, m) \<Rightarrow> Some (db_return (ca_batch c) (Some (ErrWAL e)) (drop_call i (db\<lparr>db_mgr := m\<rparr>)))
             | Some (Inr rest, m) \<Rightarrow> Some (db_progress i (ca_batch c) rest m db)))"

text \<open>A waiting call is woken up.\<close>

definition db_resume :: "(nat \<Rightarrow> bool) \<Rightarrow> nat \<Rightarrow> DB \<Rightarrow> DB option" where
  "db_resume coin i db =
     (if length (db_calls db) \<le> i then None
      else case ca_rest (db_calls db ! i) of
             None \<Rightarrow> None
           | Some es \<Rightarrow>
               (case apply_entries coin es (db_mgr db) of
                  None \<Rightarrow> None
                | Some (rest, m) \<Rightarrow> Some (db_progress i es rest m db)))"

section \<open>Flush and rotation\<close>

text \<open>\<open>renamed\<close> is whether the rename succeeds, \<open>f\<close> the new file, if it can be opened.\<close>

definition rotateWAL :: "bool \<Rightarrow> osfile option \<Rightarrow> DB \<Rightarrow> (db_error option \<times> DB) option" where
  "rotateWAL renamed f db = do {
     gc \<leftarrow> gc_exec GcStop (db_gcs db ! db_gc db);
     gc \<leftarrow> gc_exec GcDrain gc;
     let gcs = (db_gcs db)[db_gc db := gc\<lparr>gc_writer := snd (wal_Close (gc_writer gc))\<rparr>];
     Some (if \<not> renamed then (Some ErrFile, db\<lparr>db_gcs := gcs\<rparr>)
           else case f of
                  None \<Rightarrow> (Some ErrFile, db\<lparr>db_gcs := gcs, db_logFile := None\<rparr>)
                | Some f \<Rightarrow>
                    (None, db\<lparr>db_gcs := gcs @ [new_committer (db_opts db) f], db_gc := length gcs,
                              db_logFile := Some (length gcs)\<rparr>)) }"

text \<open>The flusher takes a signal.\<close>

definition flush_start :: "DB \<Rightarrow> DB option" where
  "flush_start db =
     (if db_flush db = FlushIdle \<and> m_flushCh (db_mgr db) then
        Some (db\<lparr>db_mgr := (db_mgr db)\<lparr>m_flushCh := False\<rparr>,
                 db_flush := (case m_immutable (db_mgr db) of None \<Rightarrow> FlushIdle | Some mt \<Rightarrow> Flushing mt)\<rparr>)
      else None)"

text \<open>One attempt of \<^verbatim>\<open>flushFn\<close>: the table goes to the tree; after an error it is tried again.\<close>

definition flush_try :: "cenv \<Rightarrow> i64 option \<Rightarrow> DB \<Rightarrow> DB option" where
  "flush_try env waited db =
     (case db_flush db of
        Flushing mt \<Rightarrow>
          (case lsm_Flush env waited mt (db_lsm db) of
             None \<Rightarrow> None
           | Some (Some e, l) \<Rightarrow> Some (db\<lparr>db_lsm := l\<rparr>)
           | Some (None, l) \<Rightarrow> Some (db\<lparr>db_lsm := l, db_flush := Rotating\<rparr>))
      | _ \<Rightarrow> None)"

text \<open>The rest of \<^verbatim>\<open>flushFn\<close> once no call holds the lock; an error of the rotation is only logged.\<close>

definition flush_end :: "bool \<Rightarrow> osfile option \<Rightarrow> DB \<Rightarrow> DB option" where
  "flush_end renamed f db =
     (if db_flush db = Rotating \<and> db_calls db = [] then
        case rotateWAL renamed f db of
          None \<Rightarrow> None
        | Some (err, db) \<Rightarrow> Some (db\<lparr>db_mgr := (db_mgr db)\<lparr>m_immutable := None\<rparr>, db_flush := FlushIdle\<rparr>)
      else None)"

section \<open>Get and Close\<close>

definition db_Get :: "cenv \<Rightarrow> bytes \<Rightarrow> DB \<Rightarrow> ((db_error + bytes) \<times> DB) option" where
  "db_Get env key db =
     (if db_closed db then Some (Inl ErrDBClosed, db)
      else case mgr_Get key (db_mgr db) of
             None \<Rightarrow> None
           | Some (Some None) \<Rightarrow> Some (Inl ErrNotFound, db)
           | Some (Some (Some v)) \<Rightarrow> Some (Inr v, db)
           | Some None \<Rightarrow>
               (case lsm_Get env key (db_lsm db) of
                  (Inl e, l) \<Rightarrow> Some (Inl (ErrLSM e), db\<lparr>db_lsm := l\<rparr>)
                | (Inr (Some (Some v)), l) \<Rightarrow> Some (Inr v, db\<lparr>db_lsm := l\<rparr>)
                | (Inr _, l) \<Rightarrow> Some (Inl ErrNotFound, db\<lparr>db_lsm := l\<rparr>)))"

text \<open>
  \<^verbatim>\<open>Close\<close> holds the lock while it waits for the flusher, which needs the lock to finish a flush: with a frozen
  table it never returns.
\<close>

definition db_Close :: "DB \<Rightarrow> (db_error option \<times> DB) option" where
  "db_Close db =
     (if db_flush db = Rotating \<or> db_calls db \<noteq> [] then None
      else if db_closed db then Some (Some ErrDBClosed, db)
      else if m_immutable (db_mgr db) \<noteq> None then None
      else do {
        gc \<leftarrow> gc_exec GcStop (db_gcs db ! db_gc db);
        gc \<leftarrow> gc_exec GcDrain gc;
        let (walErr, w) = wal_Close (gc_writer gc);
        (lsmErr, l) \<leftarrow> lsm_Close (db_lsm db);
        Some (case lsmErr of Some e \<Rightarrow> Some (ErrLSM e) | None \<Rightarrow> map_option ErrWAL walErr,
              db\<lparr>db_closed := True, db_gcs := (db_gcs db)[db_gc db := gc\<lparr>gc_writer := w\<rparr>], db_lsm := l\<rparr>) })"

section \<open>Runs\<close>

datatype db_event =
    DbPut bytes "bytes option"
  | DbDelete bytes
  | DbWriteBatch Batch
  | DbRefused Batch
  | DbAnswer nat
  | DbResume nat
  | DbReceive nat       \<comment> \<open>a committer takes a request\<close>
  | DbTimer nat         \<comment> \<open>a committer's delay expires\<close>
  | DbFlushStart
  | DbFlushTry "i64 option"
  | DbFlushEnd bool "osfile option"
  | DbGet bytes
  | DbCompact "rat \<Rightarrow> rat" "nat \<Rightarrow> cenv" "nat \<Rightarrow> i64"
  | DbClose

definition committer_step :: "gc_event \<Rightarrow> nat \<Rightarrow> DB \<Rightarrow> DB option" where
  "committer_step e i db =
     (if i < length (db_gcs db) then
        case gc_exec e (db_gcs db ! i) of None \<Rightarrow> None | Some gc \<Rightarrow> Some (db\<lparr>db_gcs := (db_gcs db)[i := gc]\<rparr>)
      else None)"

fun db_exec :: "(nat \<Rightarrow> bool) \<Rightarrow> cenv \<Rightarrow> db_event \<Rightarrow> DB \<Rightarrow> DB option" where
  "db_exec coin env (DbPut k v) db = db_Put k v db"
| "db_exec coin env (DbDelete k) db = db_Delete k db"
| "db_exec coin env (DbWriteBatch b) db = db_WriteBatch b db"
| "db_exec coin env (DbRefused b) db = db_refused b db"
| "db_exec coin env (DbAnswer i) db = db_answer coin i db"
| "db_exec coin env (DbResume i) db = db_resume coin i db"
| "db_exec coin env (DbReceive i) db = committer_step GcReceive i db"
| "db_exec coin env (DbTimer i) db = committer_step GcTimer i db"
| "db_exec coin env DbFlushStart db = flush_start db"
| "db_exec coin env (DbFlushTry waited) db = flush_try env waited db"
| "db_exec coin env (DbFlushEnd renamed f) db = flush_end renamed f db"
| "db_exec coin env (DbGet k) db =
     (if db_flush db = Rotating then None else case db_Get env k db of None \<Rightarrow> None | Some (r, db) \<Rightarrow> Some db)"
| "db_exec coin env (DbCompact rnd envs durs) db =
     (case compactionLoop rnd envs durs (db_lsm db) of None \<Rightarrow> None | Some l \<Rightarrow> Some (db\<lparr>db_lsm := l\<rparr>))"
| "db_exec coin env DbClose db = (case db_Close db of None \<Rightarrow> None | Some (r, db) \<Rightarrow> Some db)"

end
