(* ===== verification/DbCorrect.thy ===== *)
theory DbCorrect
  imports Db LsmProps
begin

text \<open>
  What the database holds: the memtables over the tree, through writes, flushes and log rotations, and
  what becomes of it when the log is rotated.
\<close>

section \<open>The manager while a flush is under way\<close>

text \<open>The flusher has taken the signal but the frozen table is still there, so the signal is left out of the invariant.\<close>

abbreviation signalled :: "Manager \<Rightarrow> Manager" where
  "signalled m \<equiv> m\<lparr>m_flushCh := True\<rparr>"

lemma mgr_rotate_signalled: "mgr_rotate (signalled m) = mgr_rotate m" "signalled (mgr_rotate m) = mgr_rotate m"
  by (simp_all add: mgr_rotate_def)

lemma apply_entry_signalled:
  "apply_entry coin e (signalled m) = map_option (\<lambda>(b, m). (b, signalled m)) (apply_entry coin e m)"
proof -
  note unf = apply_entry_unfold [of coin e "signalled m"] apply_entry_unfold [of coin e m]
  show ?thesis
  proof (cases "m_immutable m")
    case None
    have eq: "apply_entry coin e (mgr_rotate m) = map_option (\<lambda>(b, m). (b, signalled m)) (apply_entry coin e (mgr_rotate m))"
    proof (cases "apply_entry coin e (mgr_rotate m)")
      case (Some r)
      have "m_flushCh (snd r)"
      proof -
        have "m_immutable (mgr_rotate m) \<noteq> None" "m_flushCh (mgr_rotate m)" by (simp_all add: mgr_rotate_def)
        then show ?thesis using Some by (auto simp: apply_entry_unfold [of coin e "mgr_rotate m"] split: option.splits prod.splits)
      qed
      then show ?thesis using Some by (cases r) simp
    qed simp
    then show ?thesis
      unfolding unf using None
      by (auto simp: mgr_rotate_signalled mgr_rotate_def split: option.splits prod.splits)
  next
    case (Some mt)
    then show ?thesis unfolding unf by (auto split: option.splits prod.splits)
  qed
qed

lemma apply_entries_signalled:
  "apply_entries coin es (signalled m) = map_option (\<lambda>(r, m). (r, signalled m)) (apply_entries coin es m)"
  by (induction es arbitrary: m) (auto simp: apply_entry_signalled split: option.splits prod.splits bool.splits)

lemma apply_entries_keep_immutable:
  "m_immutable m = Some mt \<Longrightarrow> apply_entries coin es m = Some (rest, m') \<Longrightarrow> m_immutable m' = Some mt"
proof (induction es arbitrary: m)
  case (Cons e es)
  have "m_immutable m1 = Some mt" if "apply_entry coin e m = Some (b, m1)" for b m1
    using that Cons.prems(1) by (auto simp: apply_entry_unfold [of coin e m] split: option.splits prod.splits)
  then show ?case using Cons by (auto split: option.splits prod.splits bool.splits)
qed simp

text \<open>The tables hold only entries of a set \<open>S\<close>.\<close>

definition tables_in :: "entry set \<Rightarrow> Manager \<Rightarrow> bool" where
  "tables_in S m \<longleftrightarrow> (\<forall>mt \<in> set (mgr_tables m). \<exists>xs. mt_rep mt xs \<and> set xs \<subseteq> S)"

lemma tables_in_rotate: "tables_in S m \<Longrightarrow> tables_in S (mgr_rotate m)"
proof -
  assume "tables_in S m"
  then obtain xs where "mt_rep (m_active m) xs" "set xs \<subseteq> S" by (auto simp: tables_in_def mgr_tables_def)
  moreover from this have "mt_rep (mt_Freeze (m_active m)) xs" by (simp add: mt_rep_def mt_Freeze_def)
  ultimately show ?thesis using NewMemTable_rep by (force simp: tables_in_def mgr_tables_def mgr_rotate_def)
qed

lemma tables_in_put:
  assumes "tables_in S m" "mt_Put coin k v (m_active m) = Some (err, mt)" "(k, v) \<in> S"
  shows "tables_in S (m\<lparr>m_active := mt\<rparr>)"
proof -
  obtain xs where xs: "mt_rep (m_active m) xs" "set xs \<subseteq> S" using assms(1) by (auto simp: tables_in_def mgr_tables_def)
  have "\<exists>ys. mt_rep mt ys \<and> set ys \<subseteq> S"
    using mt_Put_rep [OF xs(1), of coin k v] assms(2,3) xs ck.set_upd_by [OF mt_rep_asc [OF xs(1)], of k v] by fastforce
  then show ?thesis using assms(1) by (auto simp: tables_in_def mgr_tables_def)
qed

lemma apply_entry_in:
  assumes "tables_in S m" "entry_binding e \<in> S" "apply_entry coin e m = Some (b, m')"
  shows "tables_in S m'"
proof -
  have frozen: "tables_in S m'" if "tables_in S m" "m_immutable m \<noteq> None" "apply_entry coin e m = Some (b, m')" for m
    using that assms(2) tables_in_put [OF that(1)]
    by (auto simp: apply_entry_unfold [of coin e m] prod.collapse split: option.splits)
  show ?thesis
  proof (cases "m_immutable m")
    case None
    obtain err mt where put: "mt_Put coin (fst (entry_binding e)) (snd (entry_binding e)) (m_active m) = Some (err, mt)"
      using assms(3) by (auto simp: apply_entry_unfold [of coin e m] split: option.splits)
    have act: "tables_in S (m\<lparr>m_active := mt\<rparr>)" using tables_in_put [OF assms(1) put] assms(2) by simp
    show ?thesis
    proof (cases err)
      case None
      then show ?thesis using assms(3) put act tables_in_rotate [OF act] \<open>m_immutable m = None\<close>
        by (auto simp: apply_entry_unfold [of coin e m] split: if_splits)
    next
      case (Some x)
      then have "apply_entry coin e (mgr_rotate m) = Some (b, m')"
        using assms(3) put \<open>m_immutable m = None\<close> by (simp add: apply_entry_unfold [of coin e m])
      then show ?thesis using frozen [OF tables_in_rotate [OF assms(1)]] by (simp add: mgr_rotate_def)
    qed
  qed (use frozen assms in simp)
qed

lemma apply_entries_in:
  "tables_in S m \<Longrightarrow> entry_binding ` set es \<subseteq> S \<Longrightarrow> apply_entries coin es m = Some (rest, m') \<Longrightarrow> tables_in S m'"
proof (induction es arbitrary: m)
  case (Cons e es)
  obtain b m1 where m1: "apply_entry coin e m = Some (b, m1)" using Cons.prems(3) by (auto split: option.splits)
  have "tables_in S m1" by (rule apply_entry_in [OF Cons.prems(1) _ m1]) (use Cons.prems(2) in auto)
  then show ?case using Cons m1 by (cases b) auto
qed simp

section \<open>Flushing a memtable to the tree\<close>

lemma weight_in:
  assumes "distinct es" "set es \<subseteq> S" "finite S"
  shows "weight es \<le> sum entry_weight S"
  using assms by (simp add: weight_def sum_list_distinct_conv_sum_set sum_mono2)

lemma lsm_Flush_rep:
  assumes rep: "lsm_rep env l E" and mt: "mt_rep mt es" "set es \<subseteq> S"
    and S: "finite S" "\<forall>e \<in> S. entry_small (ce_blockSize env) e" "sum entry_weight S + 2 ^ 33 < max_alloc"
    and good: "env_good (executor_env (ls_opts l) 0 env)" "f_script (mf_file (ls_manifest l)) = []" "unat (mf_nextFileNum (ls_manifest l)) + 1 < 2 ^ 64"
    and run: "lsm_Flush env waited mt l = Some r"
  shows "\<exists>l' E'. r = (None, l') \<and> lsm_rep env l' E' \<and> ls_opts l' = ls_opts l \<and> f_script (mf_file (ls_manifest l')) = [] \<and>
    unat (mf_nextFileNum (ls_manifest l')) = unat (mf_nextFileNum (ls_manifest l)) + 1 \<and>
    lookup E' (ls_version l') = lookup E (ls_version l) ++ map_of es"
proof -
  define l0 where "l0 = (case waited of None \<Rightarrow> l | Some ms \<Rightarrow> l\<lparr>ls_stats := RecordStall ms (ls_stats l)\<rparr>)"
  have l0: "ls_store l0 = ls_store l" "ls_readers l0 = ls_readers l" "ls_opts l0 = ls_opts l"
    by (simp_all add: l0_def split: option.split)
  then have rep0: "lsm_rep env l0 E" using rep by (simp add: lsm_rep_def)
  have r: "r = flush_run env es l0"
    using run mt_entries_rep [OF mt(1)] by (auto simp: lsm_Flush_def WaitForStall_def l0_def split: if_splits)
  have asc: "asc_by CompareKeys es" by (rule mt_rep_asc [OF mt(1)])
  then have "distinct es" using ck.asc_by_distinct distinct_map by blast
  then have small: "\<forall>e \<in> set es. entry_small (ce_blockSize env) e" "weight es + 2 ^ 33 < max_alloc"
    using weight_in [of es S] mt(2) S by auto
  have num: "unat (mf_nextFileNum (ls_manifest l) + 1) = unat (mf_nextFileNum (ls_manifest l)) + 1"
    using good(3) by (simp add: unat_word_ariths)
  let ?E = "E(mf_nextFileNum (ls_manifest l) := es)"
  obtain l' where l': "flush_run env es l0 = (None, l')" "lsm_rep env l' ?E"
      "\<forall>key. lookup ?E (ls_version l') key = (case map_of es key of None \<Rightarrow> lookup E (ls_version l) key | Some v \<Rightarrow> Some v)"
      "mf_nextFileNum (ls_manifest l') = mf_nextFileNum (ls_manifest l) + 1" "f_script (mf_file (ls_manifest l')) = []" "ls_opts l' = ls_opts l"
    using flush_run_rep [OF rep0, unfolded l0, OF good(1) asc small good(2,3)] by blast
  then show ?thesis unfolding r using num by (intro exI [of _ l'] exI [of _ ?E]) (simp add: map_add_def fun_eq_iff)
qed

section \<open>The invariant\<close>

definition last_write :: "BatchEntry list \<Rightarrow> bytes \<Rightarrow> bytes option option" where
  "last_write es = map_of (rev (map entry_binding es))"

lemma last_write_append: "last_write (es @ fs) = last_write es ++ last_write fs"
  by (simp add: last_write_def)

text \<open>What a call still has to apply is in \<open>S\<close>.\<close>

definition call_in :: "entry set \<Rightarrow> db_call \<Rightarrow> bool" where
  "call_in S c \<longleftrightarrow> entry_binding ` set (case ca_rest c of None \<Rightarrow> ca_batch c | Some es \<Rightarrow> es) \<subseteq> S"

lemma call_in_rest: "entry_binding ` set rest \<subseteq> S \<Longrightarrow> call_in S (c\<lparr>ca_rest := Some rest\<rparr>)"
  by (simp add: call_in_def)

text \<open>
  The memtables over the tree hold the last applied write of every key, and \<open>base\<close> where there was none.  While the flusher waits to rotate the
  log, the frozen table is in the tree already.
\<close>

definition db_state :: "cenv \<Rightarrow> entry set \<Rightarrow> (bytes \<rightharpoonup> bytes option) \<Rightarrow> nat \<Rightarrow> (bytes \<rightharpoonup> bytes option) \<Rightarrow> (u64 \<Rightarrow> entry list) \<Rightarrow> DB \<Rightarrow> bool" where
  "db_state env S base n f E db \<longleftrightarrow>
     mgr_rep (signalled (db_mgr db)) f \<and> tables_in S (db_mgr db) \<and> lsm_rep env (db_lsm db) E \<and>
     env_good (executor_env (ls_opts (db_lsm db)) 0 env) \<and> f_script (mf_file (ls_manifest (db_lsm db))) = [] \<and>
     unat (mf_nextFileNum (ls_manifest (db_lsm db))) \<le> n \<and>
     lookup E (ls_version (db_lsm db)) ++ f = base ++ last_write (db_applied db) \<and>
     (\<forall>c \<in> set (db_calls db). call_in S c) \<and>
     (\<forall>mt. db_flush db = Flushing mt \<longrightarrow> m_immutable (db_mgr db) = Some mt) \<and>
     (db_flush db = Rotating \<longrightarrow> (\<exists>mt ys. m_immutable (db_mgr db) = Some mt \<and> mt_rep mt ys \<and>
        lookup E (ls_version (db_lsm db)) ++ map_of ys = lookup E (ls_version (db_lsm db))))"

definition db_inv :: "cenv \<Rightarrow> entry set \<Rightarrow> (bytes \<rightharpoonup> bytes option) \<Rightarrow> nat \<Rightarrow> DB \<Rightarrow> bool" where
  "db_inv env S base n db \<longleftrightarrow> (\<exists>f E. db_state env S base n f E db)"

lemma db_inv_mono: "db_inv env S base n db \<Longrightarrow> n \<le> n' \<Longrightarrow> db_inv env S base n' db"
  unfolding db_inv_def db_state_def by (blast intro: order_trans)

text \<open>Steps that leave the tables and the calls alone.\<close>

lemma db_inv_frame:
  assumes "db_inv env S base n db" "db_mgr db' = db_mgr db" "db_lsm db' = db_lsm db" "db_applied db' = db_applied db"
    "db_flush db' = db_flush db" "\<forall>c \<in> set (db_calls db'). call_in S c"
  shows "db_inv env S base n db'"
  using assms unfolding db_inv_def db_state_def by metis

lemma db_inv_progress:
  assumes inv: "db_inv env S base n db" and es: "entry_binding ` set es \<subseteq> S" and run: "apply_entries coin es (db_mgr db) = Some (rest, m)"
  shows "db_inv env S base n (db_progress i es rest m db)"
proof -
  obtain f E where f: "mgr_rep (signalled (db_mgr db)) f" "tables_in S (db_mgr db)" and E: "lsm_rep env (db_lsm db) E"
      "env_good (executor_env (ls_opts (db_lsm db)) 0 env)" "f_script (mf_file (ls_manifest (db_lsm db))) = []"
      "unat (mf_nextFileNum (ls_manifest (db_lsm db))) \<le> n"
      "lookup E (ls_version (db_lsm db)) ++ f = base ++ last_write (db_applied db)"
      "\<forall>c \<in> set (db_calls db). call_in S c"
      "\<forall>mt. db_flush db = Flushing mt \<longrightarrow> m_immutable (db_mgr db) = Some mt"
      "db_flush db = Rotating \<longrightarrow> (\<exists>mt ys. m_immutable (db_mgr db) = Some mt \<and> mt_rep mt ys \<and>
           lookup E (ls_version (db_lsm db)) ++ map_of ys = lookup E (ls_version (db_lsm db)))"
    using inv unfolding db_inv_def db_state_def by blast
  obtain before where b: "es = before @ rest" "mgr_rep (signalled m) (fold bind_entry before f)"
    using apply_entries_rep [OF f(1), of coin es] run by (auto simp: apply_entries_signalled)
  let ?db = "db_progress i es rest m db"
  have db': "db_mgr ?db = m" "db_lsm ?db = db_lsm db" "db_flush ?db = db_flush db" "db_applied ?db = db_applied db @ before"
    by (simp_all add: db_progress_def Let_def b(1))
  have "entry_binding ` set rest \<subseteq> S" using es b(1) by auto
  moreover have "set (db_calls ?db) \<subseteq> insert ((db_calls db ! i)\<lparr>ca_rest := Some rest\<rparr>) (set (db_calls db))"
    using set_update_subset_insert [of "db_calls db" i] set_take_subset [of i "db_calls db"] set_drop_subset [of "Suc i" "db_calls db"]
    by (simp add: db_progress_def Let_def) blast
  ultimately have calls: "\<forall>c \<in> set (db_calls ?db). call_in S c"
    using E(6) call_in_rest by blast
  have val: "lookup E (ls_version (db_lsm db)) ++ fold bind_entry before f = base ++ last_write (db_applied db @ before)"
    unfolding fold_bind_entry last_write_append map_add_assoc E(5) by (simp add: last_write_def)
  show ?thesis
    unfolding db_inv_def db_state_def db'
    using b(2) apply_entries_in [OF f(2) es run] E(1-4) val calls E(7,8) apply_entries_keep_immutable [OF _ run] by blast
qed

lemma db_inv_call:
  assumes "db_inv env S base n db" "i < length (db_calls db)"
  shows "call_in S (db_calls db ! i)"
  using assms unfolding db_inv_def db_state_def by (metis nth_mem)

lemma db_inv_drop: "db_inv env S base n db \<Longrightarrow> \<forall>c \<in> set (take i (db_calls db) @ drop j (db_calls db)). call_in S c"
  unfolding db_inv_def db_state_def by (metis Un_iff in_set_dropD in_set_takeD set_append)

lemma db_inv_calls: "db_inv env S base n db \<Longrightarrow> \<forall>c \<in> set (db_calls db). call_in S c"
  unfolding db_inv_def db_state_def by blast

lemma db_inv_write:
  assumes "db_inv env S base n db" "db_WriteBatch b db = Some db'" "entry_binding ` set b \<subseteq> S"
  shows "db_inv env S base n db'"
  using assms(2,3) db_inv_calls [OF assms(1)]
  by (intro db_inv_frame [OF assms(1)]) (auto simp: db_WriteBatch_def Let_def call_in_def [of _ "\<lparr>ca_batch = b, ca_req = _, ca_rest = _\<rparr>"] split: if_splits option.splits)

lemma db_inv_answer:
  assumes "db_inv env S base n db" "db_answer coin i db = Some db'"
  shows "db_inv env S base n db'"
proof -
  let ?c = "db_calls db ! i"
  obtain ans r m where i: "i < length (db_calls db)" "ca_rest ?c = None" and
    a: "mgr_WriteBatch coin (\<lambda>_. ans) (ca_batch ?c) (db_mgr db) = Some (r, m)" and
    db': "db' = (case r of Inl e \<Rightarrow> db_return (ca_batch ?c) (Some (ErrWAL e)) (drop_call i (db\<lparr>db_mgr := m\<rparr>))
                  | Inr rest \<Rightarrow> db_progress i (ca_batch ?c) rest m db)"
    using assms(2) by (auto simp: db_answer_def Let_def split: if_splits option.splits sum.splits)
  show ?thesis
  proof (cases r)
    case (Inl e)
    then have "m = db_mgr db" using a by (auto simp: mgr_WriteBatch_def split: option.splits)
    then show ?thesis using Inl db' db_inv_drop [OF assms(1)] by (intro db_inv_frame [OF assms(1)]) simp_all
  next
    case (Inr rest)
    then have run: "apply_entries coin (ca_batch ?c) (db_mgr db) = Some (rest, m)" using a by (auto simp: mgr_WriteBatch_def split: option.splits)
    have "entry_binding ` set (ca_batch ?c) \<subseteq> S" using db_inv_call [OF assms(1) i(1)] i(2) by (simp add: call_in_def)
    then show ?thesis using db_inv_progress [OF assms(1) _ run] Inr db' by simp
  qed
qed

lemma db_inv_resume:
  assumes "db_inv env S base n db" "db_resume coin i db = Some db'"
  shows "db_inv env S base n db'"
proof -
  obtain es rest m where i: "i < length (db_calls db)" "ca_rest (db_calls db ! i) = Some es"
      "apply_entries coin es (db_mgr db) = Some (rest, m)" "db' = db_progress i es rest m db"
    using assms(2) by (auto simp: db_resume_def split: if_splits option.splits)
  have "entry_binding ` set es \<subseteq> S" using db_inv_call [OF assms(1) i(1)] i(2) by (simp add: call_in_def)
  then show ?thesis using db_inv_progress [OF assms(1) _ i(3)] i(4) by simp
qed

lemma tables_in_signal [simp]: "tables_in S (m\<lparr>m_flushCh := b\<rparr>) = tables_in S m"
  by (simp add: tables_in_def mgr_tables_def)

lemma db_inv_flush_start:
  assumes "db_inv env S base n db" "flush_start db = Some db'"
  shows "db_inv env S base n db'"
proof -
  obtain f E where "db_state env S base n f E db" using assms(1) by (auto simp: db_inv_def)
  then have "db_state env S base n f E db'" using assms(2) by (auto simp: db_state_def flush_start_def split: if_splits option.splits)
  then show ?thesis by (auto simp: db_inv_def)
qed

lemma db_inv_flush_try:
  assumes inv: "db_inv env S base n db" and run: "flush_try env waited db = Some db'" and n: "Suc n < 2 ^ 64"
    and S: "finite S" "\<forall>e \<in> S. entry_small (ce_blockSize env) e" "sum entry_weight S + 2 ^ 33 < max_alloc"
  shows "db_inv env S base (Suc n) db'"
proof -
  obtain f E where f: "mgr_rep (signalled (db_mgr db)) f" "tables_in S (db_mgr db)" and E: "lsm_rep env (db_lsm db) E"
      "env_good (executor_env (ls_opts (db_lsm db)) 0 env)" "f_script (mf_file (ls_manifest (db_lsm db))) = []"
      "unat (mf_nextFileNum (ls_manifest (db_lsm db))) \<le> n"
      "lookup E (ls_version (db_lsm db)) ++ f = base ++ last_write (db_applied db)"
      "\<forall>c \<in> set (db_calls db). call_in S c"
      "\<forall>mt. db_flush db = Flushing mt \<longrightarrow> m_immutable (db_mgr db) = Some mt"
    using inv unfolding db_inv_def db_state_def by blast
  obtain mt r where mt: "db_flush db = Flushing mt" "lsm_Flush env waited mt (db_lsm db) = Some r"
    using run by (auto simp: flush_try_def split: flush_phase.splits option.splits)
  have imm: "m_immutable (db_mgr db) = Some mt" using E(7) mt(1) by simp
  obtain ys where ys: "mt_rep mt ys" "set ys \<subseteq> S" using f(2) imm by (auto simp: tables_in_def mgr_tables_def)
  have num: "unat (mf_nextFileNum (ls_manifest (db_lsm db))) + 1 < 2 ^ 64" using E(4) n by linarith
  from lsm_Flush_rep [OF E(1) ys S E(2,3) num mt(2)] obtain l E' where l: "r = (None, l)" "lsm_rep env l E'" "ls_opts l = ls_opts (db_lsm db)"
      "f_script (mf_file (ls_manifest l)) = []" "unat (mf_nextFileNum (ls_manifest l)) = unat (mf_nextFileNum (ls_manifest (db_lsm db))) + 1"
      "lookup E' (ls_version l) = lookup E (ls_version (db_lsm db)) ++ map_of ys"
    by blast
  have db': "db' = db\<lparr>db_lsm := l, db_flush := Rotating\<rparr>" using run mt l(1) by (simp add: flush_try_def)
  obtain h xs where h: "f = h ++ map_of xs" "h = map_of ys"
  proof -
    obtain h xs where "tables_rep [mt] h" "f = h ++ map_of xs"
      using f(1) imm by (auto simp: mgr_rep_def mgr_tables_def tables_rep_snoc [of "[mt]" "m_active _", simplified])
    moreover from this obtain zs where "mt_rep mt zs" "h = map_of zs" using tables_rep_snoc [of "[]" mt h] by auto
    moreover have "zs = ys" using mt_entries_rep [OF ys(1)] mt_entries_rep [OF \<open>mt_rep mt zs\<close>] by simp
    ultimately show thesis using that by blast
  qed
  have idem: "g ++ map_of ys ++ map_of ys = g ++ map_of ys" for g :: "bytes \<rightharpoonup> bytes option"
    by (auto simp: map_add_def split: option.splits)
  have "lookup E' (ls_version l) ++ f = base ++ last_write (db_applied db)"
    unfolding l(6) E(5) [symmetric] h by (simp add: idem)
  moreover have "unat (mf_nextFileNum (ls_manifest l)) \<le> Suc n" using l(5) E(4) by simp
  moreover have "lookup E' (ls_version l) ++ map_of ys = lookup E' (ls_version l)" unfolding l(6) by (rule idem)
  ultimately have "db_state env S base (Suc n) f E' db'" unfolding db_state_def db' using f l(2,3,4) E(2,6) imm ys(1) by auto
  then show ?thesis by (auto simp: db_inv_def)
qed

lemma rotateWAL_tables:
  "rotateWAL renamed f db = Some (err, db') \<Longrightarrow>
     db_mgr db' = db_mgr db \<and> db_lsm db' = db_lsm db \<and> db_applied db' = db_applied db \<and> db_calls db' = db_calls db \<and>
     db_flush db' = db_flush db \<and> db_done db' = db_done db \<and> db_mgrGc db' = db_mgrGc db \<and> db_closed db' = db_closed db"
  by (auto simp: rotateWAL_def Let_def split: if_splits option.splits bind_splits)

lemma mgr_rep_split:
  assumes "mgr_rep (signalled m) f" "m_immutable m = Some mt" "mt_rep mt ys"
  obtains xs where "f = map_of ys ++ map_of xs" "mgr_rep (signalled (m\<lparr>m_immutable := None\<rparr>)) (map_of xs)"
proof -
  obtain h xs where h: "tables_rep [mt] h" "mt_rep (m_active m) xs" "f = h ++ map_of xs"
    using assms(1,2) by (auto simp: mgr_rep_def mgr_tables_def tables_rep_snoc [of "[mt]" "m_active _", simplified])
  obtain zs where zs: "mt_rep mt zs" "h = map_of zs" using h(1) tables_rep_snoc [of "[]" mt h] by auto
  have "zs = ys" using mt_entries_rep [OF assms(3)] mt_entries_rep [OF zs(1)] by simp
  moreover have "mgr_rep (signalled (m\<lparr>m_immutable := None\<rparr>)) (map_of xs)"
    using assms(1) h(2) tables_rep_snoc [of "[]" "m_active m" "map_of xs"] by (auto simp: mgr_rep_def mgr_tables_def)
  ultimately show thesis using that h(3) zs(2) by simp
qed

lemma db_inv_flush_end:
  assumes "db_inv env S base n db" "flush_end renamed file db = Some db'"
  shows "db_inv env S base n db'"
proof -
  obtain f E where st: "db_state env S base n f E db" using assms(1) by (auto simp: db_inv_def)
  obtain err db1 where r: "db_flush db = Rotating" "db_calls db = []" "rotateWAL renamed file db = Some (err, db1)"
      "db' = db1\<lparr>db_mgr := (db_mgr db1)\<lparr>m_immutable := None\<rparr>, db_flush := FlushIdle\<rparr>"
    using assms(2) by (auto simp: flush_end_def split: if_splits option.splits)
  note same = rotateWAL_tables [OF r(3)]
  obtain mt ys where mt: "m_immutable (db_mgr db) = Some mt" "mt_rep mt ys"
      "lookup E (ls_version (db_lsm db)) ++ map_of ys = lookup E (ls_version (db_lsm db))"
    using st r(1) by (auto simp: db_state_def)
  have rep: "mgr_rep (signalled (db_mgr db)) f" using st by (simp add: db_state_def)
  obtain xs where xs: "f = map_of ys ++ map_of xs" "mgr_rep (signalled ((db_mgr db)\<lparr>m_immutable := None\<rparr>)) (map_of xs)"
    by (rule mgr_rep_split [OF rep mt(1,2)])
  have "lookup E (ls_version (db_lsm db)) ++ map_of xs = base ++ last_write (db_applied db)"
    using st mt(3) by (simp add: db_state_def xs(1) map_add_assoc)
  moreover have "tables_in S ((db_mgr db)\<lparr>m_immutable := None\<rparr>)" using st by (auto simp: db_state_def tables_in_def mgr_tables_def)
  ultimately have "db_state env S base n (map_of xs) E db'"
    using st xs(2) same r(2,4) by (simp add: db_state_def)
  then show ?thesis by (auto simp: db_inv_def)
qed

lemma mgr_Get_signalled: "mgr_Get key (signalled m) = mgr_Get key m"
  by (simp add: mgr_Get_def cong: option.case_cong)

lemma lsm_Get_state:
  "lsm_Get env key l = (r, l') \<Longrightarrow> ls_manifest l' = ls_manifest l \<and> ls_opts l' = ls_opts l"
  by (auto simp: lsm_Get_def get_version_def split: prod.splits)

lemma db_Get_state:
  assumes st: "db_state env S base n f E db" and "\<not> db_closed db"
  shows "\<exists>db'. db_Get env key db =
      Some (case (base ++ last_write (db_applied db)) key of Some (Some v) \<Rightarrow> Inr v | _ \<Rightarrow> Inl ErrNotFound, db') \<and> db_state env S base n f E db' \<and>
    db_applied db' = db_applied db"
proof -
  have rep: "mgr_rep (signalled (db_mgr db)) f" and l: "lsm_rep env (db_lsm db) E"
    and val: "base ++ last_write (db_applied db) = lookup E (ls_version (db_lsm db)) ++ f" using st by (simp_all add: db_state_def)
  have m: "mgr_Get key (db_mgr db) = Some (f key)" using mgr_Get_rep [OF rep, of key] by (simp add: mgr_Get_signalled)
  obtain l' where l': "lsm_Get env key (db_lsm db) = (Inr (lookup E (ls_version (db_lsm db)) key), l')" "lsm_rep env l' E"
    using lsm_Get_rep [OF l] by blast
  have "db_state env S base n f E (db\<lparr>db_lsm := l'\<rparr>)"
    using st l'(2) lsm_Get_state [OF l'(1)] by (simp add: db_state_def)
  with st show ?thesis
    using assms(2) m l'(1) unfolding val by (auto simp: db_Get_def map_add_def split: option.splits)
qed

lemma db_inv_Get:
  assumes "db_inv env S base n db" "db_Get env key db = Some (r, db')"
  shows "db_inv env S base n db'"
proof (cases "db_closed db")
  case False
  obtain f E where st: "db_state env S base n f E db" using assms(1) by (auto simp: db_inv_def)
  then show ?thesis using db_Get_state [OF st False, of key] assms(2) by (auto simp: db_inv_def)
qed (use assms in \<open>simp add: db_Get_def\<close>)

lemma lsm_rep_cong:
  "ls_store l' = ls_store l \<Longrightarrow> ls_readers l' = ls_readers l \<Longrightarrow> ls_opts l' = ls_opts l \<Longrightarrow> lsm_rep env l' E = lsm_rep env l E"
  by (simp add: lsm_rep_def)

lemma db_inv_Close:
  assumes "db_inv env S base n db" "db_Close db = Some (r, db')"
  shows "db_inv env S base n db'"
proof -
  obtain f E where st: "db_state env S base n f E db" using assms(1) by (auto simp: db_inv_def)
  then have good: "f_script (mf_file (ls_manifest (db_lsm db))) = []" by (simp add: db_state_def)
  have "db_mgr db' = db_mgr db \<and> db_applied db' = db_applied db \<and> db_flush db' = db_flush db \<and> db_calls db' = db_calls db \<and>
      ls_store (db_lsm db') = ls_store (db_lsm db) \<and> ls_readers (db_lsm db') = ls_readers (db_lsm db) \<and> ls_opts (db_lsm db') = ls_opts (db_lsm db)"
    using assms(2) good by (auto simp: db_Close_def lsm_Close_def split: if_splits bind_splits prod.splits)
  then have "db_state env S base n f E db'" using st lsm_rep_cong [of "db_lsm db'" "db_lsm db" env E] by (simp add: db_state_def)
  then show ?thesis by (auto simp: db_inv_def)
qed

text \<open>The entries a call brings in.\<close>

fun event_entries :: "db_event \<Rightarrow> BatchEntry list" where
  "event_entries (DbPut k v) = batch_Put emptyBatch k v"
| "event_entries (DbDelete k) = batch_Delete emptyBatch k"
| "event_entries (DbWriteBatch b) = b"
| "event_entries _ = []"

fun compacts :: "db_event \<Rightarrow> bool" where
  "compacts (DbCompact rnd envs durs) = True"
| "compacts _ = False"

lemma db_inv_exec:
  assumes inv: "db_inv env S base n db" and run: "db_exec coin env e db = Some db'" and e: "\<not> compacts e" "entry_binding ` set (event_entries e) \<subseteq> S"
    and n: "Suc n < 2 ^ 64"
    and S: "finite S" "\<forall>e \<in> S. entry_small (ce_blockSize env) e" "sum entry_weight S + 2 ^ 33 < max_alloc"
  shows "db_inv env S base (Suc n) db'"
proof -
  have up: "db_inv env S base (Suc n) db'" if "db_inv env S base n db'" using that by (rule db_inv_mono) simp
  show ?thesis
  proof (cases e)
    case (DbFlushTry waited)
    then show ?thesis using db_inv_flush_try [OF inv _ n S] run by simp
  next
    case (DbCompact rnd envs durs)
    then show ?thesis using e(1) by simp
  next
    case (DbRefused b)
    then have "db_inv env S base n db'"
      using run db_inv_calls [OF inv] by (intro db_inv_frame [OF inv]) (auto simp: db_refused_def split: if_splits option.splits)
    then show ?thesis by (rule up)
  next
    case (DbReceive i)
    then have "db_inv env S base n db'"
      using run db_inv_calls [OF inv] by (intro db_inv_frame [OF inv]) (auto simp: committer_step_def split: if_splits option.splits)
    then show ?thesis by (rule up)
  next
    case (DbTimer i)
    then have "db_inv env S base n db'"
      using run db_inv_calls [OF inv] by (intro db_inv_frame [OF inv]) (auto simp: committer_step_def split: if_splits option.splits)
    then show ?thesis by (rule up)
  qed (use run e(2) db_inv_write [OF inv] db_inv_answer [OF inv] db_inv_resume [OF inv] db_inv_flush_start [OF inv] db_inv_flush_end [OF inv]
      db_inv_Get [OF inv] db_inv_Close [OF inv] in
    \<open>auto simp: db_Put_def db_Delete_def split: if_splits option.splits intro!: up\<close>)
qed

lemma db_inv_run:
  assumes "db_inv env S base n db" "run_opt (db_exec coin env) es db = Some db'" "\<forall>e \<in> set es. \<not> compacts e"
    "entry_binding ` set (concat (map event_entries es)) \<subseteq> S" "n + length es < 2 ^ 64 - 1"
    and S: "finite S" "\<forall>e \<in> S. entry_small (ce_blockSize env) e" "sum entry_weight S + 2 ^ 33 < max_alloc"
  shows "db_inv env S base (n + length es) db'"
  using assms(1-5)
proof (induction es arbitrary: n db)
  case (Cons e es)
  obtain db1 where db1: "db_exec coin env e db = Some db1" "run_opt (db_exec coin env) es db1 = Some db'"
    using Cons.prems(2) by (auto split: option.splits)
  have "db_inv env S base (Suc n) db1" using db_inv_exec [OF Cons.prems(1) db1(1) _ _ _ S] Cons.prems(3-5) by auto
  from Cons.IH [OF this db1(2)] Cons.prems(3-5) show ?case by auto
qed simp

end
