(* ===== verification/DbProps.thy ===== *)
theory DbProps
  imports DbCorrect LsmProps
begin

text \<open>
  The properties of the database as a whole: reads see the last write through memtables, flushes and the tree,
  and what the rotation of the log does to later writes, to concurrent writes and to the data it covers.
\<close>

section \<open>Opening\<close>

lemma replay_batches_rep:
  "mgr_rep m f \<Longrightarrow> tables_in S m \<Longrightarrow> entry_binding ` set (concat bs) \<subseteq> S \<Longrightarrow> replay_batches coin bs m = Some m' \<Longrightarrow>
   mgr_rep m' (fold bind_entry (concat bs) f) \<and> tables_in S m'"
proof (induction bs arbitrary: m f)
  case (Cons b bs)
  obtain m1 where m1: "apply_entries coin b m = Some ([], m1)" "replay_batches coin bs m1 = Some m'"
    using Cons.prems(4) by (auto simp: ApplyRecoveredBatch_def split: option.splits prod.splits if_splits)
  have "mgr_rep m1 (fold bind_entry b f)" using apply_entries_rep [OF Cons.prems(1), of coin b] m1(1) by auto
  moreover have "tables_in S m1" using apply_entries_in [OF Cons.prems(2) _ m1(1)] Cons.prems(3) by auto
  ultimately show ?case using Cons.IH [OF _ _ _ m1(2)] Cons.prems(3) by auto
qed simp

lemma Open_InrE:
  assumes "Open coin opts d = Some (Inr db)"
  obtains res wd l m where "Recover (dd_wal d) (dd_recover d) = (Inr res, wd)" "NewLSMTree (lsm_options opts) (dd_manifest d) (dd_tables d) = Inr l"
    "replay_batches coin (Batches res) (NewManager (op_MemTableSize opts)) = Some m"
    "db = \<lparr>db_opts = opts, db_gcs = [new_committer opts \<lparr>f_data = nil_bytes (wd_log wd), f_script = dd_script d\<rparr>],
       db_gc = 0, db_logFile = Some 0, db_mgrGc = 0, db_mgr = m, db_lsm = l, db_closed = False,
       db_calls = [], db_flush = FlushIdle, db_done = [], db_applied = concat (Batches res)\<rparr>"
proof -
  obtain res wd where r: "Recover (dd_wal d) (dd_recover d) = (Inr res, wd)"
    using assms by (auto simp: Open_def split: if_splits prod.splits sum.splits)
  obtain l m where "NewLSMTree (lsm_options opts) (dd_manifest d) (dd_tables d) = Inr l"
      "replay_batches coin (Batches res) (NewManager (op_MemTableSize opts)) = Some m"
    using assms r by (auto simp: Open_def split: if_splits sum.splits option.splits)
  then show thesis using that r assms by (simp add: Open_def split: if_splits)
qed

lemma Open_inv:
  assumes "Open coin opts d = Some (Inr db)" "NewLSMTree (lsm_options opts) (dd_manifest d) (dd_tables d) = Inr l" "lsm_rep env l E"
    "env_good (executor_env (lsm_options opts) 0 env)" "f_script (mf_file (ls_manifest l)) = []" "entry_binding ` set (db_applied db) \<subseteq> S"
  shows "db_inv env S (lookup E (ls_version l)) (unat (mf_nextFileNum (ls_manifest l))) db"
proof -
  obtain res wd l' m where o: "Recover (dd_wal d) (dd_recover d) = (Inr res, wd)"
      "NewLSMTree (lsm_options opts) (dd_manifest d) (dd_tables d) = Inr l'"
      "replay_batches coin (Batches res) (NewManager (op_MemTableSize opts)) = Some m"
      "db = \<lparr>db_opts = opts, db_gcs = [new_committer opts \<lparr>f_data = nil_bytes (wd_log wd), f_script = dd_script d\<rparr>],
         db_gc = 0, db_logFile = Some 0, db_mgrGc = 0, db_mgr = m, db_lsm = l', db_closed = False,
         db_calls = [], db_flush = FlushIdle, db_done = [], db_applied = concat (Batches res)\<rparr>"
    by (rule Open_InrE [OF assms(1)])
  then have r: "replay_batches coin (Batches res) (NewManager (op_MemTableSize opts)) = Some m"
      "db_mgr db = m" "db_lsm db = l" "db_calls db = []" "db_flush db = FlushIdle" "db_applied db = concat (Batches res)"
    using assms(2) by simp_all
  have "tables_in S (NewManager (op_MemTableSize opts))"
    using NewMemTable_rep by (force simp: tables_in_def mgr_tables_def NewManager_def)
  then have m: "mgr_rep m (fold bind_entry (concat (Batches res)) Map.empty)" "tables_in S m"
    using replay_batches_rep [OF NewManager_rep _ _ r(1)] assms(6) r(6) by auto
  have "mgr_rep (signalled m) (last_write (db_applied db))"
    using m(1) by (simp add: mgr_rep_def mgr_tables_def fold_bind_entry last_write_def r(6))
  moreover have "ls_opts l = lsm_options opts" using assms(2) by (auto simp: NewLSMTree_def split: sum.splits)
  ultimately show ?thesis
    using m(2) assms(3-5) r(2-6)
    by (auto simp: db_inv_def db_state_def intro!: exI [of _ "last_write (db_applied db)"] exI [of _ E] simp del: executor_env_simps)
qed

section \<open>Reads\<close>

text \<open>Acknowledged batches are applied.\<close>

definition acked_applied :: "DB \<Rightarrow> bool" where
  "acked_applied db \<longleftrightarrow> (\<forall>b. (b, None) \<in> set (db_done db) \<longrightarrow> set b \<subseteq> set (db_applied db)) \<and>
     (\<forall>c \<in> set (db_calls db). \<forall>es. ca_rest c = Some es \<longrightarrow> set (ca_batch c) \<subseteq> set (db_applied db) \<union> set es)"

lemma apply_entries_suffix: "apply_entries coin es m = Some (rest, m') \<Longrightarrow> \<exists>before. es = before @ rest"
proof (induction es arbitrary: m)
  case (Cons e es)
  then show ?case by (fastforce split: option.splits prod.splits bool.splits)
qed simp

lemma acked_progress:
  assumes "acked_applied db" "apply_entries coin es (db_mgr db) = Some (rest, m)" "i < length (db_calls db)"
    "ca_rest (db_calls db ! i) = None \<and> es = ca_batch (db_calls db ! i) \<or> ca_rest (db_calls db ! i) = Some es"
  shows "acked_applied (db_progress i es rest m db)"
proof -
  let ?c = "db_calls db ! i"
  obtain before where b: "es = before @ rest" using apply_entries_suffix [OF assms(2)] by blast
  have c: "set (ca_batch ?c) \<subseteq> set (db_applied db) \<union> set es"
    using assms(1,4) nth_mem [OF assms(3)] unfolding acked_applied_def by auto
  have calls: "d \<in> set (db_calls db) \<or> d = ?c\<lparr>ca_rest := Some rest\<rparr>" if "d \<in> set (db_calls (db_progress i es rest m db))" for d
  proof (cases "rest = []")
    case True
    with that show ?thesis by (auto simp: db_progress_def Let_def dest: in_set_takeD in_set_dropD)
  next
    case False
    with that show ?thesis
      using set_update_subset_insert [of "db_calls db" i "?c\<lparr>ca_rest := Some rest\<rparr>"] by (auto simp: db_progress_def Let_def)
  qed
  have app: "db_applied (db_progress i es rest m db) = db_applied db @ before" by (simp add: db_progress_def Let_def b)
  have dn: "b' = ca_batch ?c \<and> rest = [] \<or> (b', None) \<in> set (db_done db)" if "(b', None) \<in> set (db_done (db_progress i es rest m db))" for b'
    using that by (auto simp: db_progress_def Let_def split: if_splits)
  show ?thesis
    unfolding acked_applied_def app
  proof (intro conjI allI impI ballI)
    fix b' assume "(b', None) \<in> set (db_done (db_progress i es rest m db))"
    from dn [OF this] show "set b' \<subseteq> set (db_applied db @ before)" using c assms(1) by (auto simp: acked_applied_def b)
  next
    fix d zs assume d: "d \<in> set (db_calls (db_progress i es rest m db))" "ca_rest d = Some zs"
    from calls [OF d(1)] show "set (ca_batch d) \<subseteq> set (db_applied db @ before) \<union> set zs"
    proof
      assume "d \<in> set (db_calls db)"
      with d(2) assms(1) have "set (ca_batch d) \<subseteq> set (db_applied db) \<union> set zs" unfolding acked_applied_def by blast
      then show ?thesis by auto
    next
      assume "d = ?c\<lparr>ca_rest := Some rest\<rparr>"
      then show ?thesis using c d(2) by (auto simp: b)
    qed
  qed
qed

lemma acked_frame:
  assumes "acked_applied db" "db_applied db' = db_applied db" "set (db_calls db') \<subseteq> set (db_calls db) \<union> {c. ca_rest c = None}"
    "\<forall>b. (b, None) \<in> set (db_done db') \<longrightarrow> (b, None) \<in> set (db_done db)"
  shows "acked_applied db'"
  using assms unfolding acked_applied_def by (simp add: subset_iff) (metis option.distinct(1))

lemma db_Get_frame: "db_Get env k db = Some (r, db') \<Longrightarrow> \<exists>l. db' = db\<lparr>db_lsm := l\<rparr>"
  by (cases "mgr_Get k (db_mgr db)"; cases "lsm_Get env k (db_lsm db)")
    (auto simp: db_Get_def split: if_splits option.splits sum.splits intro: exI [of _ "db_lsm db"])

lemma acked_start:
  assumes acked: "acked_applied db" and run: "db_WriteBatch b db = Some db'"
  shows "acked_applied db'"
  using run by (intro acked_frame [OF acked]) (auto simp: db_WriteBatch_def Let_def split: if_splits option.splits)

lemma acked_exec:
  assumes acked: "acked_applied db" and run: "db_exec coin env e db = Some db'"
  shows "acked_applied db'"
proof (cases e)
  case (DbAnswer i)
  let ?c = "db_calls db ! i"
  obtain ans r m where i: "i < length (db_calls db)" "ca_rest ?c = None" and
    a: "mgr_WriteBatch coin (\<lambda>_. ans) (ca_batch ?c) (db_mgr db) = Some (r, m)" and
    db': "db' = (case r of Inl e \<Rightarrow> db_return (ca_batch ?c) (Some (ErrWAL e)) (drop_call i (db\<lparr>db_mgr := m\<rparr>))
                  | Inr rest \<Rightarrow> db_progress i (ca_batch ?c) rest m db)"
    using run DbAnswer by (auto simp: db_answer_def Let_def split: if_splits option.splits sum.splits)
  show ?thesis
  proof (cases r)
    case (Inl x)
    then show ?thesis unfolding db' by (intro acked_frame [OF acked]) (auto dest: in_set_takeD in_set_dropD)
  next
    case (Inr rest)
    then have "apply_entries coin (ca_batch ?c) (db_mgr db) = Some (rest, m)" using a by (auto simp: mgr_WriteBatch_def split: option.splits)
    from acked_progress [OF acked this i(1)] show ?thesis using i(2) Inr db' by simp
  qed
next
  case (DbResume i)
  then obtain es rest m where i: "i < length (db_calls db)" "ca_rest (db_calls db ! i) = Some es"
      "apply_entries coin es (db_mgr db) = Some (rest, m)" "db' = db_progress i es rest m db"
    using run by (auto simp: db_resume_def split: if_splits option.splits)
  then show ?thesis using acked_progress [OF acked i(3,1)] by simp
next
  case (DbFlushEnd renamed f)
  then obtain err db1 where "rotateWAL renamed f db = Some (err, db1)" "db' = db1\<lparr>db_mgr := (db_mgr db1)\<lparr>m_immutable := None\<rparr>, db_flush := FlushIdle\<rparr>"
    using run by (auto simp: flush_end_def split: if_splits option.splits)
  then show ?thesis using rotateWAL_tables by (intro acked_frame [OF acked]) auto
next
  case DbClose
  then show ?thesis
    using run by (intro acked_frame [OF acked]) (auto simp: db_Close_def split: if_splits option.splits bind_splits prod.splits)
next
  case (DbGet k)
  then obtain r where "db_Get env k db = Some (r, db')" using run by (auto split: if_splits option.splits)
  from db_Get_frame [OF this] show ?thesis by (auto intro: acked_frame [OF acked])
next
  case (DbPut k v)
  then show ?thesis using run by (auto simp: db_Put_def intro: acked_start [OF acked])
next
  case (DbDelete k)
  then show ?thesis using run by (auto simp: db_Delete_def intro: acked_start [OF acked])
next
  case (DbWriteBatch b)
  then show ?thesis using run acked_start [OF acked] by simp
next
  case (DbRefused b)
  then show ?thesis using run by (intro acked_frame [OF acked]) (auto simp: db_refused_def split: if_splits option.splits)
next
  case (DbReceive i)
  then show ?thesis using run by (intro acked_frame [OF acked]) (auto simp: committer_step_def split: if_splits option.splits)
next
  case (DbTimer i)
  then show ?thesis using run by (intro acked_frame [OF acked]) (auto simp: committer_step_def split: if_splits option.splits)
next
  case DbFlushStart
  then show ?thesis using run by (intro acked_frame [OF acked]) (auto simp: flush_start_def split: if_splits)
next
  case (DbFlushTry waited)
  then show ?thesis
    using run by (intro acked_frame [OF acked]) (auto simp: flush_try_def split: flush_phase.splits option.splits prod.splits)
next
  case (DbCompact rnd envs durs)
  then show ?thesis using run by (intro acked_frame [OF acked]) (auto split: option.splits)
qed

lemma acked_run: "acked_applied db \<Longrightarrow> run_opt (db_exec coin env) es db = Some db' \<Longrightarrow> acked_applied db'"
  by (induction es arbitrary: db) (auto split: option.splits intro: acked_exec)

section \<open>One write, run to its end\<close>

text \<open>A committer with nothing in flight and a working log.\<close>

definition gc_idle :: "GroupCommitter \<Rightarrow> bool" where
  "gc_idle gc \<longleftrightarrow> gc_pending gc = [] \<and> gc_batch gc = [] \<and> \<not> gc_stopCh gc \<and> \<not> gc_stoppedCh gc \<and> w_ok (gc_writer gc) \<and>
     1 < gc_maxBatchSize gc \<and> (\<forall>a \<in> set (gc_answers gc). fst a < gc_next gc)"

lemma gc_idle_new: "1 < n \<Longrightarrow> gc_idle (NewGroupCommitter (NewWriter (good_file xs)) (Some n))"
  by (simp add: gc_idle_def NewGroupCommitter_def NewWriter_def w_ok_def good_file_def)

lemma gc_flush_ok:
  assumes "w_ok (gc_writer gc)" "gc_batch gc \<noteq> []"
  shows "\<exists>w. w_ok w \<and> gc_flush gc = gc\<lparr>gc_writer := w, gc_answers := gc_answers gc @ map (\<lambda>r. (req_result r, None)) (gc_batch gc),
    gc_batch := [], gc_timerActive := False\<rparr>"
proof -
  obtain w1 where w1: "append_all (gc_writer gc) (map req_data (gc_batch gc)) = (None, w1)" "w_ok w1"
    using append_all_lays [OF assms(1)] by blast
  obtain w2 where "wal_Sync w1 = (None, w2)" "w_ok w2" using sync_ok [OF w1(2)] by blast
  with w1 assms(2) show ?thesis by (intro exI [of _ w2]) (simp add: gc_flush_def)
qed

text \<open>The steps of a write: the call, the committer taking the request, its timer, and the answer.\<close>

abbreviation write_events :: "Batch \<Rightarrow> db_event list" where
  "write_events b \<equiv> [DbWriteBatch b, DbReceive 0, DbTimer 0, DbAnswer 0]"

lemma gc_write_run:
  assumes "gc_idle gc"
  shows "\<exists>gc1 gc2 gc3. gc_exec (GcSubmit d) gc = Some gc1 \<and> gc_exec GcReceive gc1 = Some gc2 \<and> gc_exec GcTimer gc2 = Some gc3 \<and>
    gc_idle gc3 \<and> map_of (gc_answers gc3) (gc_next gc) = Some None"
proof -
  let ?r = "\<lparr>req_result = gc_next gc, req_data = d\<rparr>"
  let ?gc2 = "gc\<lparr>gc_next := gc_next gc + 1, gc_pending := [], gc_batch := [?r], gc_timerActive := True\<rparr>"
  have gc: "gc_pending gc = []" "gc_batch gc = []" "\<not> gc_stopCh gc" "\<not> gc_stoppedCh gc" "w_ok (gc_writer gc)" "1 < gc_maxBatchSize gc"
    "\<forall>a \<in> set (gc_answers gc). fst a < gc_next gc" using assms by (auto simp: gc_idle_def)
  obtain w where w: "w_ok w" "gc_flush (?gc2\<lparr>gc_timerActive := False\<rparr>) =
      ?gc2\<lparr>gc_writer := w, gc_answers := gc_answers gc @ [(gc_next gc, None)], gc_batch := [], gc_timerActive := False\<rparr>"
    using gc_flush_ok [of "?gc2\<lparr>gc_timerActive := False\<rparr>"] gc(5) by auto
  have "map_of (gc_answers gc) (gc_next gc) = None" using gc(7) by (auto simp: map_of_eq_None_iff)
  then show ?thesis
    using gc w by (auto simp: pending_cap_def gc_idle_def Let_def map_add_def)
qed

lemma db_write_run:
  assumes "db_flush db \<noteq> Rotating" "\<not> db_closed db" "db_calls db = []" "db_gcs db = [gc]" "db_mgrGc db = 0" "gc_idle gc"
    "apply_entries coin b (db_mgr db) = Some (rest, m)"
  shows "\<exists>gc'. gc_idle gc' \<and> run_opt (db_exec coin env) (write_events b) db =
    Some (db_progress 0 b rest m (db\<lparr>db_calls := [\<lparr>ca_batch = b, ca_req = gc_next gc, ca_rest = None\<rparr>], db_gcs := [gc']\<rparr>))"
proof -
  obtain gc1 gc2 gc3 where gc: "gc_exec (GcSubmit (batch_Encode b)) gc = Some gc1" "gc_exec GcReceive gc1 = Some gc2"
    "gc_exec GcTimer gc2 = Some gc3" "gc_idle gc3" "map_of (gc_answers gc3) (gc_next gc) = Some None"
    using gc_write_run [OF assms(6)] by blast
  then show ?thesis
    using assms by (intro exI [of _ gc3])
      (simp add: db_WriteBatch_def committer_step_def db_answer_def mgr_WriteBatch_def Let_def del: gc_exec.simps)
qed

text \<open>
  C1. Reads see the last write.  A database opened on a well-formed tree answers, after any interleaving of writes,
  group commits, waits, flushes and log rotations without compactions, with the last applied write of the key, counting
  the batches recovered from the log; a key that was not written has the tree's value; and every acknowledged batch
  has been applied.
\<close>

theorem db_reads_last_write:
  assumes "Open coin opts d = Some (Inr db0)" "NewLSMTree (lsm_options opts) (dd_manifest d) (dd_tables d) = Inr l" "lsm_rep env l E"
    "env_good (executor_env (lsm_options opts) 0 env)" "f_script (mf_file (ls_manifest l)) = []"
    "run_opt (db_exec coin env) es db0 = Some db" "\<forall>e \<in> set es. \<not> compacts e" "\<not> db_closed db"
    "S = entry_binding ` set (db_applied db0 @ concat (map event_entries es))"
    "\<forall>e \<in> S. entry_small (ce_blockSize env) e" "sum entry_weight S + 2 ^ 33 < max_alloc"
    "unat (mf_nextFileNum (ls_manifest l)) + length es < 2 ^ 64 - 1"
  shows "(\<exists>db'. db_Get env key db =
      Some (case (lookup E (ls_version l) ++ last_write (db_applied db)) key of Some (Some v) \<Rightarrow> Inr v | _ \<Rightarrow> Inl ErrNotFound, db')) \<and>
    (\<forall>b. (b, None) \<in> set (db_done db) \<longrightarrow> set b \<subseteq> set (db_applied db))"
proof -
  have "db_inv env S (lookup E (ls_version l)) (unat (mf_nextFileNum (ls_manifest l))) db0"
    by (rule Open_inv [OF assms(1-5)]) (auto simp: assms(9))
  then have "db_inv env S (lookup E (ls_version l)) (unat (mf_nextFileNum (ls_manifest l)) + length es) db"
    by (rule db_inv_run [OF _ assms(6,7) _ assms(12) _ assms(10,11)]) (auto simp: assms(9))
  then obtain f E' where "db_state env S (lookup E (ls_version l)) (unat (mf_nextFileNum (ls_manifest l)) + length es) f E' db"
    by (auto simp: db_inv_def)
  from db_Get_state [OF this assms(8), of key] show ?thesis
  proof (intro conjI)
    have "db_done db0 = []" "db_calls db0 = []" by (cases rule: Open_InrE [OF assms(1)]; simp)+
    then have "acked_applied db0" by (simp add: acked_applied_def)
    then show "\<forall>b. (b, None) \<in> set (db_done db) \<longrightarrow> set b \<subseteq> set (db_applied db)"
      using acked_run [OF _ assms(6)] by (simp add: acked_applied_def)
  qed blast
qed

abbreviation small_opts :: "int \<Rightarrow> Options" where
  "small_opts n \<equiv> \<lparr>op_Dir = [], op_MemTableSize = n, op_WALMaxBatchSize = 100, op_WALMaxBatchDelay = 10, op_SyncWrites = False,
     op_SSTableBlockSize = 4096, op_BloomBitsPerKey = 10, op_BlockCacheSize = 1000, op_CompactionRateMB = 0, op_L0StallTrigger = 12\<rparr>"

abbreviation empty_dir :: db_disk where
  "empty_dir \<equiv> \<lparr>dd_mkdir = True, dd_wal = \<lparr>wd_log = None, wd_tmp = None\<rparr>, dd_recover = [], dd_open = True, dd_script = [],
     dd_manifest = good_file [], dd_tables = (\<lambda>_. None)\<rparr>"

abbreviation fresh_db :: "int \<Rightarrow> DB" where
  "fresh_db n \<equiv> \<lparr>db_opts = small_opts n, db_gcs = [NewGroupCommitter (NewWriter (good_file [])) (Some 100)], db_gc = 0,
     db_logFile = Some 0, db_mgrGc = 0, db_mgr = NewManager n, db_lsm = new_tree, db_closed = False, db_calls = [],
     db_flush = FlushIdle, db_done = [], db_applied = []\<rparr>"

lemma small_opts_tree: "lsm_options (small_opts n) = tree_opts"
  by (simp add: lsm_options_def)

lemma Open_empty: "Open coin (small_opts n) empty_dir = Some (Inr (fresh_db n))"
  using NewLSMTree_empty
  by (simp add: Open_def Recover_def new_result_def small_opts_tree new_committer_def good_file_def nil_bytes_def)

abbreviation put :: "byte \<Rightarrow> byte \<Rightarrow> Batch" where
  "put k v \<equiv> batch_Put emptyBatch [k] (Some [v])"

lemma put_small:
  "\<forall>e \<in> set (put k v). entry_small 4096 (entry_binding e)" "sum entry_weight (entry_binding ` set (put k v)) + 8589934592 < max_alloc"
  by (simp_all add: batch_Put_def emptyBatch_def entry_binding_def entry_small_def entry_weight_def length_encode_kv vlen_def DefaultBlockSize_def max_alloc_def)

lemma one_put_room: "case apply_entries (\<lambda>_. False) (put 1 2) (NewManager 1000) of Some ([], m) \<Rightarrow> True | _ \<Rightarrow> False"
  by code_simp

theorem db_reads_last_write_witness:
  "\<exists>db0 db db'. Open (\<lambda>_. False) (small_opts 1000) empty_dir = Some (Inr db0) \<and>
    run_opt (db_exec (\<lambda>_. False) sample_env) (write_events (put 1 2)) db0 = Some db \<and> db_done db = [(put 1 2, None)] \<and>
    db_Get sample_env [1] db = Some (Inr [2], db')"
proof -
  obtain m where m: "apply_entries (\<lambda>_. False) (put 1 2) (NewManager 1000) = Some ([], m)"
    using one_put_room by (auto split: option.splits prod.splits list.splits)
  obtain gc where run: "run_opt (db_exec (\<lambda>_. False) sample_env) (write_events (put 1 2)) (fresh_db 1000) =
      Some (db_progress 0 (put 1 2) [] m ((fresh_db 1000)\<lparr>db_calls := [\<lparr>ca_batch = put 1 2, ca_req = 0, ca_rest = None\<rparr>], db_gcs := [gc]\<rparr>))"
    (is "_ = Some ?db")
    using db_write_run [of "fresh_db 1000" "NewGroupCommitter (NewWriter (good_file [])) (Some 100)" "\<lambda>_. False" "put 1 2" "[]" m sample_env]
      m gc_idle_new [of 100 "[]"] by (auto simp: NewGroupCommitter_def)
  have db: "db_applied ?db = put 1 2" "\<not> db_closed ?db" "db_done ?db = [(put 1 2, None)]"
    by (simp_all add: db_progress_def batch_Put_def)
  have "\<exists>db'. db_Get sample_env [1] ?db =
      Some (case (lookup (\<lambda>_. []) (ls_version new_tree) ++ last_write (db_applied ?db)) [1] of Some (Some v) \<Rightarrow> Inr v | _ \<Rightarrow> Inl ErrNotFound, db')"
    using db_reads_last_write [where l = new_tree and E = "\<lambda>_. []", OF Open_empty _ _ _ _ run _ db(2) refl, of "[1]"]
      put_small [of 1 2] sample_env_good by (simp add: small_opts_tree NewLSMTree_empty new_tree_rep)
  moreover have "last_write (db_applied ?db) [1] = Some (Some [2])" unfolding db(1) by (simp add: last_write_def batch_Put_def entry_binding_def)
  ultimately show ?thesis using Open_empty run db(3) by auto
qed

end
