(* ===== verification/DbRotation.thy ===== *)
theory DbRotation
  imports DbProps
begin

text \<open>
  What the rotation of the log after a flush does (\<^verbatim>\<open>rotateWAL\<close> in \<^verbatim>\<open>db.go\<close>): to the writes that
  come after it, to a write that waits while it runs, and to the entries of the active memtable.
\<close>

section \<open>Writes after a rotation\<close>

abbreviation mgr_gc :: "DB \<Rightarrow> GroupCommitter" where
  "mgr_gc db \<equiv> db_gcs db ! db_mgrGc db"

text \<open>The manager submits to the first committer, which is stopped once another one is in use.\<close>

definition first_committer :: "DB \<Rightarrow> bool" where
  "first_committer db \<longleftrightarrow> db_mgrGc db = 0 \<and> db_gcs db \<noteq> [] \<and> gc_fifo (mgr_gc db) \<and> (db_gc db \<noteq> 0 \<longrightarrow> gc_stoppedCh (mgr_gc db))"

text \<open>The manager's committer has stopped, and no call in flight has been answered by it.\<close>

definition stranded :: "DB \<Rightarrow> bool" where
  "stranded db \<longleftrightarrow> first_committer db \<and> gc_stoppedCh (mgr_gc db) \<and>
     (\<forall>c \<in> set (db_calls db). ca_rest c = None \<and> map_of (gc_answers (mgr_gc db)) (ca_req c) = None)"

definition only_errors :: "DB \<Rightarrow> DB \<Rightarrow> bool" where
  "only_errors db db' \<longleftrightarrow> db_applied db' = db_applied db \<and> (\<exists>rs. db_done db' = db_done db @ rs \<and> (\<forall>r \<in> set rs. snd r \<noteq> None))"

lemma only_errors_refl [simp]: "only_errors db db"
  by (simp add: only_errors_def)

lemma only_errors_trans: "only_errors a b \<Longrightarrow> only_errors b c \<Longrightarrow> only_errors a c"
  unfolding only_errors_def by (elim conjE exE) (rule conjI, simp, rule exI, rule conjI, simp, auto)

lemma only_errors_frame: "db_applied db' = db_applied db \<Longrightarrow> db_done db' = db_done db \<Longrightarrow> only_errors db db'"
  by (simp add: only_errors_def)

lemma gc_fifo_next: "gc_fifo gc \<Longrightarrow> map_of (gc_answers gc) (gc_next gc) = None"
proof -
  assume "gc_fifo gc"
  then have "map fst (gc_answers gc) @ map req_result (gc_batch gc @ gc_pending gc) = [0..<gc_next gc]" by (simp add: gc_fifo_def)
  then have "set (map fst (gc_answers gc)) \<subseteq> {0..<gc_next gc}" by (metis Un_upper1 set_append set_upt)
  then show ?thesis by (auto simp: map_of_eq_None_iff)
qed

lemma gc_fifo_writer [simp]: "gc_fifo (gc\<lparr>gc_writer := w\<rparr>) = gc_fifo gc"
  by (simp add: gc_fifo_def)

lemma gc_stopped_step:
  "gc_exec e gc = Some gc' \<Longrightarrow> gc_stoppedCh gc \<Longrightarrow> gc_stoppedCh gc' \<and> gc_answers gc' = gc_answers gc \<and> e \<notin> {GcReceive, GcTimer, GcDrain}"
  by (cases e) (auto split: if_splits)

lemma stop_drain:
  "gc_exec GcStop gc = Some gc1 \<Longrightarrow> gc_exec GcDrain gc1 = Some gc2 \<Longrightarrow> gc_fifo gc \<Longrightarrow>
     gc_fifo gc2 \<and> gc_stoppedCh gc2 \<and> \<not> gc_stoppedCh gc"
  using gc_fifo_step [of GcStop gc gc1] gc_fifo_step [of GcDrain gc1 gc2] by (auto split: if_splits)

lemma first_committer_rotate:
  assumes "rotateWAL renamed f db = Some (err, db')" "first_committer db"
  shows "first_committer db' \<and> gc_stoppedCh (mgr_gc db') \<and> (gc_stoppedCh (mgr_gc db) \<longrightarrow> mgr_gc db' = mgr_gc db)"
proof -
  obtain gc1 gc2 where g: "gc_exec GcStop (db_gcs db ! db_gc db) = Some gc1" "gc_exec GcDrain gc1 = Some gc2" and
    r: "db_gcs db' = (db_gcs db)[db_gc db := gc2\<lparr>gc_writer := snd (wal_Close (gc_writer gc2))\<rparr>] \<and> db_gc db' = db_gc db \<or>
      (\<exists>gc3. db_gcs db' = (db_gcs db)[db_gc db := gc2\<lparr>gc_writer := snd (wal_Close (gc_writer gc2))\<rparr>] @ [gc3] \<and> db_gc db' = length (db_gcs db))"
    "db_mgrGc db' = db_mgrGc db"
    using assms(1) by (auto simp: rotateWAL_def Let_def split: if_splits option.splits bind_splits)
  show ?thesis
  proof (cases "db_gc db = 0")
    case True
    then have "gc_fifo gc2 \<and> gc_stoppedCh gc2 \<and> \<not> gc_stoppedCh (mgr_gc db)" using stop_drain [OF g] assms(2) by (auto simp: first_committer_def)
    then show ?thesis using r assms(2) True by (cases "db_gcs db") (auto simp: first_committer_def)
  next
    case False
    then show ?thesis using r assms(2) by (cases "db_gcs db"; cases "db_gc db") (auto simp: first_committer_def)
  qed
qed

lemma first_committer_update:
  assumes "first_committer db" "gc_exec e (db_gcs db ! i) = Some gc" "i < length (db_gcs db)"
  shows "first_committer (db\<lparr>db_gcs := (db_gcs db)[i := gc]\<rparr>)"
  using assms gc_fifo_step [OF assms(2)] gc_stopped_step [OF assms(2)]
  by (cases "i = 0") (auto simp: first_committer_def)

lemma first_committer_cong:
  "db_gcs db' = db_gcs db \<Longrightarrow> db_gc db' = db_gc db \<Longrightarrow> db_mgrGc db' = db_mgrGc db \<Longrightarrow> first_committer db' = first_committer db"
  by (simp add: first_committer_def)

text \<open>The events that do not touch a committer.\<close>

lemma exec_committers:
  assumes "db_exec coin env e db = Some db'"
    "e = DbAnswer i \<or> e = DbResume i \<or> e = DbFlushStart \<or> e = DbFlushTry w \<or> e = DbGet k \<or> e = DbCompact rnd envs durs \<or> e = DbRefused b"
  shows "db_gcs db' = db_gcs db \<and> db_gc db' = db_gc db \<and> db_mgrGc db' = db_mgrGc db"
  using assms(2)
proof (elim disjE)
  assume "e = DbGet k"
  then show ?thesis using assms(1) db_Get_frame by (fastforce split: if_splits option.splits)
next
  assume "e = DbAnswer i"
  then show ?thesis using assms(1) by (auto simp: db_answer_def db_progress_def Let_def split: if_splits option.splits sum.splits)
next
  assume "e = DbResume i"
  then show ?thesis using assms(1) by (auto simp: db_resume_def db_progress_def Let_def split: if_splits option.splits)
next
  assume "e = DbFlushTry w"
  then show ?thesis using assms(1) by (auto simp: flush_try_def split: flush_phase.splits option.splits prod.splits)
qed (use assms(1) in \<open>auto simp: flush_start_def db_refused_def split: if_splits option.splits\<close>)

lemma first_committer_write:
  assumes "first_committer db" "db_WriteBatch b db = Some db'"
  shows "first_committer db'"
proof (cases "db_closed db")
  case True
  then show ?thesis using assms by (auto simp: db_WriteBatch_def first_committer_def split: if_splits)
next
  case False
  then obtain gc cs where gc: "gc_exec (GcSubmit (batch_Encode b)) (mgr_gc db) = Some gc"
    "db' = db\<lparr>db_gcs := (db_gcs db)[db_mgrGc db := gc], db_calls := cs\<rparr>"
    using assms(2) by (auto simp: db_WriteBatch_def Let_def split: if_splits option.splits)
  have "db_mgrGc db < length (db_gcs db)" using assms(1) by (simp add: first_committer_def)
  from first_committer_update [OF assms(1) gc(1) this] show ?thesis unfolding gc(2) by (auto simp: first_committer_def)
qed

lemma committer_stepE:
  assumes "committer_step e i db = Some db'"
  obtains gc where "i < length (db_gcs db)" "gc_exec e (db_gcs db ! i) = Some gc" "db' = db\<lparr>db_gcs := (db_gcs db)[i := gc]\<rparr>"
  using assms by (auto simp: committer_step_def simp del: gc_exec.simps split: if_splits option.splits)

lemma first_committer_Close:
  assumes "first_committer db" "db_Close db = Some (r, db')"
  shows "first_committer db' \<and> (gc_stoppedCh (mgr_gc db) \<longrightarrow> mgr_gc db' = mgr_gc db) \<and>
    db_applied db' = db_applied db \<and> db_done db' = db_done db \<and> db_calls db' = db_calls db"
proof (cases "db' = db")
  case False
  then obtain gc1 gc2 w l where g: "gc_exec GcStop (db_gcs db ! db_gc db) = Some gc1" "gc_exec GcDrain gc1 = Some gc2"
    and db': "db' = db\<lparr>db_closed := True, db_gcs := (db_gcs db)[db_gc db := gc2\<lparr>gc_writer := w\<rparr>], db_lsm := l\<rparr>"
    using assms(2) by (auto simp: db_Close_def split: if_splits bind_splits prod.splits)
  have "db_gc db = 0 \<Longrightarrow> gc_fifo gc2 \<and> gc_stoppedCh gc2 \<and> \<not> gc_stoppedCh (mgr_gc db)"
    using stop_drain [OF g] assms(1) by (auto simp: first_committer_def)
  then show ?thesis unfolding db' using assms(1) by (cases "db_gcs db"; cases "db_gc db") (auto simp: first_committer_def)
qed (use assms in simp)

lemma first_committer_exec:
  assumes "first_committer db" "db_exec coin env e db = Some db'"
  shows "first_committer db'"
proof (cases e)
  case (DbReceive i)
  then have "committer_step GcReceive i db = Some db'" using assms(2) by simp
  then show ?thesis by (rule committer_stepE) (simp add: first_committer_update [OF assms(1)] del: gc_exec.simps)
next
  case (DbTimer i)
  then have "committer_step GcTimer i db = Some db'" using assms(2) by simp
  then show ?thesis by (rule committer_stepE) (simp add: first_committer_update [OF assms(1)] del: gc_exec.simps)
next
  case (DbFlushEnd renamed f)
  then obtain err db1 where db1: "rotateWAL renamed f db = Some (err, db1)" "db' = db1\<lparr>db_mgr := (db_mgr db1)\<lparr>m_immutable := None\<rparr>, db_flush := FlushIdle\<rparr>"
    using assms(2) by (auto simp: flush_end_def split: if_splits option.splits)
  then show ?thesis using first_committer_rotate [OF db1(1) assms(1)] by (auto simp: first_committer_def)
next
  case DbClose
  then show ?thesis using assms first_committer_Close by (auto split: option.splits)
qed (use assms first_committer_write [OF assms(1)] exec_committers [OF assms(2)] first_committer_cong [of db' db] in
  \<open>auto simp: db_Put_def db_Delete_def simp del: db_exec.simps(4-6,9,10,12,13)\<close>)

text \<open>What keeps a stranded database stranded.\<close>

lemma strandedI:
  assumes "stranded db" "first_committer db'" "gc_stoppedCh (mgr_gc db')" "gc_answers (mgr_gc db') = gc_answers (mgr_gc db)"
    "\<forall>c \<in> set (db_calls db'). c \<in> set (db_calls db) \<or> ca_rest c = None \<and> ca_req c = gc_next (mgr_gc db)"
  shows "stranded db'"
  using assms gc_fifo_next [of "mgr_gc db"] by (auto simp: stranded_def first_committer_def)

lemma stranded_write:
  assumes st: "stranded db" and w: "db_WriteBatch b db = Some db'"
  shows "stranded db' \<and> only_errors db db'"
proof -
  have fc: "first_committer db" using st by (simp add: stranded_def)
  have i: "db_mgrGc db < length (db_gcs db)" using fc by (simp add: first_committer_def)
  show ?thesis
  proof (cases "db_closed db")
    case True
    with w have "db' = db_return b (Some ErrDBClosed) db" by (auto simp: db_WriteBatch_def split: if_splits)
    then show ?thesis using st by (auto simp: stranded_def first_committer_def only_errors_def)
  next
    case False
    with w obtain gc where gc: "gc_exec (GcSubmit (batch_Encode b)) (mgr_gc db) = Some gc" and
      db': "db' = db\<lparr>db_gcs := (db_gcs db)[db_mgrGc db := gc], db_calls := db_calls db @ [\<lparr>ca_batch = b, ca_req = gc_next (mgr_gc db), ca_rest = None\<rparr>]\<rparr>"
      by (auto simp: db_WriteBatch_def Let_def simp del: gc_exec.simps split: if_splits option.splits)
    have "gc_stoppedCh gc \<and> gc_answers gc = gc_answers (mgr_gc db)" using gc_stopped_step [OF gc] st by (simp add: stranded_def)
    moreover have "mgr_gc db' = gc" using i by (simp add: db')
    ultimately have "stranded db'" using first_committer_write [OF fc w] by (intro strandedI [OF st]) (auto simp: db')
    then show ?thesis by (simp add: only_errors_def db')
  qed
qed

lemma stranded_frame:
  assumes "stranded db" "db_gcs db' = db_gcs db" "db_gc db' = db_gc db" "db_mgrGc db' = db_mgrGc db" "db_calls db' = db_calls db"
  shows "stranded db'"
  using assms by (auto simp: stranded_def first_committer_def)

lemma stranded_exec:
  assumes st: "stranded db" and run: "db_exec coin env e db = Some db'"
  shows "stranded db' \<and> only_errors db db'"
proof -
  have fc: "first_committer db" and stop: "gc_stoppedCh (mgr_gc db)" and mgr: "db_mgrGc db = 0" using st by (auto simp: stranded_def first_committer_def)
  have calls: "ca_rest (db_calls db ! i) = None" "map_of (gc_answers (mgr_gc db)) (ca_req (db_calls db ! i)) = None" if "i < length (db_calls db)" for i
    using st nth_mem [OF that] by (auto simp: stranded_def)
  have step: "stranded db' \<and> only_errors db db'" if "committer_step g i db = Some db'" "g \<in> {GcReceive, GcTimer}" for g i
    using that(1)
  proof (rule committer_stepE)
    fix gc assume gc: "i < length (db_gcs db)" "gc_exec g (db_gcs db ! i) = Some gc" "db' = db\<lparr>db_gcs := (db_gcs db)[i := gc]\<rparr>"
    have "i \<noteq> 0" using gc_stopped_step [OF gc(2)] stop mgr that(2) by (cases "i = 0") auto
    then show ?thesis
      using first_committer_update [OF fc gc(2,1)] stop mgr unfolding gc(3)
      by (auto simp: only_errors_def intro!: strandedI [OF st])
  qed
  show ?thesis
  proof (cases e)
    case (DbAnswer i)
    then show ?thesis using run calls [of i] by (auto simp: db_answer_def Let_def split: if_splits)
  next
    case (DbResume i)
    then show ?thesis using run calls [of i] by (auto simp: db_resume_def split: if_splits)
  next
    case (DbFlushEnd renamed f)
    then obtain err db1 where db1: "rotateWAL renamed f db = Some (err, db1)" "db' = db1\<lparr>db_mgr := (db_mgr db1)\<lparr>m_immutable := None\<rparr>, db_flush := FlushIdle\<rparr>"
      using run by (auto simp: flush_end_def split: if_splits option.splits)
    have "first_committer db'" "mgr_gc db' = mgr_gc db" using first_committer_rotate [OF db1(1) fc] stop by (auto simp: db1(2) first_committer_def)
    then show ?thesis using stop rotateWAL_tables [OF db1(1)] by (auto simp: db1(2) only_errors_def intro!: strandedI [OF st])
  next
    case DbClose
    then obtain r where "db_Close db = Some (r, db')" using run by (auto split: option.splits)
    from first_committer_Close [OF fc this] show ?thesis using stop by (auto simp: only_errors_def intro!: strandedI [OF st])
  next
    case (DbGet k)
    then obtain r where "db_Get env k db = Some (r, db')" using run by (auto split: if_splits option.splits)
    from db_Get_frame [OF this] show ?thesis by (auto simp: only_errors_def intro: stranded_frame [OF st])
  next
    case (DbRefused b)
    then show ?thesis using run by (auto simp: db_refused_def only_errors_def split: if_splits option.splits intro: stranded_frame [OF st])
  next
    case DbFlushStart
    then show ?thesis using run by (auto simp: flush_start_def only_errors_def split: if_splits intro: stranded_frame [OF st])
  next
    case (DbFlushTry w)
    then show ?thesis
      using run by (auto simp: flush_try_def only_errors_def split: flush_phase.splits option.splits prod.splits intro: stranded_frame [OF st])
  next
    case (DbCompact rnd envs durs)
    then show ?thesis using run by (auto simp: only_errors_def split: option.splits intro: stranded_frame [OF st])
  qed (use run stranded_write [OF st] step in \<open>auto simp: db_Put_def db_Delete_def\<close>)
qed

lemma stranded_run:
  "stranded db \<Longrightarrow> run_opt (db_exec coin env) es db = Some db' \<Longrightarrow> stranded db' \<and> only_errors db db'"
proof (induction es arbitrary: db)
  case (Cons e es)
  then obtain db1 where db1: "db_exec coin env e db = Some db1" "run_opt (db_exec coin env) es db1 = Some db'" by (auto split: option.splits)
  from stranded_exec [OF Cons.prems(1) db1(1)] Cons.IH [OF _ db1(2)] show ?case by (auto intro: only_errors_trans)
qed simp

lemma first_committer_Open: "Open coin opts d = Some (Inr db) \<Longrightarrow> first_committer db"
  by (erule Open_InrE) (simp add: first_committer_def new_committer_def NewGroupCommitter_def gc_fifo_def)

section \<open>A run up to the rotation\<close>

text \<open>
  A database whose memtables hold one entry each: the first write freezes its table, the second fills the active
  one, and the flusher takes the frozen table.
\<close>

lemma one_put_full:
  "case mt_Put (\<lambda>_. False) [1] (Some [1]) (NewMemTable 1) of Some (None, mt) \<Rightarrow> mt_ShouldFlush mt | _ \<Rightarrow> False"
  "case mt_Put (\<lambda>_. False) [2] (Some [2]) (NewMemTable 1) of Some (None, mt) \<Rightarrow> mt_ShouldFlush mt | _ \<Rightarrow> False"
  by code_simp+

lemma full_table:
  assumes "k \<in> {1, 2}"
  obtains mt where "mt_Put (\<lambda>_. False) [k] (Some [k]) (NewMemTable 1) = Some (None, mt)" "mt_rep mt [([k], Some [k])]"
    "mt_ShouldFlush mt" "\<not> mt_frozen mt"
proof -
  obtain mt where mt: "mt_Put (\<lambda>_. False) [k] (Some [k]) (NewMemTable 1) = Some (None, mt)" "mt_rep mt (upd_by CompareKeys [k] (Some [k]) [])"
    "\<not> mt_frozen mt"
    using mt_Put_rep [OF NewMemTable_rep, of "\<lambda>_. False" "[k]" "Some [k]" 1] mt_new_room [of 1] by (auto simp: NewMemTable_def)
  with one_put_full assms show ?thesis by (intro that [of mt]) auto
qed

lemma two_tables:
  obtains a b m where "mt_rep a [([1], Some [1])]" "mt_rep b [([2], Some [2])]" "mt_ShouldFlush b"
    "m = \<lparr>m_active = b, m_immutable = Some a, m_maxSize = 1, m_flushCh = True\<rparr>"
    "\<exists>m1. apply_entries (\<lambda>_. False) (put 1 1) (NewManager 1) = Some ([], m1) \<and> apply_entries (\<lambda>_. False) (put 2 2) m1 = Some ([], m)"
proof -
  have put: "put k v = [\<lparr>Op = OpPut, Key = [k], Value = Some [v]\<rparr>]" for k v by (simp add: batch_Put_def emptyBatch_def)
  obtain a where a: "mt_Put (\<lambda>_. False) [1] (Some [1]) (NewMemTable 1) = Some (None, a)" "mt_rep a [([1], Some [1])]" "mt_ShouldFlush a"
    by (rule full_table [of 1]) auto
  obtain b where b: "mt_Put (\<lambda>_. False) [2] (Some [2]) (NewMemTable 1) = Some (None, b)" "mt_rep b [([2], Some [2])]" "mt_ShouldFlush b"
    by (rule full_table [of 2]) auto
  let ?m = "\<lambda>t. \<lparr>m_active = t, m_immutable = Some (mt_Freeze a), m_maxSize = 1, m_flushCh = True\<rparr>"
  have "apply_entry (\<lambda>_. False) \<lparr>Op = OpPut, Key = [1], Value = Some [1]\<rparr> (NewManager 1) = Some (True, ?m (NewMemTable 1))"
    using a by (subst apply_entry_unfold) (simp add: entry_binding_def NewManager_def mgr_rotate_def)
  moreover have "apply_entry (\<lambda>_. False) \<lparr>Op = OpPut, Key = [2], Value = Some [2]\<rparr> (?m (NewMemTable 1)) = Some (True, ?m b)"
    using b by (subst apply_entry_unfold) (simp add: entry_binding_def)
  ultimately show ?thesis
    using a b by (intro that [of "mt_Freeze a" b "?m b"]) (simp_all add: put mt_rep_def mt_Freeze_def)
qed

lemma full_waits:
  assumes "m_immutable m \<noteq> None" "mt_ShouldFlush (m_active m)"
  shows "apply_entries coin es m = Some (es, m)"
proof (cases es)
  case (Cons e es')
  have "apply_entry coin e m = Some (False, m)" using assms by (subst apply_entry_unfold) (simp add: mt_Put_def mt_ShouldFlush_def)
  then show ?thesis using Cons by simp
qed simp

lemma flush_first_table:
  assumes "mt_rep a [([1], Some [1])]"
  obtains l where "lsm_Flush sample_env None a new_tree = Some (None, l)"
proof -
  obtain r where "lsm_Flush sample_env None a new_tree = Some r"
    using mt_entries_rep [OF assms] by (simp add: lsm_Flush_def WaitForStall_def)
  moreover from lsm_Flush_rep [OF new_tree_rep [of "\<lambda>_. []"] assms subset_refl _ _ _ _ _ _ this] obtain l where "r = (None, l)"
    using put_small [of 1 1] sample_env_good by (auto simp: batch_Put_def emptyBatch_def entry_binding_def good_file_def)
  ultimately show ?thesis using that by blast
qed

lemma run_opt_append:
  "run_opt f (es @ es') s = (case run_opt f es s of None \<Rightarrow> None | Some s' \<Rightarrow> run_opt f es' s')"
  by (induction es arbitrary: s) (auto split: option.split)

abbreviation tiny_db :: "GroupCommitter \<Rightarrow> Manager \<Rightarrow> LSMTree \<Rightarrow> flush_phase \<Rightarrow> db_call list \<Rightarrow> DB" where
  "tiny_db gc m l fl calls \<equiv> \<lparr>db_opts = small_opts 1, db_gcs = [gc], db_gc = 0, db_logFile = Some 0, db_mgrGc = 0, db_mgr = m, db_lsm = l,
     db_closed = False, db_calls = calls, db_flush = fl, db_done = [(put 1 1, None), (put 2 2, None)], db_applied = put 1 1 @ put 2 2\<rparr>"

abbreviation two_writes :: "db_event list" where
  "two_writes \<equiv> write_events (put 1 1) @ write_events (put 2 2) @ [DbFlushStart]"

lemma two_writes_run:
  obtains gc a m where "run_opt (db_exec (\<lambda>_. False) sample_env) two_writes (fresh_db 1) = Some (tiny_db gc m new_tree (Flushing a) [])"
    "gc_idle gc" "mt_rep a [([1], Some [1])]" "m_immutable m = Some a" "mt_rep (m_active m) [([2], Some [2])]" "mt_ShouldFlush (m_active m)"
proof -
  let ?run = "run_opt (db_exec (\<lambda>_. False) sample_env)" and ?gc = "NewGroupCommitter (NewWriter (good_file [])) (Some 100)"
  obtain a b m where m: "mt_rep a [([1], Some [1])]" "mt_rep b [([2], Some [2])]" "mt_ShouldFlush b"
    "m = \<lparr>m_active = b, m_immutable = Some a, m_maxSize = 1, m_flushCh = True\<rparr>"
    "\<exists>m1. apply_entries (\<lambda>_. False) (put 1 1) (NewManager 1) = Some ([], m1) \<and> apply_entries (\<lambda>_. False) (put 2 2) m1 = Some ([], m)"
    by (rule two_tables)
  then obtain m1 where m1: "apply_entries (\<lambda>_. False) (put 1 1) (NewManager 1) = Some ([], m1)" "apply_entries (\<lambda>_. False) (put 2 2) m1 = Some ([], m)"
    by blast
  obtain gc1 where gc1: "gc_idle gc1" "?run (write_events (put 1 1)) (fresh_db 1) =
      Some ((fresh_db 1)\<lparr>db_gcs := [gc1], db_mgr := m1, db_done := [(put 1 1, None)], db_applied := put 1 1\<rparr>)" (is "_ = Some ?db1")
    using db_write_run [of "fresh_db 1" ?gc "\<lambda>_. False" "put 1 1" "[]" m1 sample_env] m1(1) gc_idle_new [of 100 "[]"]
    by (auto simp: db_progress_def Let_def)
  obtain gc2 where gc2: "gc_idle gc2" "?run (write_events (put 2 2)) ?db1 = Some (tiny_db gc2 m new_tree FlushIdle [])"
    using db_write_run [of ?db1 gc1 "\<lambda>_. False" "put 2 2" "[]" m sample_env] m1(2) gc1(1) by (auto simp: db_progress_def Let_def)
  have "?run two_writes (fresh_db 1) = Some (tiny_db gc2 (m\<lparr>m_flushCh := False\<rparr>) new_tree (Flushing a) [])"
    unfolding run_opt_append gc1(2) option.case gc2(2) by (simp add: flush_start_def m(4))
  moreover have "m_immutable (m\<lparr>m_flushCh := False\<rparr>) = Some a" "m_active (m\<lparr>m_flushCh := False\<rparr>) = b" by (simp_all add: m(4))
  ultimately show ?thesis using m(1-3) gc2(1) that by metis
qed

lemma rotating_run:
  obtains gc m l where
    "run_opt (db_exec (\<lambda>_. False) sample_env) (two_writes @ [DbFlushTry None]) (fresh_db 1) = Some (tiny_db gc m l Rotating [])"
    "gc_idle gc" "mt_rep (m_active m) [([2], Some [2])]"
proof -
  obtain gc a m where r: "run_opt (db_exec (\<lambda>_. False) sample_env) two_writes (fresh_db 1) = Some (tiny_db gc m new_tree (Flushing a) [])"
    "gc_idle gc" "mt_rep a [([1], Some [1])]" "mt_rep (m_active m) [([2], Some [2])]" by (rule two_writes_run)
  obtain l where "lsm_Flush sample_env None a new_tree = Some (None, l)" by (rule flush_first_table [OF r(3)])
  then have "run_opt (db_exec (\<lambda>_. False) sample_env) (two_writes @ [DbFlushTry None]) (fresh_db 1) = Some (tiny_db gc m l Rotating [])"
    unfolding run_opt_append [of _ two_writes] r(1) by (simp add: flush_try_def)
  then show ?thesis using r(2,4) that by blast
qed

lemma rotate_idle:
  assumes "gc_idle gc"
  obtains gc' db where "db_exec coin env (DbFlushEnd True (Some f)) (tiny_db gc m l Rotating []) = Some db"
    "db = (tiny_db gc m l FlushIdle [])\<lparr>db_gcs := [gc', new_committer (small_opts 1) f], db_gc := 1, db_logFile := Some 1,
       db_mgr := m\<lparr>m_immutable := None\<rparr>\<rparr>"
  using assms that by (simp add: flush_end_def rotateWAL_def gc_idle_def)

text \<open>
  C5. No write succeeds after a rotation.  The rotation stops the committer and gives the database a new one, but the
  memtable manager keeps submitting to the old one.  In every run of a database, once a flush has rotated the log,
  whatever happens next no entry is applied and no write is acknowledged: every call that still returns
  returns an error.
\<close>

theorem db_no_write_after_rotation:
  assumes "Open coin opts d = Some (Inr db0)" "run_opt (db_exec coin env) es db0 = Some db"
    "db_exec coin env (DbFlushEnd renamed f) db = Some db1" "run_opt (db_exec coin env) es' db1 = Some db2"
  shows "db_applied db2 = db_applied db1 \<and> (\<exists>rs. db_done db2 = db_done db1 @ rs \<and> (\<forall>r \<in> set rs. snd r \<noteq> None))"
proof -
  have fc: "first_committer db"
    using assms(2) first_committer_Open [OF assms(1)] by (rule run_opt_invariant) (rule first_committer_exec)
  obtain err db' where db': "rotateWAL renamed f db = Some (err, db')" "db_calls db = []"
      "db1 = db'\<lparr>db_mgr := (db_mgr db')\<lparr>m_immutable := None\<rparr>, db_flush := FlushIdle\<rparr>"
    using assms(3) by (auto simp: flush_end_def split: if_splits option.splits)
  have "stranded db1"
    using first_committer_rotate [OF db'(1) fc] rotateWAL_tables [OF db'(1)] db'(2) by (auto simp: db'(3) stranded_def first_committer_def)
  from stranded_run [OF this assms(4)] show ?thesis by (simp add: only_errors_def)
qed

theorem db_no_write_after_rotation_witness:
  "\<exists>db db1. run_opt (db_exec (\<lambda>_. False) sample_env) (two_writes @ [DbFlushTry None]) (fresh_db 1) = Some db \<and>
    db_exec (\<lambda>_. False) sample_env (DbFlushEnd True (Some (good_file []))) db = Some db1 \<and>
    (\<forall>es db2. run_opt (db_exec (\<lambda>_. False) sample_env) es db1 = Some db2 \<longrightarrow> db_applied db2 = put 1 1 @ put 2 2)"
proof -
  obtain gc l m where db: "run_opt (db_exec (\<lambda>_. False) sample_env) (two_writes @ [DbFlushTry None]) (fresh_db 1) = Some (tiny_db gc m l Rotating [])"
      "gc_idle gc" "mt_rep (m_active m) [([2], Some [2])]"
    by (rule rotating_run)
  obtain gc' db1 where db1: "db_exec (\<lambda>_. False) sample_env (DbFlushEnd True (Some (good_file []))) (tiny_db gc m l Rotating []) = Some db1"
      "db1 = (tiny_db gc m l FlushIdle [])\<lparr>db_gcs := [gc', new_committer (small_opts 1) (good_file [])], db_gc := 1, db_logFile := Some 1,
         db_mgr := m\<lparr>m_immutable := None\<rparr>\<rparr>"
    by (rule rotate_idle [OF db(2)])
  have "db_applied db2 = put 1 1 @ put 2 2" if "run_opt (db_exec (\<lambda>_. False) sample_env) es db1 = Some db2" for es db2
    using db_no_write_after_rotation [OF Open_empty db(1) db1(1) that] db1(2) by simp
  then show ?thesis using db(1) db1(1) by blast
qed

section \<open>A rotation while a write waits\<close>

text \<open>
  The flusher waits for the lock to rotate the log, and the call \<open>c\<close>, which holds the lock, waits for the
  flusher to free a table.
\<close>

definition jammed :: "db_call \<Rightarrow> Manager \<Rightarrow> DB \<Rightarrow> bool" where
  "jammed c m db \<longleftrightarrow> db_flush db = Rotating \<and> db_mgr db = m \<and> m_immutable m \<noteq> None \<and> mt_ShouldFlush (m_active m) \<and>
     c \<in> set (db_calls db) \<and> (\<exists>e es. ca_rest c = Some (e # es))"

lemma mem_remove_at: "c \<in> set xs \<Longrightarrow> i < length xs \<Longrightarrow> xs ! i \<noteq> c \<Longrightarrow> c \<in> set (take i xs @ drop (Suc i) xs)"
  by (metis Un_iff id_take_nth_drop set_ConsD set_append)

lemma mem_update_at: "c \<in> set xs \<Longrightarrow> i < length xs \<Longrightarrow> xs ! i \<noteq> c \<or> x = c \<Longrightarrow> c \<in> set (xs[i := x])"
  by (metis in_set_conv_nth length_list_update nth_list_update)

lemma jammed_progress:
  assumes j: "jammed c m db" and i: "i < length (db_calls db)"
    and c: "db_calls db ! i = c \<Longrightarrow> ca_rest c = Some es"
  shows "jammed c m (db_progress i es es m db)"
proof (cases "db_calls db ! i = c")
  case True
  then have "c\<lparr>ca_rest := Some es\<rparr> = c" "es \<noteq> []" using c j by (auto simp: jammed_def)
  then show ?thesis using j i True mem_update_at [OF _ i, of c c] by (auto simp: jammed_def db_progress_def Let_def)
next
  case False
  then show ?thesis using j i mem_update_at [OF _ i, of c] mem_remove_at [OF _ i, of c] by (auto simp: jammed_def db_progress_def Let_def)
qed

lemma jammed_blocked:
  assumes "jammed c m db"
  shows "db_WriteBatch b db = None" "db_refused b db = None" "flush_start db = None" "flush_try env w db = None"
    "flush_end renamed f db = None" "db_exec coin env (DbGet k) db = None" "db_Close db = None"
  using assms by (auto simp: jammed_def db_WriteBatch_def db_refused_def flush_start_def flush_try_def flush_end_def db_Close_def)

lemma jammed_exec:
  assumes j: "jammed c m db" and run: "db_exec coin env e db = Some db'"
  shows "jammed c m db'"
proof (cases e)
  case (DbAnswer i)
  let ?c = "db_calls db ! i"
  have w: "mgr_WriteBatch coin (\<lambda>_. ans) (ca_batch ?c) (db_mgr db) = Some (case ans of Some err \<Rightarrow> Inl err | None \<Rightarrow> Inr (ca_batch ?c), m)" for ans
    using j full_waits [of m] by (auto simp: mgr_WriteBatch_def jammed_def split: option.split)
  have a12: "i < length (db_calls db)" "ca_rest ?c = None" using run DbAnswer by (auto simp: db_answer_def split: if_splits)
  obtain ans where ans: "map_of (gc_answers (mgr_gc db)) (ca_req ?c) = Some ans"
    using run DbAnswer by (auto simp: db_answer_def Let_def split: if_splits option.splits)
  have a: "i < length (db_calls db)" "ca_rest ?c = None"
      "db' = (case ans of Some err \<Rightarrow> db_return (ca_batch ?c) (Some (ErrWAL err)) (drop_call i (db\<lparr>db_mgr := m\<rparr>))
                | None \<Rightarrow> db_progress i (ca_batch ?c) (ca_batch ?c) m db)"
    using run DbAnswer a12 by (auto simp: db_answer_def w ans Let_def split: option.splits)
  have ne: "?c \<noteq> c" using a(2) j by (auto simp: jammed_def)
  then show ?thesis
    using j jammed_progress [OF j a(1)] mem_remove_at [OF _ a(1), of c] unfolding a(3) by (auto simp: jammed_def split: option.split)
next
  case (DbResume i)
  then obtain es where r: "i < length (db_calls db)" "ca_rest (db_calls db ! i) = Some es" "db' = db_progress i es es m db"
    using run j full_waits [of m] by (auto simp: db_resume_def jammed_def split: if_splits option.splits)
  then show ?thesis using jammed_progress [OF j r(1), of es] by auto
next
  case (DbReceive i)
  then have "committer_step GcReceive i db = Some db'" using run by simp
  then show ?thesis using j by (rule_tac committer_stepE) (auto simp: jammed_def)
next
  case (DbTimer i)
  then have "committer_step GcTimer i db = Some db'" using run by simp
  then show ?thesis using j by (rule_tac committer_stepE) (auto simp: jammed_def)
next
  case (DbCompact rnd envs durs)
  then show ?thesis using run j by (auto simp: jammed_def split: option.splits)
qed (use run jammed_blocked [OF j] in \<open>auto simp: db_Put_def db_Delete_def simp del: db_exec.simps(12)\<close>)

text \<open>
  C6. A flush and a waiting write block each other.  Suppose the flusher has written the frozen table and waits
  for the database lock to rotate the log, while a write that holds the lock waits for a memtable to become
  free.  Then in every continuation the write keeps waiting and the flusher keeps waiting; no other write can
  start, and reading, closing and finishing the flush are impossible.
\<close>

theorem db_flush_deadlock:
  assumes "db_flush db = Rotating" "m_immutable (db_mgr db) \<noteq> None" "mt_ShouldFlush (m_active (db_mgr db))"
    "c \<in> set (db_calls db)" "ca_rest c = Some (e # es)" "run_opt (db_exec coin env) evs db = Some db'"
  shows "db_flush db' = Rotating \<and> db_mgr db' = db_mgr db \<and> c \<in> set (db_calls db') \<and>
    (\<forall>b k renamed f. db_WriteBatch b db' = None \<and> db_exec coin env (DbGet k) db' = None \<and> flush_end renamed f db' = None \<and> db_Close db' = None)"
proof -
  have "jammed c (db_mgr db) db'"
    using assms(6) _ jammed_exec by (rule run_opt_invariant) (use assms in \<open>auto simp: jammed_def\<close>)
  then show ?thesis using jammed_blocked [of c "db_mgr db" db'] by (auto simp: jammed_def simp del: db_exec.simps)
qed

theorem db_flush_deadlock_witness:
  "\<exists>db c. run_opt (db_exec (\<lambda>_. False) sample_env) (two_writes @ write_events (put 3 3) @ [DbFlushTry None]) (fresh_db 1) = Some db \<and>
    db_calls db = [c] \<and> ca_batch c = put 3 3 \<and>
    (\<forall>evs db'. run_opt (db_exec (\<lambda>_. False) sample_env) evs db = Some db' \<longrightarrow> c \<in> set (db_calls db') \<and> (\<forall>b. db_WriteBatch b db' = None))"
proof -
  let ?run = "run_opt (db_exec (\<lambda>_. False) sample_env)"
  obtain gc a m where r: "?run two_writes (fresh_db 1) = Some (tiny_db gc m new_tree (Flushing a) [])"
    "gc_idle gc" "mt_rep a [([1], Some [1])]" "m_immutable m = Some a" "mt_ShouldFlush (m_active m)" by (rule two_writes_run)
  let ?c = "\<lparr>ca_batch = put 3 3, ca_req = gc_next gc, ca_rest = Some (put 3 3)\<rparr>"
  have put: "put 3 3 = [\<lparr>Op = OpPut, Key = [3], Value = Some [3]\<rparr>]" by (simp add: batch_Put_def emptyBatch_def)
  obtain gc1 where w: "?run (write_events (put 3 3)) (tiny_db gc m new_tree (Flushing a) []) = Some (tiny_db gc1 m new_tree (Flushing a) [?c])"
    using db_write_run [of "tiny_db gc m new_tree (Flushing a) []" gc "\<lambda>_. False" "put 3 3" "put 3 3" m sample_env] r(2,4,5)
      full_waits [of m "\<lambda>_. False" "put 3 3"] by (auto simp: db_progress_def Let_def put)
  obtain l where "lsm_Flush sample_env None a new_tree = Some (None, l)" by (rule flush_first_table [OF r(3)])
  then have db: "?run (two_writes @ write_events (put 3 3) @ [DbFlushTry None]) (fresh_db 1) = Some (tiny_db gc1 m l Rotating [?c])"
    unfolding run_opt_append [of _ two_writes] run_opt_append [of _ "write_events (put 3 3)"] r(1) option.case w by (simp add: flush_try_def)
  have "?c \<in> set (db_calls db') \<and> (\<forall>b. db_WriteBatch b db' = None)" if "?run evs (tiny_db gc1 m l Rotating [?c]) = Some db'" for evs db'
    using db_flush_deadlock [where c = ?c and e = "hd (put 3 3)" and es = "tl (put 3 3)", OF _ _ _ _ _ that] r(4,5) by (simp add: put)
  with db show ?thesis by (intro exI [of _ "tiny_db gc1 m l Rotating [?c]"] exI [of _ ?c]) simp
qed

section \<open>A crash after a rotation\<close>

text \<open>What a crash leaves on disk: the log file, the manifest and the tables.\<close>

definition crash_disk :: "DB \<Rightarrow> db_disk" where
  "crash_disk db = \<lparr>dd_mkdir = True,
     dd_wal = \<lparr>wd_log = map_option (\<lambda>i. f_data (w_file (gc_writer (db_gcs db ! i)))) (db_logFile db), wd_tmp = None\<rparr>,
     dd_recover = [], dd_open = True, dd_script = [], dd_manifest = good_file (f_data (mf_file (ls_manifest (db_lsm db)))),
     dd_tables = st_disk (ls_store (db_lsm db))\<rparr>"

lemma Open_crash_empty:
  assumes "wd_log (dd_wal (crash_disk db)) = Some []"
  shows "Open coin opts (crash_disk db) =
    (case NewLSMTree (lsm_options opts) (dd_manifest (crash_disk db)) (dd_tables (crash_disk db)) of
       Inl e \<Rightarrow> Some (Inl (ErrLSM e))
     | Inr l \<Rightarrow> Some (Inr \<lparr>db_opts = opts, db_gcs = [new_committer opts (good_file [])], db_gc = 0, db_logFile = Some 0, db_mgrGc = 0,
         db_mgr = NewManager (op_MemTableSize opts), db_lsm = l, db_closed = False, db_calls = [], db_flush = FlushIdle, db_done = [],
         db_applied = []\<rparr>))"
proof -
  obtain res where "Recover (dd_wal (crash_disk db)) [] = (Inr res, dd_wal (crash_disk db))" "Batches res = []"
    using Recover_cases [OF read_new_empty] assms by (auto simp: crash_disk_def)
  then show ?thesis
    using assms by (auto simp: Open_def crash_disk_def good_file_def nil_bytes_def split: sum.split)
qed

text \<open>
  C13. A crash after a rotation loses acknowledged writes.  The rotation replaces the log by an empty file and removes
  the old one, but the old log was also the only durable copy of the entries of the active memtable, which
  has not been flushed.  The active table and the results given so far stay as they were, while reopening what a
  crash leaves on disk starts from empty memtables: of the entries applied, only those in the tree survive.
\<close>

theorem db_rotation_loses_active:
  assumes "db_exec coin env (DbFlushEnd True (Some (good_file []))) db = Some db'"
  shows "m_active (db_mgr db') = m_active (db_mgr db) \<and> db_done db' = db_done db \<and> db_lsm db' = db_lsm db \<and>
    Open coin opts (crash_disk db') =
      (case NewLSMTree (lsm_options opts) (dd_manifest (crash_disk db)) (dd_tables (crash_disk db)) of
         Inl e \<Rightarrow> Some (Inl (ErrLSM e))
       | Inr l \<Rightarrow> Some (Inr \<lparr>db_opts = opts, db_gcs = [new_committer opts (good_file [])], db_gc = 0, db_logFile = Some 0, db_mgrGc = 0,
           db_mgr = NewManager (op_MemTableSize opts), db_lsm = l, db_closed = False, db_calls = [], db_flush = FlushIdle, db_done = [],
           db_applied = []\<rparr>))"
proof -
  obtain err db1 where r: "rotateWAL True (Some (good_file [])) db = Some (err, db1)"
      "db' = db1\<lparr>db_mgr := (db_mgr db1)\<lparr>m_immutable := None\<rparr>, db_flush := FlushIdle\<rparr>"
    using assms by (auto simp: flush_end_def split: if_splits option.splits)
  note same = rotateWAL_tables [OF r(1)]
  have "db_logFile db1 = Some (length (db_gcs db)) \<and> db_gcs db1 ! length (db_gcs db) = new_committer (db_opts db) (good_file [])"
    using r(1) by (auto simp: rotateWAL_def Let_def nth_append split: bind_splits)
  then have "wd_log (dd_wal (crash_disk db')) = Some []"
    by (simp add: crash_disk_def r(2) new_committer_def NewGroupCommitter_def NewWriter_def good_file_def)
  from Open_crash_empty [OF this] show ?thesis using same by (simp add: r(2) crash_disk_def)
qed

theorem db_rotation_loses_active_witness:
  "\<exists>db db'. run_opt (db_exec (\<lambda>_. False) sample_env) (two_writes @ [DbFlushTry None]) (fresh_db 1) = Some db \<and>
    db_exec (\<lambda>_. False) sample_env (DbFlushEnd True (Some (good_file []))) db = Some db' \<and>
    (put 2 2, None) \<in> set (db_done db') \<and> mgr_Get [2] (db_mgr db') = Some (Some (Some [2])) \<and>
    (\<forall>db2. Open (\<lambda>_. False) (small_opts 1) (crash_disk db') = Some (Inr db2) \<longrightarrow> mgr_Get [2] (db_mgr db2) = Some None)"
proof -
  obtain gc l m where db: "run_opt (db_exec (\<lambda>_. False) sample_env) (two_writes @ [DbFlushTry None]) (fresh_db 1) = Some (tiny_db gc m l Rotating [])"
      "gc_idle gc" "mt_rep (m_active m) [([2], Some [2])]"
    by (rule rotating_run)
  obtain gc' db' where db': "db_exec (\<lambda>_. False) sample_env (DbFlushEnd True (Some (good_file []))) (tiny_db gc m l Rotating []) = Some db'"
      "db' = (tiny_db gc m l FlushIdle [])\<lparr>db_gcs := [gc', new_committer (small_opts 1) (good_file [])], db_gc := 1, db_logFile := Some 1,
         db_mgr := m\<lparr>m_immutable := None\<rparr>\<rparr>"
    by (rule rotate_idle [OF db(2)])
  have new: "mgr_Get [2] (NewManager 1) = Some None" using mt_Get_rep [OF NewMemTable_rep] by (simp add: mgr_Get_def NewManager_def)
  have "mgr_Get [2] (db_mgr db2) = Some None" if "Open (\<lambda>_. False) (small_opts 1) (crash_disk db') = Some (Inr db2)" for db2
    using db_rotation_loses_active [OF db'(1), of "small_opts 1"] that new by (auto split: sum.splits)
  moreover have "mgr_Get [2] (db_mgr db') = Some (Some (Some [2]))" using mt_Get_rep [OF db(3), of "[2]"] by (simp add: db'(2) mgr_Get_def)
  ultimately show ?thesis using db(1) db' by (intro exI [of _ "tiny_db gc m l Rotating []"] exI [of _ db']) simp
qed

end
