(* ===== verification/LsmTermination.thy ===== *)
theory LsmTermination
  imports LsmProps
begin

text \<open>
  The compaction loop ends.  Every round moves entries to a deeper level, drops an empty table or empties level 0,
  and never has more entries afterwards, so a weighted count of the entries of the tree decreases.
\<close>

section \<open>Sums over the files of a version\<close>

definition level_sum :: "(nat \<Rightarrow> FileMetadata \<Rightarrow> nat) \<Rightarrow> Version \<Rightarrow> nat" where
  "level_sum g v = (\<Sum>n<MaxLevels. \<Sum>f\<in>set (v ! n). g n f)"

lemma merge_bound:
  fixes h :: "entry list \<Rightarrow> nat"
  assumes "\<And>k v xs. h (upd_by CompareKeys k v xs) \<le> h xs + w (k, v)" "h [] = 0"
  shows "h (merge_ref yss) \<le> sum_list (map (\<lambda>ys. sum_list (map w ys)) yss)"
proof (induction yss)
  case (Cons ys yss)
  have "h (fold (\<lambda>(k, v). upd_by CompareKeys k v) ys acc) \<le> h acc + sum_list (map w ys)" for acc
  proof (induction ys arbitrary: acc)
    case (Cons y ys)
    from Cons [of "upd_by CompareKeys (fst y) (snd y) acc"] assms(1) [of "fst y" "snd y" acc] show ?case by (simp add: split_beta)
  qed simp
  from this [of "merge_ref yss"] Cons show ?case by (simp add: merge_ref_def)
qed (simp add: merge_ref_def assms(2))

lemma length_merge_ref: "length (merge_ref yss) \<le> sum_list (map length yss)"
proof -
  have "length (upd_by CompareKeys k v xs) \<le> length xs + 1" for k v and xs :: "entry list" by (induction xs) auto
  from merge_bound [of length "\<lambda>_. 1", OF this] show ?thesis by (simp add: sum_list_triv)
qed

lemma weight_merge_ref: "weight (merge_ref yss) \<le> sum_list (map weight yss)"
proof -
  have "weight (upd_by CompareKeys k v xs) \<le> weight xs + entry_weight (k, v)" for k v xs by (induction xs) auto
  from merge_bound [of weight entry_weight, OF this] show ?thesis by (simp add: weight_def [abs_def])
qed

lemma PickCompaction_distinct:
  assumes "PickCompaction rnd v = Some c" "distinct (v ! 0)"
  shows "distinct (cp_Source c)"
  using assms by (auto simp: PickCompaction_def Let_def split: if_splits prod.splits)

text \<open>What a round does to a sum over the files.\<close>

lemma level_sum_round:
  assumes rep: "lsm_rep env l E" and pk: "picked (ls_version l) c s k" and r: "compacted env i l E c l' added tss"
    and g: "\<And>n f. n < MaxLevels \<Longrightarrow> f \<in> set (ls_version l ! n) \<Longrightarrow> g' n f = g n f"
  shows "level_sum g' (ls_version l') + (\<Sum>f\<in>set (cp_Source c). g (cp_Level c) f) + (\<Sum>f\<in>set (cp_Target c). g (cp_OutputLevel c) f) =
    level_sum g (ls_version l) + (\<Sum>f\<in>set added. g' (cp_OutputLevel c) f)"
proof -
  let ?v = "ls_version l" and ?k = "cp_Level c" and ?o = "cp_OutputLevel c" and ?in = "set (input_files c)"
  have wf: "version_wf ?v" and len: "length ?v = MaxLevels" using rep by (simp_all add: lsm_rep_def version_wf_def)
  note p = picked_files [OF pk len]
  have new: "f \<notin> set added" if "n < MaxLevels" "f \<in> set (?v ! n)" for n f
    using file_num_below [OF rep, of f] that len r nth_mem [of n ?v] unfolding compacted_def by fastforce
  have ins: "set (?v ! n) \<inter> ?in = (if n = ?k then set (cp_Source c) else if n = ?o then set (cp_Target c) else {})" if "n < MaxLevels" for n
  proof -
    have own: "f \<in> set (cp_Source c) \<Longrightarrow> n = ?k" "f \<in> set (cp_Target c) \<Longrightarrow> n = ?o" if "f \<in> set (?v ! n)" for f
      using level_unique [OF wf \<open>n < MaxLevels\<close> p(3) that] level_unique [OF wf \<open>n < MaxLevels\<close> p(4) that] p(1,2) by auto
    have "set (?v ! n) \<inter> set (cp_Source c) = (if n = ?k then set (cp_Source c) else {})"
      "set (?v ! n) \<inter> set (cp_Target c) = (if n = ?o then set (cp_Target c) else {})"
      using own p(1,2) by auto
    then show ?thesis using p(6) by (simp add: input_files_def Int_Un_distrib)
  qed
  have lvl: "(\<Sum>f\<in>set (ls_version l' ! n). g' n f) + (\<Sum>f\<in>set (?v ! n) \<inter> ?in. g n f) =
      (\<Sum>f\<in>set (?v ! n). g n f) + (if n = ?o then \<Sum>f\<in>set added. g' n f else 0)" if n: "n < MaxLevels" for n
  proof -
    have "set (ls_version l' ! n) = (set (?v ! n) - ?in) \<union> (if n = ?o then set added else {})"
      using r n by (auto simp: compacted_def)
    moreover have "(set (?v ! n) - ?in) \<inter> set added = {}" using new [OF n] by blast
    ultimately have "(\<Sum>f\<in>set (ls_version l' ! n). g' n f) =
        (\<Sum>f\<in>set (?v ! n) - ?in. g' n f) + (if n = ?o then \<Sum>f\<in>set added. g' n f else 0)"
      by (cases "n = ?o") (simp_all add: sum.union_disjoint)
    moreover have "(\<Sum>f\<in>set (?v ! n) - ?in. g' n f) = (\<Sum>f\<in>set (?v ! n) - ?in. g n f)" using g [OF n] by (intro sum.cong) auto
    moreover have "(\<Sum>f\<in>set (?v ! n). g n f) = (\<Sum>f\<in>set (?v ! n) \<inter> ?in. g n f) + (\<Sum>f\<in>set (?v ! n) - ?in. g n f)"
      by (simp add: sum.Int_Diff)
    ultimately show ?thesis by simp
  qed
  have "level_sum g' (ls_version l') + (\<Sum>n<MaxLevels. \<Sum>f\<in>set (?v ! n) \<inter> ?in. g n f) =
      level_sum g ?v + (\<Sum>n<MaxLevels. if n = ?o then \<Sum>f\<in>set added. g' n f else 0)"
    unfolding level_sum_def sum.distrib [symmetric] by (intro sum.cong) (auto simp: lvl)
  moreover have "(\<Sum>n<MaxLevels. \<Sum>f\<in>set (?v ! n) \<inter> ?in. g n f) =
      (\<Sum>n<MaxLevels. (if n = ?k then \<Sum>f\<in>set (cp_Source c). g n f else 0) + (if n = ?o then \<Sum>f\<in>set (cp_Target c). g n f else 0))"
    using p(6) by (intro sum.cong) (auto simp: ins)
  ultimately show ?thesis using p(3,4) by (simp add: sum.distrib sum.delta)
qed

section \<open>The loop\<close>

text \<open>
  The cost of a table: its entries by the number of levels below it, one for an empty table and one for a table of level 0.
\<close>

definition table_cost :: "(u64 \<Rightarrow> entry list) \<Rightarrow> nat \<Rightarrow> FileMetadata \<Rightarrow> nat" where
  "table_cost E n f = (MaxLevels - n) * length (E (fm_FileNum f)) + (if E (fm_FileNum f) = [] then 1 else 0) + (if n = 0 then 1 else 0)"

abbreviation cost :: "LSMTree \<Rightarrow> (u64 \<Rightarrow> entry list) \<Rightarrow> nat" where
  "cost l E \<equiv> level_sum (table_cost E) (ls_version l)"

abbreviation entries :: "LSMTree \<Rightarrow> (u64 \<Rightarrow> entry list) \<Rightarrow> nat" where
  "entries l E \<equiv> level_sum (\<lambda>_ f. length (E (fm_FileNum f))) (ls_version l)"

abbreviation volume :: "LSMTree \<Rightarrow> (u64 \<Rightarrow> entry list) \<Rightarrow> nat" where
  "volume l E \<equiv> level_sum (\<lambda>_ f. weight (E (fm_FileNum f))) (ls_version l)"

lemma sum_added:
  assumes "compacted env i l E c l' added tss"
  shows "(\<Sum>f\<in>set added. h (with_tables E added tss (fm_FileNum f))) = sum_list (map h tss)"
proof -
  have a: "list_all2 (describes env (st_disk (ls_store l')) (cp_OutputLevel c)) added tss" "distinct (map fm_FileNum added)"
    using assms by (simp_all add: compacted_def)
  then have "map (\<lambda>f. with_tables E added tss (fm_FileNum f)) added = tss"
    using with_tables_added [OF a] list_all2_lengthD [OF a(1)] by (intro nth_equalityI) simp_all
  moreover have "(\<Sum>f\<in>set added. h (with_tables E added tss (fm_FileNum f))) = sum_list (map (\<lambda>f. h (with_tables E added tss (fm_FileNum f))) added)"
    using a(2) by (simp add: sum_list_distinct_conv_sum_set distinct_map)
  ultimately show ?thesis by (metis (no_types, lifting) list.map_comp comp_def map_cong)
qed

lemma new_files:
  assumes "lsm_rep env l E" "compacted env i l E c l' added tss" "n < MaxLevels" "f \<in> set (ls_version l ! n)"
  shows "fm_FileNum f \<notin> fm_FileNum ` set added"
proof -
  have "f \<in> set (concat (ls_version l))" using assms(1,3,4) nth_mem [of n "ls_version l"] by (auto simp: lsm_rep_def version_wf_def)
  from file_num_below [OF assms(1) this] assms(2) show ?thesis unfolding compacted_def by fastforce
qed

lemma inputs_le:
  assumes "picked v c s k" "length v = MaxLevels"
  shows "(\<Sum>f\<in>set (cp_Source c). g (cp_Level c) f) + (\<Sum>f\<in>set (cp_Target c). g (cp_OutputLevel c) f) \<le> level_sum g v"
proof -
  note p = picked_files [OF assms]
  have "(\<Sum>f\<in>set (cp_Source c). g (cp_Level c) f) + (\<Sum>f\<in>set (cp_Target c). g (cp_OutputLevel c) f) \<le>
      (\<Sum>n\<in>{cp_Level c, cp_OutputLevel c}. \<Sum>f\<in>set (v ! n). g n f)"
    using p(1,2,6) by (simp add: add_mono sum_mono2)
  also have "\<dots> \<le> level_sum g v" unfolding level_sum_def using p(3,4) by (intro sum_mono2) auto
  finally show ?thesis .
qed

lemma outputs_le:
  fixes h :: "entry list \<Rightarrow> nat"
  assumes "lsm_rep env l E" "picked (ls_version l) c s k" "compacted env i l E c l' added tss" "distinct (cp_Source c)"
    and h: "\<And>yss. h (concat yss) = sum_list (map h yss)" "\<And>M d n s es. h (gc_list M d n s es) \<le> h es" "\<And>yss. h (merge_ref yss) \<le> sum_list (map h yss)"
  shows "sum_list (map h tss) \<le> (\<Sum>f\<in>set (cp_Source c). h (E (fm_FileNum f))) + (\<Sum>f\<in>set (cp_Target c). h (E (fm_FileNum f)))"
proof -
  have wf: "version_wf (ls_version l)" using assms(1) by (simp add: lsm_rep_def)
  then have "cp_OutputLevel c < MaxLevels" using picked_files(4) [OF assms(2)] by (simp add: version_wf_def)
  with wf have "distinct (ls_version l ! cp_OutputLevel c)" by (simp add: version_wf_def)
  then have "distinct (cp_Target c)" using assms(2) by (simp add: picked_def)
  then have "sum_list (map h (tables E (input_files c))) =
      (\<Sum>f\<in>set (cp_Source c). h (E (fm_FileNum f))) + (\<Sum>f\<in>set (cp_Target c). h (E (fm_FileNum f)))"
    using assms(4) by (simp add: input_files_def tables_def comp_def sum_list_distinct_conv_sum_set)
  moreover obtain M dp where "concat tss = gc_list M dp 0 ([], False) (merge_ref (tables E (input_files c)))"
    using assms(3) by (auto simp: compacted_def)
  then have "h (concat tss) \<le> sum_list (map h (tables E (input_files c)))" using h(2) h(3) order_trans by metis
  ultimately show ?thesis by (simp add: h(1))
qed

lemma round_bounds:
  assumes rep: "lsm_rep env l E" and pk: "picked (ls_version l) c s k" and r: "compacted env i l E c l' added tss" and d: "distinct (cp_Source c)"
  shows "entries l' (with_tables E added tss) \<le> entries l E" "volume l' (with_tables E added tss) \<le> volume l E"
    "sum_list (map length tss) \<le> entries l E"
proof -
  have same: "with_tables E added tss (fm_FileNum f) = E (fm_FileNum f)" if "n < MaxLevels" "f \<in> set (ls_version l ! n)" for n f
    using new_files [OF rep r that] by (rule with_tables_other)
  note len = outputs_le [OF rep pk r d, of length, OF length_concat length_gc_list length_merge_ref]
  have "weight (concat yss) = sum_list (map weight yss)" for yss by (induction yss) auto
  note wt = outputs_le [OF rep pk r d, of weight, OF this weight_gc_list weight_merge_ref]
  show "entries l' (with_tables E added tss) \<le> entries l E"
    using level_sum_round [OF rep pk r, of "\<lambda>_ f. length (with_tables E added tss (fm_FileNum f))" "\<lambda>_ f. length (E (fm_FileNum f))"] same len
      sum_added [OF r, of length] by simp
  show "volume l' (with_tables E added tss) \<le> volume l E"
    using level_sum_round [OF rep pk r, of "\<lambda>_ f. weight (with_tables E added tss (fm_FileNum f))" "\<lambda>_ f. weight (E (fm_FileNum f))"] same wt
      sum_added [OF r, of weight] by simp
  show "sum_list (map length tss) \<le> entries l E"
    using inputs_le [OF pk, of "\<lambda>_ f. length (E (fm_FileNum f))"] len rep by (simp add: lsm_rep_def version_wf_def)
qed

lemma round_cost:
  assumes rep: "lsm_rep env l E" and pk: "picked (ls_version l) c s k" and r: "compacted env i l E c l' added tss" and d: "distinct (cp_Source c)"
  shows "cost l' (with_tables E added tss) < cost l E"
proof -
  let ?E = "with_tables E added tss" and ?n = "MaxLevels - cp_OutputLevel c" and ?len = "\<lambda>f. length (E (fm_FileNum f))"
  let ?S = "set (cp_Source c)" and ?T = "set (cp_Target c)"
  have lv: "cp_OutputLevel c = Suc (cp_Level c)" "cp_OutputLevel c < MaxLevels" "cp_Source c \<noteq> []" using pk by (auto simp: picked_def)
  then have n: "MaxLevels - cp_Level c = Suc ?n" by simp
  have same: "table_cost ?E m f = table_cost E m f" if "m < MaxLevels" "f \<in> set (ls_version l ! m)" for m f
    using with_tables_other [OF new_files [OF rep r that]] by (simp add: table_cost_def)
  have ne: "ts \<noteq> []" if "ts \<in> set tss" for ts
    using r that by (auto simp: compacted_def describes_def in_set_conv_nth list_all2_conv_all_nth)
  have "(\<Sum>f\<in>set added. table_cost ?E (cp_OutputLevel c) f) = sum_list (map (\<lambda>ts. ?n * length ts + (if ts = [] then 1 else 0)) tss)"
    using sum_added [OF r, of "\<lambda>ts. ?n * length ts + (if ts = [] then 1 else 0)"] lv(1) by (simp add: table_cost_def)
  also have "\<dots> = ?n * sum_list (map length tss)"
    unfolding sum_list_const_mult [symmetric] using ne by (intro arg_cong [where f = sum_list] map_cong) auto
  also have "\<dots> \<le> ?n * (\<Sum>f\<in>?S. ?len f) + ?n * (\<Sum>f\<in>?T. ?len f)"
    using outputs_le [OF rep pk r d, of length, OF length_concat length_gc_list length_merge_ref]
    unfolding distrib_left [symmetric] by (rule mult_le_mono2)
  finally have out: "(\<Sum>f\<in>set added. table_cost ?E (cp_OutputLevel c) f) \<le> ?n * (\<Sum>f\<in>?S. ?len f) + ?n * (\<Sum>f\<in>?T. ?len f)" .
  have "?n * ?len f + 1 \<le> table_cost E (cp_Level c) f" for f by (cases "E (fm_FileNum f)") (simp_all add: table_cost_def n)
  then have "(\<Sum>f\<in>?S. ?n * ?len f + 1) \<le> (\<Sum>f\<in>?S. table_cost E (cp_Level c) f)" by (rule sum_mono)
  moreover have "(\<Sum>f\<in>?T. ?n * ?len f) \<le> (\<Sum>f\<in>?T. table_cost E (cp_OutputLevel c) f)" by (intro sum_mono) (simp add: table_cost_def)
  moreover have "0 < card ?S" using lv(3) by (simp add: card_gt_0_iff)
  ultimately have "?n * (\<Sum>f\<in>?S. ?len f) + ?n * (\<Sum>f\<in>?T. ?len f) < (\<Sum>f\<in>?S. table_cost E (cp_Level c) f) + (\<Sum>f\<in>?T. table_cost E (cp_OutputLevel c) f)"
    by (simp add: sum_Suc sum_distrib_left)
  with out level_sum_round [OF rep pk r, of "table_cost ?E" "table_cost E", OF same] show ?thesis by linarith
qed

lemma merge_room:
  assumes rep: "lsm_rep env l E" and pk: "picked (ls_version l) c s k" and d: "distinct (cp_Source c)"
  shows "length (merge_ref (tables E (input_files c))) \<le> entries l E" "weight (merge_ref (tables E (input_files c))) \<le> volume l E"
proof -
  have wf: "version_wf (ls_version l)" using rep by (simp add: lsm_rep_def)
  then have len: "length (ls_version l) = MaxLevels" by (simp add: version_wf_def)
  have "distinct (cp_Target c)" using wf pk picked_files(4) [OF pk len] by (simp add: version_wf_def picked_def)
  then have sums: "sum_list (map h (tables E (input_files c))) =
      (\<Sum>f\<in>set (cp_Source c). h (E (fm_FileNum f))) + (\<Sum>f\<in>set (cp_Target c). h (E (fm_FileNum f)))" for h :: "entry list \<Rightarrow> nat"
    using d by (simp add: input_files_def tables_def comp_def sum_list_distinct_conv_sum_set)
  show "length (merge_ref (tables E (input_files c))) \<le> entries l E"
    using length_merge_ref [of "tables E (input_files c)"] inputs_le [OF pk len, of "\<lambda>_ f. length (E (fm_FileNum f))"] sums [of length] by simp
  show "weight (merge_ref (tables E (input_files c))) \<le> volume l E"
    using weight_merge_ref [of "tables E (input_files c)"] inputs_le [OF pk len, of "\<lambda>_ f. weight (E (fm_FileNum f))"] sums [of weight] by simp
qed

lemma rounds_end:
  assumes "lsm_rep env l E" "rnd 0 = 0" "\<And>i. env_good (executor_env (ls_opts l) i env)" "f_script (mf_file (ls_manifest l)) = []"
    "volume l E + 2 ^ 33 < max_alloc" "entries l E \<le> T" "unat (mf_nextFileNum (ls_manifest l)) + (cost l E + 1) * T < 2 ^ 64"
  shows "\<exists>l' E'. compact_rounds rnd (\<lambda>_. env) durs i l = Some l' \<and> lsm_rep env l' E' \<and> PickCompaction rnd (ls_version l') = None"
  using assms
proof (induction "cost l E" arbitrary: l E i rule: less_induct)
  case less
  show ?case
  proof (cases "PickCompaction rnd (ls_version l)")
    case None
    then have "compact_rounds rnd (\<lambda>_. env) durs i l = Some l" by (subst compact_rounds.simps) (simp add: compact_round_def)
    then show ?thesis using less.prems(1) None by blast
  next
    case (Some c)
    have wf: "version_wf (ls_version l)" using less.prems(1) by (simp add: lsm_rep_def)
    have "distinct (ls_version l ! 0)" using wf by (simp add: version_wf_def MaxLevels_def)
    note d = PickCompaction_distinct [OF Some this]
    obtain s k where pk: "picked (ls_version l) c s k" using PickCompaction_picked(1) [OF Some less.prems(2)] by blast
    note m = merge_room [OF less.prems(1) pk d]
    have "T \<le> (cost l E + 1) * T" by simp
    then have "room l (merge_ref (tables E (input_files c)))" using m less.prems(4-7) unfolding room_def by linarith
    from compact_round_ok [OF less.prems(1) Some less.prems(2,3) this] obtain l' added tss where
      r: "compact_round rnd i env (durs i) l = Some (True, l')" and c: "compacted env i l E c l' added tss" by blast
    let ?E = "with_tables E added tss"
    note b = round_bounds [OF less.prems(1) pk c d]
    have smaller: "cost l' ?E < cost l E" by (rule round_cost [OF less.prems(1) pk c d])
    have l': "lsm_rep env l' ?E" "ls_opts l' = ls_opts l" "f_script (mf_file (ls_manifest l')) = []"
      "mf_nextFileNum (ls_manifest l') = mf_nextFileNum (ls_manifest l) + of_nat (length added)" using c by (simp_all add: compacted_def)
    have "length added = length tss" "\<forall>ts \<in> set tss. 1 \<le> length ts"
      using c by (auto simp: compacted_def describes_def Suc_le_eq in_set_conv_nth list_all2_conv_all_nth)
    then have added: "length added \<le> T" using b(3) less.prems(6) sum_list_mono [of tss "\<lambda>_. 1" length] by (simp add: sum_list_triv)
    have "(cost l' ?E + 1) * T + T \<le> (cost l E + 1) * T" using mult_le_mono1 [of "cost l' ?E + 2" "cost l E + 1" T] smaller by simp
    then have "unat (mf_nextFileNum (ls_manifest l')) + (cost l' ?E + 1) * T < 2 ^ 64"
      using added less.prems(7) unat_add_lem [of "mf_nextFileNum (ls_manifest l)" "of_nat (length added)"] by (simp add: l'(4) unat_of_nat_u64)
    moreover have "compact_rounds rnd (\<lambda>_. env) durs i l = compact_rounds rnd (\<lambda>_. env) durs (Suc i) l'" by (subst compact_rounds.simps) (simp add: r)
    ultimately show ?thesis
      using less.hyps [OF smaller l'(1) less.prems(2) _ l'(3), of "Suc i"] less.prems(3,5,6) l'(2) b(1,2) by simp
  qed
qed

lemma PickCompaction_None:
  assumes "PickCompaction rnd v = None" "n < MaxLevels - 1"
  shows "CompactionScore rnd n (v ! n) \<le> 1"
proof -
  obtain bl bs where b: "best_level rnd v = (bl, bs)" by fastforce
  with assms(1) have "bs \<le> 1" by (auto simp: PickCompaction_def Let_def split: if_splits prod.splits)
  then show ?thesis using best_level_low [OF b] assms(2) by force
qed

text \<open>
  C7. Compaction ends.  On a well-formed tree whose tables fit the address space, with working system calls and file
  numbers left, the compaction loop returns: the tree it leaves is well formed, and no level above the last is
  over its limit.
\<close>

theorem doCompaction_terminates:
  assumes "lsm_rep env l E" "rnd 0 = 0" "\<forall>i. env_good (executor_env (ls_opts l) i env)" "f_script (mf_file (ls_manifest l)) = []"
    "volume l E + 2 ^ 33 < max_alloc" "unat (mf_nextFileNum (ls_manifest l)) + (cost l E + 1) * entries l E < 2 ^ 64"
  shows "\<exists>l' E'. doCompaction rnd (\<lambda>_. env) durs l = Some l' \<and> lsm_rep env l' E' \<and>
    (\<forall>n < MaxLevels - 1. CompactionScore rnd n (ls_version l' ! n) \<le> 1)"
proof -
  let ?l = "l\<lparr>ls_stats := IncrPending (ls_stats l)\<rparr>"
  have "lsm_rep env ?l E" using assms(1) by (simp add: lsm_rep_def)
  from rounds_end [where rnd = rnd and i = 0 and durs = durs and T = "entries l E", OF this assms(2)] assms(3-6) obtain l' E' where
    l': "compact_rounds rnd (\<lambda>_. env) durs 0 ?l = Some l'" "lsm_rep env l' E'" "PickCompaction rnd (ls_version l') = None" by auto
  then have "doCompaction rnd (\<lambda>_. env) durs l = Some (l'\<lparr>ls_stats := DecrPending (ls_stats l')\<rparr>)" by (simp add: doCompaction_def)
  moreover have "lsm_rep env (l'\<lparr>ls_stats := DecrPending (ls_stats l')\<rparr>) E'" using l'(2) by (simp add: lsm_rep_def)
  ultimately show ?thesis using PickCompaction_None [OF l'(3)] by (intro exI conjI) auto
qed

lemma level_sum_level0:
  assumes "length v = MaxLevels" "\<forall>n. 0 < n \<longrightarrow> n < MaxLevels \<longrightarrow> v ! n = []" "distinct (v ! 0)"
  shows "level_sum g v = sum_list (map (g 0) (v ! 0))"
proof -
  have "(\<Sum>f\<in>set (v ! n). g n f) = (if n = 0 then sum_list (map (g 0) (v ! 0)) else 0)" if "n < MaxLevels" for n
    using assms that by (cases "n = 0") (simp_all add: sum_list_distinct_conv_sum_set)
  then show ?thesis by (simp add: level_sum_def MaxLevels_def)
qed

theorem doCompaction_terminates_witness:
  "\<exists>l l'. flush_tables sample_env five_tables new_tree = Some l \<and> PickCompaction (\<lambda>x. x) (ls_version l) \<noteq> None \<and>
    doCompaction (\<lambda>x. x) (\<lambda>_. sample_env) (\<lambda>_. 0) l = Some l' \<and> CompactionScore (\<lambda>x. x) 0 (ls_version l' ! 0) \<le> 1"
proof -
  obtain l E where l: "flush_tables sample_env five_tables new_tree = Some l" "lsm_rep sample_env l E"
    "tables E (ls_version l ! 0) = five_tables" "\<forall>n. 0 < n \<longrightarrow> n < MaxLevels \<longrightarrow> ls_version l ! n = []" "ls_opts l = tree_opts"
    "f_script (mf_file (ls_manifest l)) = []" "unat (mf_nextFileNum (ls_manifest l)) = 6"
    using five_flushed by blast
  have len: "length (ls_version l) = MaxLevels" "length (ls_version l ! 0) = 5"
    using l(2) arg_cong [OF l(3), of length] by (simp_all add: lsm_rep_def version_wf_def tables_def)
  have d: "distinct (ls_version l ! 0)" using l(2) by (simp add: lsm_rep_def version_wf_def MaxLevels_def)
  have sum: "level_sum (\<lambda>n f. h n (E (fm_FileNum f))) (ls_version l) = sum_list (map (h 0) five_tables)" for h :: "nat \<Rightarrow> entry list \<Rightarrow> nat"
    unfolding level_sum_level0 [OF len(1) l(4) d] l(3) [symmetric] by (simp add: tables_def comp_def)
  have sums: "entries l E = 5" "volume l E = sum_list (map weight five_tables)" "cost l E = 40"
    using sum [of "\<lambda>_. length"] sum [of "\<lambda>_. weight"]
      sum [of "\<lambda>n es. (MaxLevels - n) * length es + (if es = [] then 1 else 0) + (if n = 0 then 1 else 0)"]
    by (simp_all add: table_cost_def [abs_def] MaxLevels_def)
  have "volume l E + 2 ^ 33 < max_alloc"
    unfolding sums(2) by (simp add: entry_weight_def length_encode_kv vlen_def max_alloc_def)
  moreover have "\<forall>i. env_good (executor_env (ls_opts l) i sample_env)" unfolding l(5) using tree_env_good by blast
  ultimately obtain l' where "doCompaction (\<lambda>x. x) (\<lambda>_. sample_env) (\<lambda>_. 0) l = Some l'" "CompactionScore (\<lambda>x. x) 0 (ls_version l' ! 0) \<le> 1"
    using doCompaction_terminates [where rnd = "\<lambda>x. x" and durs = "\<lambda>_. 0", OF l(2) refl _ l(6)] sums l(7) by (auto simp: MaxLevels_def)
  then show ?thesis using l(1) pick_level0 [OF len l(4)] by auto
qed

end
