(* ===== verification/Transport.thy ===== *)
theory Transport
  imports DbProps Txn Raft
begin

text \<open>
  The services of \<^verbatim>\<open>internal/transport\<close>: the storage server in front of the database (\<^verbatim>\<open>server.go\<close>), the
  client of that server (\<^verbatim>\<open>client.go\<close>), the client API with its transactions (\<^verbatim>\<open>client_api.go\<close>) and the
  connections between Raft nodes (\<^verbatim>\<open>grpc.go\<close>).

  gRPC and the generated stubs are parameters: \<open>stub\<close> is the remote call, with the state of the remote side passed
  through it, and \<open>dial\<close> is whether a connection can be made.
\<close>

section \<open>Messages\<close>

datatype rpc_error = Internal | AbortedTxn | Unimplemented | DialFailed | WriteFailed

record WriteBatchRequest =
  wb_Puts :: "(bytes \<times> bytes option) list"
  wb_Deletes :: "bytes list"

record GetRequest =
  gr_Key :: bytes
  gr_Timestamp :: u64

record GetResponse =
  gs_Value :: "bytes option"
  gs_Found :: bool

section \<open>Storage server\<close>

definition server_batch :: "WriteBatchRequest \<Rightarrow> Batch" where
  "server_batch req =
     fold (\<lambda>d b. batch_Delete b d) (wb_Deletes req) (fold (\<lambda>p b. batch_Put b (fst p) (snd p)) (wb_Puts req) emptyBatch)"

text \<open>
  \<open>sched\<close> is what happens in the database between the start of the call and its return, which is the last of the
  results given in that time.
\<close>

definition server_WriteBatch ::
  "(nat \<Rightarrow> bool) \<Rightarrow> cenv \<Rightarrow> db_event list \<Rightarrow> WriteBatchRequest \<Rightarrow> DB \<Rightarrow> ((rpc_error + bool) \<times> DB) option" where
  "server_WriteBatch coin env sched req db = do {
     db1 \<leftarrow> db_WriteBatch (server_batch req) db;
     db2 \<leftarrow> run_opt (db_exec coin env) sched db1;
     case rev (drop (length (db_done db)) (db_done db2)) of
       [] \<Rightarrow> None
     | (b, err) # _ \<Rightarrow> if b = server_batch req then Some (case err of None \<Rightarrow> Inr True | Some e \<Rightarrow> Inl Internal, db2) else None }"

definition server_Get :: "cenv \<Rightarrow> GetRequest \<Rightarrow> DB \<Rightarrow> ((rpc_error + GetResponse) \<times> DB) option" where
  "server_Get env req db =
     (case db_Get env (gr_Key req) db of
        None \<Rightarrow> None
      | Some (Inl e, db) \<Rightarrow>
          Some (if e = ErrNotFound then Inr \<lparr>gs_Value = None, gs_Found = False\<rparr> else Inl Internal, db)
      | Some (Inr v, db) \<Rightarrow> Some (Inr \<lparr>gs_Value = Some v, gs_Found = True\<rparr>, db))"

definition server_Scan :: "'r \<Rightarrow> rpc_error" where
  "server_Scan req = Unimplemented"

definition server_Snapshot :: "'r \<Rightarrow> rpc_error" where
  "server_Snapshot req = Unimplemented"

section \<open>Storage client\<close>

text \<open>\<open>puts\<close> lists the map in the order the loop visits it.\<close>

definition write_request :: "(bytes \<times> bytes option) list \<Rightarrow> bytes list \<Rightarrow> WriteBatchRequest" where
  "write_request puts deletes = \<lparr>wb_Puts = puts, wb_Deletes = deletes\<rparr>"

definition client_WriteBatch ::
  "(WriteBatchRequest \<Rightarrow> 's \<Rightarrow> ((rpc_error + bool) \<times> 's) option) \<Rightarrow> (bytes \<times> bytes option) list \<Rightarrow> bytes list \<Rightarrow> 's \<Rightarrow>
     (rpc_error option \<times> 's) option" where
  "client_WriteBatch stub puts deletes s =
     (case stub (write_request puts deletes) s of
        None \<Rightarrow> None
      | Some (Inl e, s) \<Rightarrow> Some (Some e, s)
      | Some (Inr success, s) \<Rightarrow> Some (if \<not> success then Some WriteFailed else None, s))"

definition client_Get ::
  "(GetRequest \<Rightarrow> 's \<Rightarrow> ((rpc_error + GetResponse) \<times> 's) option) \<Rightarrow> bytes \<Rightarrow> u64 \<Rightarrow> 's \<Rightarrow>
     ((rpc_error + bytes option \<times> bool) \<times> 's) option" where
  "client_Get stub key timestamp s =
     (case stub \<lparr>gr_Key = key, gr_Timestamp = timestamp\<rparr> s of
        None \<Rightarrow> None
      | Some (Inl e, s) \<Rightarrow> Some (Inl e, s)
      | Some (Inr res, s) \<Rightarrow> Some (Inr (gs_Value res, gs_Found res), s))"

section \<open>Client API\<close>

text \<open>The part of a write before the storage is called: the commit stamp, or the refusal.\<close>

definition api_commit :: "bytes \<Rightarrow> i64 \<Rightarrow> i64 \<Rightarrow> TxnManager \<Rightarrow> (rpc_error + u64) \<times> TxnManager" where
  "api_commit key now now' tm =
     (case tm_Begin now tm of (txn, tm) \<Rightarrow>
        case tm_Commit now' (AddWrite key txn) tm of (r, tm) \<Rightarrow> (case r of None \<Rightarrow> Inl AbortedTxn | Some ts \<Rightarrow> Inr ts, tm))"

text \<open>The part after it: the commit stamp is not sent.\<close>

definition api_store ::
  "(WriteBatchRequest \<Rightarrow> 's \<Rightarrow> ((rpc_error + bool) \<times> 's) option) \<Rightarrow> (bytes \<times> bytes option) list \<Rightarrow> bytes list \<Rightarrow> 's \<Rightarrow>
     ((rpc_error + bool) \<times> 's) option" where
  "api_store stub puts deletes s =
     (case client_WriteBatch stub puts deletes s of
        None \<Rightarrow> None
      | Some (Some e, s) \<Rightarrow> Some (Inl Internal, s)
      | Some (None, s) \<Rightarrow> Some (Inr True, s))"

definition api_Put ::
  "(WriteBatchRequest \<Rightarrow> 's \<Rightarrow> ((rpc_error + bool) \<times> 's) option) \<Rightarrow> i64 \<Rightarrow> i64 \<Rightarrow> bytes \<Rightarrow> bytes option \<Rightarrow> TxnManager \<times> 's \<Rightarrow>
     ((rpc_error + bool) \<times> TxnManager \<times> 's) option" where
  "api_Put stub now now' key value s =
     (case api_commit key now now' (fst s) of
        (Inl e, tm) \<Rightarrow> Some (Inl e, tm, snd s)
      | (Inr ts, tm) \<Rightarrow>
          (case api_store stub [(key, value)] [] (snd s) of None \<Rightarrow> None | Some (r, st) \<Rightarrow> Some (r, tm, st)))"

definition api_Delete ::
  "(WriteBatchRequest \<Rightarrow> 's \<Rightarrow> ((rpc_error + bool) \<times> 's) option) \<Rightarrow> i64 \<Rightarrow> i64 \<Rightarrow> bytes \<Rightarrow> TxnManager \<times> 's \<Rightarrow>
     ((rpc_error + bool) \<times> TxnManager \<times> 's) option" where
  "api_Delete stub now now' key s =
     (case api_commit key now now' (fst s) of
        (Inl e, tm) \<Rightarrow> Some (Inl e, tm, snd s)
      | (Inr ts, tm) \<Rightarrow>
          (case api_store stub [] [key] (snd s) of None \<Rightarrow> None | Some (r, st) \<Rightarrow> Some (r, tm, st)))"

definition api_Get ::
  "(GetRequest \<Rightarrow> 's \<Rightarrow> ((rpc_error + GetResponse) \<times> 's) option) \<Rightarrow> i64 \<Rightarrow> bytes \<Rightarrow> TxnManager \<times> 's \<Rightarrow>
     ((rpc_error + GetResponse) \<times> TxnManager \<times> 's) option" where
  "api_Get stub now key s =
     (case tm_Begin now (fst s) of (txn, tm) \<Rightarrow>
        case client_Get stub key (SnapshotTS txn) (snd s) of
          None \<Rightarrow> None
        | Some (r, st) \<Rightarrow>
            Some (case r of Inl e \<Rightarrow> Inl Internal | Inr (v, found) \<Rightarrow> Inr \<lparr>gs_Value = v, gs_Found = found\<rparr>, tm_Abort txn tm, st))"

definition api_Scan :: "'r \<Rightarrow> rpc_error" where
  "api_Scan req = Unimplemented"

section \<open>Raft connections\<close>

type_synonym GRPCTransport = "string set"

definition getClient :: "(string \<Rightarrow> bool) \<Rightarrow> string \<Rightarrow> GRPCTransport \<Rightarrow> rpc_error option \<times> GRPCTransport" where
  "getClient dial peer conns =
     (if peer \<in> conns then (None, conns)
      else if \<not> dial peer then (Some DialFailed, conns)
      else (None, insert peer conns))"

definition transport_RequestVote ::
  "(string \<Rightarrow> bool) \<Rightarrow> (string \<Rightarrow> RequestVoteRequest \<Rightarrow> rpc_error + RequestVoteResponse) \<Rightarrow> string \<Rightarrow> RequestVoteRequest \<Rightarrow>
     GRPCTransport \<Rightarrow> (rpc_error + RequestVoteResponse) \<times> GRPCTransport" where
  "transport_RequestVote dial call peer req conns =
     (case getClient dial peer conns of (Some e, conns) \<Rightarrow> (Inl e, conns) | (None, conns) \<Rightarrow> (call peer req, conns))"

definition transport_AppendEntries ::
  "(string \<Rightarrow> bool) \<Rightarrow> (string \<Rightarrow> AppendEntriesRequest \<Rightarrow> rpc_error + AppendEntriesResponse) \<Rightarrow> string \<Rightarrow> AppendEntriesRequest \<Rightarrow>
     GRPCTransport \<Rightarrow> (rpc_error + AppendEntriesResponse) \<times> GRPCTransport" where
  "transport_AppendEntries dial call peer req conns =
     (case getClient dial peer conns of (Some e, conns) \<Rightarrow> (Inl e, conns) | (None, conns) \<Rightarrow> (call peer req, conns))"

section \<open>What the client API needs of the storage\<close>

text \<open>
  \<open>view\<close> is what the storage holds: a read answers with it, whatever the timestamp of the request, and a write
  that succeeds changes it at one key.
\<close>

locale storage_service =
  fixes write_rpc :: "WriteBatchRequest \<Rightarrow> 's \<Rightarrow> ((rpc_error + bool) \<times> 's) option"
    and get_rpc :: "GetRequest \<Rightarrow> 's \<Rightarrow> ((rpc_error + GetResponse) \<times> 's) option"
    and inv :: "'s \<Rightarrow> bool"
    and view :: "'s \<Rightarrow> bytes \<rightharpoonup> bytes"
  assumes get_view: "inv s \<Longrightarrow> \<exists>s'. get_rpc \<lparr>gr_Key = k, gr_Timestamp = ts\<rparr> s =
      Some (Inr \<lparr>gs_Value = view s k, gs_Found = (view s k \<noteq> None)\<rparr>, s') \<and> inv s' \<and> view s' = view s"
    and write_view: "inv s \<Longrightarrow> write_rpc \<lparr>wb_Puts = [(k, v)], wb_Deletes = []\<rparr> s = Some (Inr ok, s') \<Longrightarrow>
      inv s' \<and> view s' = (view s)(k := v)"
begin

lemma store_view:
  "inv s \<Longrightarrow> api_store write_rpc [(k, v)] [] s = Some (Inr b, s') \<Longrightarrow> inv s' \<and> view s' = (view s)(k := v)"
  using write_view [of s k v] by (auto simp: api_store_def client_WriteBatch_def write_request_def split: option.splits sum.splits if_splits)

lemma api_Get_view:
  assumes "inv s"
  shows "\<exists>tm' s'. api_Get get_rpc now k (tm, s) = Some (Inr \<lparr>gs_Value = view s k, gs_Found = (view s k \<noteq> None)\<rparr>, tm', s') \<and>
    inv s' \<and> view s' = view s"
  using get_view [OF assms, of k "SnapshotTS (fst (tm_Begin now tm))"] by (auto simp: api_Get_def client_Get_def split: prod.splits)

lemma put_then_get:
  assumes "inv s" "api_Put write_rpc now now' k v (tm, s) = Some (Inr b, tm1, s1)"
  shows "\<exists>tm' s'. api_Get get_rpc now'' k' (tm1, s1) =
      Some (Inr \<lparr>gs_Value = ((view s)(k := v)) k', gs_Found = (((view s)(k := v)) k' \<noteq> None)\<rparr>, tm', s')"
proof -
  have "inv s1 \<and> view s1 = (view s)(k := v)"
    using assms store_view [OF assms(1)] by (auto simp: api_Put_def split: prod.splits sum.splits option.splits)
  then show ?thesis using api_Get_view [of s1 now'' k' tm1] by auto
qed

lemma stores_in_order:
  assumes "inv s" "api_store write_rpc [(k, v)] [] s = Some (Inr b, s1)" "api_store write_rpc [(k, w)] [] s1 = Some (Inr b', s2)"
  shows "\<exists>tm' s'. api_Get get_rpc now k (tm, s2) = Some (Inr \<lparr>gs_Value = w, gs_Found = (w \<noteq> None)\<rparr>, tm', s')"
proof -
  have "inv s1" using store_view [OF assms(1,2)] by simp
  from store_view [OF this assms(3)] have "inv s2" "view s2 k = w" by simp_all
  then show ?thesis using api_Get_view [of s2 now k tm] by auto
qed

end

section \<open>The database behind the server\<close>

text \<open>A write with nothing else going on: the committer takes the request, syncs and answers.\<close>

abbreviation write_sched :: "db_event list" where
  "write_sched \<equiv> [DbReceive 0, DbTimer 0, DbAnswer 0]"

definition served :: "cenv \<Rightarrow> (bytes \<rightharpoonup> bytes option) \<Rightarrow> nat \<Rightarrow> DB \<Rightarrow> bool" where
  "served env base n db \<longleftrightarrow> db_inv env UNIV base n db \<and> \<not> db_closed db \<and> db_calls db = []"

definition held :: "(bytes \<rightharpoonup> bytes option) \<Rightarrow> DB \<Rightarrow> bytes \<rightharpoonup> bytes" where
  "held base db k = (case (base ++ last_write (db_applied db)) k of Some (Some v) \<Rightarrow> Some v | _ \<Rightarrow> None)"

lemma committer_step_frame:
  "committer_step e i db = Some db' \<Longrightarrow> \<exists>gcs. db' = db\<lparr>db_gcs := gcs\<rparr>"
  by (auto simp: committer_step_def split: if_splits option.splits)

lemma server_Get_held:
  assumes "served env base n db"
  shows "\<exists>db'. server_Get env \<lparr>gr_Key = k, gr_Timestamp = ts\<rparr> db =
      Some (Inr \<lparr>gs_Value = held base db k, gs_Found = (held base db k \<noteq> None)\<rparr>, db') \<and> served env base n db' \<and> held base db' = held base db"
proof -
  obtain f E where st: "db_state env UNIV base n f E db" and c: "\<not> db_closed db" "db_calls db = []"
    using assms by (auto simp: served_def db_inv_def)
  obtain db' where g: "db_Get env k db = Some (case (base ++ last_write (db_applied db)) k of Some (Some v) \<Rightarrow> Inr v | _ \<Rightarrow> Inl ErrNotFound, db')"
    "db_state env UNIV base n f E db'" "db_applied db' = db_applied db" using db_Get_state [OF st c(1), of k] by blast
  have "db_closed db' = db_closed db" "db_calls db' = db_calls db" using db_Get_frame [OF g(1)] by auto
  then have "served env base n db'" "held base db' = held base db" using g(2,3) c by (auto simp: served_def db_inv_def held_def [abs_def])
  then show ?thesis using g(1) by (auto simp: server_Get_def held_def split: option.split)
qed

lemma server_WriteBatch_applied:
  assumes inv: "served env base n db" and w: "server_WriteBatch coin env write_sched req db = Some (Inr ok, db')"
  shows "served env base n db' \<and> db_applied db' = db_applied db @ server_batch req"
proof -
  let ?b = "server_batch req"
  have db: "db_inv env UNIV base n db" "\<not> db_closed db" "db_calls db = []" using inv by (auto simp: served_def)
  obtain db1 db2 db3 where run: "db_WriteBatch ?b db = Some db1" "committer_step GcReceive 0 db1 = Some db2" "committer_step GcTimer 0 db2 = Some db3"
      "db_answer coin 0 db3 = Some db'"
    and res: "\<exists>xs. drop (length (db_done db)) (db_done db') = xs @ [(?b, None)]"
    using w by (auto simp: server_WriteBatch_def rev_eq_Cons_iff split: option.splits list.splits if_splits bind_splits)
  have db1: "db1 = db\<lparr>db_gcs := db_gcs db1, db_calls := [\<lparr>ca_batch = ?b, ca_req = gc_next (db_gcs db ! db_mgrGc db), ca_rest = None\<rparr>]\<rparr>"
    using run(1) db(2,3) by (auto simp: db_WriteBatch_def Let_def split: if_splits option.splits)
  obtain g1 g2 where db3: "db2 = db1\<lparr>db_gcs := g1\<rparr>" "db3 = db2\<lparr>db_gcs := g2\<rparr>" using run(2,3) committer_step_frame by blast
  have inv1: "db_inv env UNIV base n db1" by (rule db_inv_write [OF db(1) run(1)]) simp
  then have inv3: "db_inv env UNIV base n db3" by (rule db_inv_frame) (simp_all add: db3 db_inv_calls [OF inv1])
  have f3: "db_calls db3 = [\<lparr>ca_batch = ?b, ca_req = gc_next (db_gcs db ! db_mgrGc db), ca_rest = None\<rparr>]" "db_done db3 = db_done db"
      "db_applied db3 = db_applied db" "\<not> db_closed db3"
    using db1 db(2) by (metis (no_types, lifting) DB.select_convs DB.surjective DB.update_convs db3)+
  have "db_calls db' = [] \<and> db_applied db' = db_applied db @ ?b \<and> \<not> db_closed db'"
    using run(4) res f3 by (auto simp: db_answer_def db_progress_def Let_def split: option.splits sum.splits if_splits)
  then show ?thesis using db_inv_answer [OF inv3 run(4)] by (simp add: served_def)
qed

interpretation storage: storage_service "server_WriteBatch coin env write_sched" "server_Get env" "served env base n" "held base"
  for coin env base n
proof (unfold_locales, goal_cases)
  case (1 s k ts)
  then show ?case by (rule server_Get_held)
next
  case (2 s k v ok s')
  have "server_batch \<lparr>wb_Puts = [(k, v)], wb_Deletes = []\<rparr> = [\<lparr>Op = OpPut, Key = k, Value = v\<rparr>]"
    by (simp add: server_batch_def batch_Put_def emptyBatch_def)
  with server_WriteBatch_applied [OF 2] show ?case
    by (auto simp: held_def [abs_def] last_write_append last_write_def entry_binding_def fun_eq_iff split: option.split)
qed

section \<open>Properties\<close>

lemma api_commit_stamp:
  assumes "clk_budget (Suc (Suc n)) (tm_clock tm)" "wall_ok now" "wall_ok now'" "api_commit key now now' tm = (Inr ts, tm')"
  shows "clk_budget n (tm_clock tm') \<and> ts = hlc_stamp (tm_clock tm') \<and> hlc_stamp (tm_clock tm) < ts"
proof -
  obtain ts0 c0 where c0: "hlc_Now now (tm_clock tm) = (ts0, c0)" by fastforce
  obtain ts1 c1 where c1: "hlc_Now now' c0 = (ts1, c1)" by fastforce
  note b0 = Now_budget [OF assms(1,2) c0]
  note b1 = Now_budget [OF conjunct1 [OF b0] assms(3) c1]
  have "ts = ts1" "tm_clock tm' = c1"
    using assms(4) c0 c1 by (auto simp: api_commit_def tm_Begin_def begin_clock_def begin_register_def tm_Commit_def split: if_splits)
  then show ?thesis using b0 b1 by auto
qed

lemma served_fresh: "served sample_env (lookup (\<lambda>_. []) (ls_version new_tree)) 1 (fresh_db n)"
proof -
  have "db_inv sample_env UNIV (lookup (\<lambda>_. []) (ls_version new_tree)) (unat (mf_nextFileNum (ls_manifest new_tree))) (fresh_db n)"
  proof (rule Open_inv [OF Open_empty])
    show "f_script (mf_file (ls_manifest new_tree)) = []" by (simp add: good_file_def)
  qed (simp_all add: small_opts_tree NewLSMTree_empty new_tree_rep tree_env_good del: executor_env_simps)
  then show ?thesis by (simp add: served_def)
qed

lemma server_write_run:
  assumes "db_flush db \<noteq> Rotating" "\<not> db_closed db" "db_calls db = []" "db_gcs db = [gc]" "db_mgrGc db = 0" "gc_idle gc"
    "apply_entries coin (server_batch req) (db_mgr db) = Some ([], m)"
  shows "\<exists>gc' db'. gc_idle gc' \<and> server_WriteBatch coin env write_sched req db = Some (Inr True, db') \<and>
    db' = db\<lparr>db_gcs := [gc'], db_mgr := m, db_applied := db_applied db @ server_batch req, db_done := db_done db @ [(server_batch req, None)]\<rparr>"
proof -
  obtain gc' where gc': "gc_idle gc'" "run_opt (db_exec coin env) (write_events (server_batch req)) db =
      Some (db_progress 0 (server_batch req) [] m (db\<lparr>db_calls := [\<lparr>ca_batch = server_batch req, ca_req = gc_next gc, ca_rest = None\<rparr>], db_gcs := [gc']\<rparr>))"
    using db_write_run [OF assms] by blast
  obtain db1 where db1: "db_WriteBatch (server_batch req) db = Some db1" "run_opt (db_exec coin env) write_sched db1 =
      Some (db_progress 0 (server_batch req) [] m (db\<lparr>db_calls := [\<lparr>ca_batch = server_batch req, ca_req = gc_next gc, ca_rest = None\<rparr>], db_gcs := [gc']\<rparr>))"
    using gc'(2) by (auto split: option.splits)
  have "db = db\<lparr>db_calls := []\<rparr>" using assms(3) by simp
  then have "db_progress 0 (server_batch req) [] m (db\<lparr>db_calls := [\<lparr>ca_batch = server_batch req, ca_req = gc_next gc, ca_rest = None\<rparr>], db_gcs := [gc']\<rparr>) =
      db\<lparr>db_gcs := [gc'], db_mgr := m, db_applied := db_applied db @ server_batch req, db_done := db_done db @ [(server_batch req, None)]\<rparr>"
    by (cases db) (simp add: db_progress_def Let_def)
  with db1 gc'(1) show ?thesis by (intro exI [of _ gc'] exI conjI) (simp_all add: server_WriteBatch_def)
qed

text \<open>Two puts of one key, run on a fresh database.\<close>

abbreviation put_request :: "byte \<Rightarrow> byte \<Rightarrow> WriteBatchRequest" where
  "put_request k v \<equiv> \<lparr>wb_Puts = [([k], Some [v])], wb_Deletes = []\<rparr>"

lemma two_puts_room:
  "case apply_entries (\<lambda>_. False) (server_batch (put_request 1 2)) (NewManager 1000) of
     None \<Rightarrow> False
   | Some (rest, m) \<Rightarrow> List.null rest \<and>
       (case apply_entries (\<lambda>_. False) (server_batch (put_request 1 3)) m of None \<Rightarrow> False | Some (rest, m') \<Rightarrow> List.null rest)"
  by code_simp

lemma two_commits:
  "case api_commit [1] 5 5 (NewTxnManager NewClock) of
     (Inr ts, tm) \<Rightarrow> (case api_commit [1] 6 6 tm of (Inr ts', tm') \<Rightarrow> True | _ \<Rightarrow> False)
   | _ \<Rightarrow> False"
  by code_simp

lemma two_puts_stored:
  obtains db1 db2 where
    "api_store (server_WriteBatch (\<lambda>_. False) sample_env write_sched) [([1], Some [2])] [] (fresh_db 1000) = Some (Inr True, db1)"
    "api_store (server_WriteBatch (\<lambda>_. False) sample_env write_sched) [([1], Some [3])] [] db1 = Some (Inr True, db2)"
proof -
  obtain m1 m2 where m: "apply_entries (\<lambda>_. False) (server_batch (put_request 1 2)) (NewManager 1000) = Some ([], m1)"
    "apply_entries (\<lambda>_. False) (server_batch (put_request 1 3)) m1 = Some ([], m2)"
    using two_puts_room by (auto split: option.splits)
  obtain gc1 db1 where db1: "gc_idle gc1" "server_WriteBatch (\<lambda>_. False) sample_env write_sched (put_request 1 2) (fresh_db 1000) = Some (Inr True, db1)"
    "db1 = (fresh_db 1000)\<lparr>db_gcs := [gc1], db_mgr := m1, db_applied := [] @ server_batch (put_request 1 2), db_done := [] @ [(server_batch (put_request 1 2), None)]\<rparr>"
    using server_write_run [of "fresh_db 1000" _ "\<lambda>_. False" "put_request 1 2" m1 sample_env] m(1) gc_idle_new [of 100 "[]"] by auto
  obtain gc2 db2 where db2: "server_WriteBatch (\<lambda>_. False) sample_env write_sched (put_request 1 3) db1 = Some (Inr True, db2)"
    using server_write_run [of db1 gc1 "\<lambda>_. False" "put_request 1 3" m2 sample_env] m(2) db1(1,3) by auto
  show ?thesis using that [of db1 db2] db1(2) db2 by (simp add: api_store_def client_WriteBatch_def write_request_def)
qed



text \<open>
  C12. Committed writes can reach the storage in the wrong order.  A put commits its transaction first and calls the
  storage afterwards, and the storage is not told the commit stamp.  If a second put of the same key begins
  and commits after the first has committed, and its write reaches the storage before that of the first, both
  succeed, and from then on reads return the value of the first, although it committed earlier.
\<close>

theorem client_writes_out_of_order:
  assumes "served env base n db" "clk_budget 4 (tm_clock tm)" "wall_ok t1" "wall_ok t2" "wall_ok t3" "wall_ok t4"
    "api_commit k t1 t2 tm = (Inr ts1, tm1)" "api_commit k t3 t4 tm1 = (Inr ts2, tm2)"
    "api_store (server_WriteBatch coin env write_sched) [(k, w)] [] db = Some (Inr b, db1)"
    "api_store (server_WriteBatch coin env write_sched) [(k, v)] [] db1 = Some (Inr b', db2)"
  shows "ts1 < ts2 \<and> (\<exists>tm' db'. api_Get (server_Get env) now k (tm2, db2) = Some (Inr \<lparr>gs_Value = v, gs_Found = (v \<noteq> None)\<rparr>, tm', db'))"
proof
  have "clk_budget 2 (tm_clock tm1) \<and> ts1 = hlc_stamp (tm_clock tm1)"
    using api_commit_stamp [of 2, OF _ assms(3,4,7)] assms(2) by (simp add: eval_nat_numeral)
  then show "ts1 < ts2" using api_commit_stamp [of 0, OF _ assms(5,6,8)] by (auto simp: eval_nat_numeral)
  show "\<exists>tm' db'. api_Get (server_Get env) now k (tm2, db2) = Some (Inr \<lparr>gs_Value = v, gs_Found = (v \<noteq> None)\<rparr>, tm', db')"
    by (rule storage.stores_in_order [OF assms(1,9,10)])
qed

theorem client_writes_out_of_order_witness:
  "\<exists>ts1 tm1 ts2 tm2 db1 db2 tm' db'.
    api_commit [1] 5 5 (NewTxnManager NewClock) = (Inr ts1, tm1) \<and> api_commit [1] 6 6 tm1 = (Inr ts2, tm2) \<and> ts1 < ts2 \<and>
    api_store (server_WriteBatch (\<lambda>_. False) sample_env write_sched) [([1], Some [2])] [] (fresh_db 1000) = Some (Inr True, db1) \<and>
    api_store (server_WriteBatch (\<lambda>_. False) sample_env write_sched) [([1], Some [3])] [] db1 = Some (Inr True, db2) \<and>
    api_Get (server_Get sample_env) 7 [1] (tm2, db2) = Some (Inr \<lparr>gs_Value = Some [3], gs_Found = True\<rparr>, tm', db')"
proof -
  obtain ts1 tm1 ts2 tm2 where c: "api_commit [1] 5 5 (NewTxnManager NewClock) = (Inr ts1, tm1)" "api_commit [1] 6 6 tm1 = (Inr ts2, tm2)"
    using two_commits by (auto split: prod.splits sum.splits)
  obtain db1 db2 where s: "api_store (server_WriteBatch (\<lambda>_. False) sample_env write_sched) [([1], Some [2])] [] (fresh_db 1000) = Some (Inr True, db1)"
    "api_store (server_WriteBatch (\<lambda>_. False) sample_env write_sched) [([1], Some [3])] [] db1 = Some (Inr True, db2)" by (rule two_puts_stored)
  have "clk_budget 4 (tm_clock (NewTxnManager NewClock))" by (simp add: clk_budget_def NewTxnManager_def NewClock_def wall_ok_def)
  moreover have "wall_ok 5" "wall_ok 6" by (simp_all add: wall_ok_def)
  ultimately show ?thesis using client_writes_out_of_order [OF served_fresh _ _ _ _ _ c s, of 7] c s by auto
qed

end
