(* ===== verification/Spec2Isabelle.thy ===== *)
theory Spec2Isabelle
  imports GroupCommit Manager Bloom Txn Manifest SstIter PickerCorrect LsmProps RaftProps RaftReplication DbRotation
    LsmTermination Transport
begin

text \<open>
  A verification development for Stratum, a key-value store written in Go.

  \<^bold>\<open>The program.\<close>  A database (\<^verbatim>\<open>db.go\<close>) writes every batch to a write-ahead log (\<^verbatim>\<open>internal/wal\<close>) through a group
  committer, applies it to a memtable (\<^verbatim>\<open>internal/memtable\<close>), and flushes full memtables as sorted tables
  (\<^verbatim>\<open>internal/sstable\<close>, \<^verbatim>\<open>internal/bloom\<close>) into a levelled tree with a manifest and a background compaction
  (\<^verbatim>\<open>internal/lsm\<close>).  Versioned keys, a transaction manager (\<^verbatim>\<open>internal/mvcc\<close>) and a hybrid logical clock
  (\<^verbatim>\<open>internal/hlc\<close>) serve the client API; a Raft node (\<^verbatim>\<open>internal/raft\<close>) with a log of its own is meant to replicate
  it; \<^verbatim>\<open>internal/transport\<close> connects the parts over gRPC.

  \<^bold>\<open>How the code is modelled.\<close>  A struct is a record, an error a value of a sum or option type, a loop a
  recursive function; where a loop may run forever it is a partial function into \<open>option\<close> and its return is
  proved.  Integers keep their width wherever the code can overflow them; sizes that only count bytes in memory are
  \<open>nat\<close> or \<open>int\<close>.  A nil slice and an empty slice are different (\<open>bytes option\<close>).  Files carry a script of the
  outcomes of the coming system calls, so every error path can be taken.  Concurrent code is cut into atomic steps at
  its locks and channel operations: an event function returns \<open>None\<close> where the step cannot happen now, a run is a list of
  events (\<open>run_opt\<close>), and a property of all interleavings is a property of all runs.  Third-party functions (murmur3,
  lz4, gRPC), the random source, the clock and the rounding of float64 divisions are parameters, with what is
  used of them as hypotheses (\<open>env_good\<close>).

  \<^bold>\<open>Theories and code.\<close>
  \<^item> \<open>Prelude\<close>: byte strings, little and big endian fields, orderings given by a comparison (locale \<open>total_cmp\<close>), sorted
    association lists (locale \<open>sorted_table\<close>), files with scripted failures, runs.
  \<^item> \<open>Keys\<close> (\<^verbatim>\<open>mvcc/key.go\<close>), \<open>Hlc\<close> (\<^verbatim>\<open>hlc/hlc.go\<close>), \<open>Txn\<close> (\<^verbatim>\<open>mvcc/txn.go\<close>): key codec and order; stamps increase;
    no two committed transactions that ran at the same time wrote a common key.
  \<^item> \<open>WalBatch\<close>, \<open>Crc\<close>, \<open>WalLog\<close>, \<open>WalCorrect\<close>, \<open>WalRecovery\<close>, \<open>GroupCommit\<close> (\<^verbatim>\<open>wal/\<close>): batch codec, the checksum, the
    block format, reading a log cut anywhere or damaged, recovery, acknowledged means durable within a block.
  \<^item> \<open>SkipList\<close>, \<open>MemTable\<close>, \<open>Manager\<close> (\<^verbatim>\<open>memtable/\<close>): the skip list over an explicit store of nodes is a sorted
    map (an instance of \<open>sorted_table\<close>); the manager's tables hold the last write in every interleaving, and a flush unblocks the writers.
  \<^item> \<open>Bloom\<close> (\<^verbatim>\<open>bloom/bloom.go\<close>), \<open>BlockCache\<close>, \<open>SstFormat\<close>, \<open>SstWriter\<close>, \<open>SstReader\<close>, \<open>SstCorrect\<close>, \<open>SstIter\<close>,
    \<open>ByteReader\<close>, \<open>Search\<close> (\<^verbatim>\<open>sstable/\<close>): tables written and read back through filter, index and cache (locale
    \<open>block_store\<close>); the cache refines a least-recently-used list; iteration (locale \<open>entry_iterator\<close>).
  \<^item> \<open>Levels\<close>, \<open>Manifest\<close>, \<open>GoHeap\<close>, \<open>MergeIterator\<close>, \<open>Compaction\<close>, \<open>VersionGc\<close>, \<open>CompactionMerge\<close>,
    \<open>CompactionCorrect\<close>, \<open>PickerCorrect\<close>, \<open>LsmVersion\<close> (\<^verbatim>\<open>lsm/manifest.go\<close>, \<^verbatim>\<open>level.go\<close>, \<^verbatim>\<open>merge_iterator.go\<close>,
    \<^verbatim>\<open>compaction.go\<close>): version edits and their replay after a crash, the merge with Go's heap operations, what a
    compaction writes, what the picker chooses, what snapshots still read.
  \<^item> \<open>Lsm\<close>, \<open>LsmCorrect\<close>, \<open>LsmCompaction\<close>, \<open>LsmProps\<close>, \<open>LsmTermination\<close> (\<^verbatim>\<open>lsm/lsm.go\<close>, \<^verbatim>\<open>write_stall.go\<close>,
    \<^verbatim>\<open>metrics.go\<close>, \<^verbatim>\<open>rate_limiter.go\<close>): the tree's invariant \<open>lsm_rep\<close>, which flushes and compaction rounds keep; lookups against a
    linear search; flushes; what level-0 and deeper rounds do to lookups; the compaction loop ends.
  \<^item> \<open>Db\<close>, \<open>DbCorrect\<close>, \<open>DbProps\<close>, \<open>DbRotation\<close> (\<^verbatim>\<open>db.go\<close>, \<^verbatim>\<open>options.go\<close>): the database as steps of callers, committers and the
    flusher; the invariant \<open>db_inv\<close>; reads see the last write; what the rotation of the log breaks.
  \<^item> \<open>Raft\<close>, \<open>RaftCluster\<close>, \<open>RaftProps\<close>, \<open>RaftReplication\<close> (\<^verbatim>\<open>raft/raft.go\<close>, \<^verbatim>\<open>raft/wal.go\<close>): a node with its lock as part
    of the state; a cluster as a step relation over nodes and the messages in flight; election safety by an
    invariant over votes, and what blocks, forgets or drops entries.
  \<^item> \<open>Transport\<close> (\<^verbatim>\<open>transport/\<close>): the handlers of the storage server and of the client API; the locale \<open>storage_service\<close>
    is what the API needs of the storage, interpreted by the server over the database.

  \<^bold>\<open>Bounds.\<close>  Hypotheses on sizes say that lengths fit the integers the code stores them in: an entry fits a decompression
  buffer (\<open>entry_small\<close>), a table fits the address space (\<open>max_alloc\<close>, with the \<open>weight\<close> of its entries as a bound of the
  file's length), file numbers stay below \<open>2 ^ 64\<close>, at most \<open>2 ^ 16\<close> clock readings in a millisecond.  No function
  uses fuel; the loops of the skip list, the iterators and the compaction are proved to return.

  \<^bold>\<open>Not modelled.\<close>  The generated protobuf code; gRPC servers, listening and closing of connections (their calls are
  parameters); the programs under \<^verbatim>\<open>cmd/\<close>, which parse flags and start the services; the benchmark driver; logging and
  the creation time of memtables, which nothing reads; the parent directory's durability after a rename.  Data races
  outside locks are not visible at the level of atomic steps, except where the code reads without its lock and
  the model splits the step there (\<open>begin_clock\<close>).
\<close>

end
